(* ===== verification/Hft_Prelude.thy ===== *)
theory Hft_Prelude
  imports Main "HOL-Library.AList" "HOL-Library.Signed_Division" "HOL-Library.Product_Lexorder"
    "HOL-Library.Monad_Syntax"
begin

text \<open>
  Shared vocabulary of the development: the integer types of \<open>src/mvp/src/order_book.h\<close>, the
  wrap-around of 64-bit arithmetic written out, the \<open>Side\<close> enumeration, and the generic lemmas
  on lists and association lists that the component theories use.
\<close>

section \<open>Proof-method collections\<close>

named_theorems width_simps \<open>64-bit arithmetic that stays in range\<close>
named_theorems heap_simps \<open>effect of the pool operations on the heap view\<close>

section \<open>Fixed-width integers\<close>

text \<open>
  \<open>Price\<close> and \<open>Quantity\<close> are \<open>int64_t\<close>: they are kept as \<^typ>\<open>int\<close>, and every signed
  operation of the source is followed by \<open>s64\<close>, the two's-complement reading of the low 64 bits.
  \<open>OrderId\<close>, \<open>Timestamp\<close> and the counters are \<open>uint64_t\<close>: they are kept as \<^typ>\<open>nat\<close> and
  reduced by \<open>u64\<close>, the natural number that the low 64 bits of an
  integer stand for.
\<close>

type_synonym price = int
type_synonym quantity = int
type_synonym order_id = nat
type_synonym timestamp = nat

definition int64_max :: int where
  "int64_max = 9223372036854775807"

definition int64_min :: int where
  "int64_min = - 9223372036854775808"

definition is_s64 :: "int \<Rightarrow> bool" where
  "is_s64 x \<longleftrightarrow> int64_min \<le> x \<and> x \<le> int64_max"

definition s64 :: "int \<Rightarrow> int" where
  "s64 x = (x + 2 ^ 63) mod 2 ^ 64 - 2 ^ 63"

definition u64 :: "int \<Rightarrow> nat" where
  "u64 x = nat (x mod 2 ^ 64)"

lemma s64_id [width_simps]: "is_s64 x \<Longrightarrow> s64 x = x"
  by (simp add: is_s64_def s64_def int64_min_def int64_max_def)

lemma is_s64_s64 [simp, intro]: "is_s64 (s64 x)"
proof -
  have "0 \<le> (x + 2 ^ 63) mod (2 ^ 64 :: int)" and "(x + 2 ^ 63) mod (2 ^ 64 :: int) < 2 ^ 64"
    by simp_all
  then show ?thesis
    by (simp add: is_s64_def s64_def int64_min_def int64_max_def)
qed

lemma s64_add_s64: "s64 (s64 x + y) = s64 (x + y)"
proof -
  have "s64 x + y + 2 ^ 63 = (x + 2 ^ 63) mod 2 ^ 64 + y"
    by (simp add: s64_def)
  then have "(s64 x + y + 2 ^ 63) mod 2 ^ 64 = (x + 2 ^ 63 + y) mod (2 ^ 64 :: int)"
    by (simp only: mod_add_left_eq)
  then show ?thesis
    by (simp add: s64_def algebra_simps)
qed

lemma is_s64_0 [simp]: "is_s64 0"
  by (simp add: is_s64_def int64_min_def int64_max_def)

lemma is_s64_between: "is_s64 a \<Longrightarrow> is_s64 b \<Longrightarrow> a \<le> x \<Longrightarrow> x \<le> b \<Longrightarrow> is_s64 x"
  by (simp add: is_s64_def)

lemma is_s64_diff:
  assumes "is_s64 a" "0 \<le> c" "c \<le> a"
  shows "is_s64 (a - c)" "s64 (a - c) = a - c"
proof -
  show "is_s64 (a - c)"
    by (rule is_s64_between [OF is_s64_0 assms(1)]) (use assms in auto)
  then show "s64 (a - c) = a - c" by (rule s64_id)
qed

lemma u64_id [width_simps]: "0 \<le> x \<Longrightarrow> x < 2 ^ 64 \<Longrightarrow> u64 x = nat x"
  by (simp add: u64_def)

lemma u64_less [simp]: "u64 x < 2 ^ 64"
  by (simp add: u64_def nat_less_iff)

lemma u64_Suc [width_simps]: "n + 1 < 2 ^ 64 \<Longrightarrow> u64 (int n + 1) = Suc n"
  by (simp add: u64_def)

text \<open>The increment of a \<open>uint64_t\<close> counter.\<close>

definition inc64 :: "nat \<Rightarrow> nat" where
  "inc64 n = u64 (int n + 1)"

lemma inc64_Suc: "int n + 1 < 2 ^ 64 \<Longrightarrow> inc64 n = Suc n"
  by (simp add: inc64_def u64_def)

text \<open>
  Signed overflow is undefined in C++.  The components that compute with unbounded inputs (the
  portfolio, the strategies, the gateway) use \<open>chk64\<close>: \<^term>\<open>None\<close> is the undefined result, so a
  theorem that such an operation returns also says that nothing overflows.
\<close>

definition chk64 :: "int \<Rightarrow> int option" where
  "chk64 x = (if is_s64 x then Some x else None)"

lemma chk64_Some [simp]: "chk64 x = Some y \<longleftrightarrow> is_s64 x \<and> y = x"
  by (auto simp: chk64_def)

lemma chk64_id: "is_s64 x \<Longrightarrow> chk64 x = Some x"
  by simp

lemma is_s64_abs: "\<bar>x\<bar> \<le> int64_max \<Longrightarrow> is_s64 x"
  by (auto simp: is_s64_def int64_min_def int64_max_def)

section \<open>Sides\<close>

datatype side = Buy | Sell

fun opposite :: "side \<Rightarrow> side" where
  "opposite Buy = Sell"
| "opposite Sell = Buy"

lemma opposite_neq [simp]: "opposite s \<noteq> s" "s \<noteq> opposite s"
  by (cases s; simp)+

lemma opposite_opposite [simp]: "opposite (opposite s) = s"
  by (cases s) simp_all

lemma side_neq_iff: "s \<noteq> s' \<longleftrightarrow> s' = opposite s"
  by (cases s; cases s') simp_all

section \<open>Lists\<close>

definition hd_opt :: "'a list \<Rightarrow> 'a option" where
  "hd_opt xs = (case xs of [] \<Rightarrow> None | x # _ \<Rightarrow> Some x)"

definition last_opt :: "'a list \<Rightarrow> 'a option" where
  "last_opt xs = (if xs = [] then None else Some (last xs))"

lemma hd_opt_simps [simp]: "hd_opt [] = None" "hd_opt (x # xs) = Some x"
  by (simp_all add: hd_opt_def)

lemma last_opt_simps [simp]:
  "last_opt [] = None" "last_opt [x] = Some x" "last_opt (xs @ [x]) = Some x"
  by (simp_all add: last_opt_def)

lemma hd_opt_None [simp]: "hd_opt xs = None \<longleftrightarrow> xs = []"
  by (cases xs) simp_all

lemma last_opt_None [simp]: "last_opt xs = None \<longleftrightarrow> xs = []"
  by (simp add: last_opt_def)

lemma hd_opt_append [simp]: "hd_opt (xs @ ys) = (if xs = [] then hd_opt ys else hd_opt xs)"
  by (cases xs) simp_all

lemma last_opt_append [simp]: "last_opt (xs @ ys) = (if ys = [] then last_opt xs else last_opt ys)"
  by (simp add: last_opt_def)

lemma hd_opt_default [simp]: "(if xs = [] then None else hd_opt xs) = hd_opt xs"
  by simp

lemma last_opt_default [simp]: "(if xs = [] then None else last_opt xs) = last_opt xs"
  by simp

lemma last_opt_Cons: "last_opt (x # xs) = (if xs = [] then Some x else last_opt xs)"
  by (simp add: last_opt_def)

lemma insort_key_between:
  assumes "\<forall>a \<in> set as. f a < f x" and "\<forall>b \<in> set bs. f x \<le> f b"
  shows "insort_key f x (as @ bs) = as @ x # bs"
  using assms
proof (induction as)
  case Nil
  then show ?case by (cases bs) simp_all
next
  case (Cons a as)
  then show ?case by (auto simp: not_le[symmetric])
qed

lemma insort_key_split:
  "\<exists>us vs. xs = us @ vs \<and> insort_key f x xs = us @ x # vs"
proof (induction xs)
  case (Cons y ys)
  then obtain us vs where "ys = us @ vs" "insort_key f x ys = us @ x # vs"
    by blast
  then show ?case
    by (auto intro: exI [of _ "[]"] exI [of _ "y # us"])
qed simp

lemma distinct_map_insort_key:
  "distinct (map g (insort_key f x xs)) \<longleftrightarrow> g x \<notin> g ` set xs \<and> distinct (map g xs)"
  by (induction xs) (auto simp: set_insort_key)

section \<open>Association lists as unordered maps\<close>

lemma set_alist_delete:
  "set (AList.delete k al) = {p \<in> set al. fst p \<noteq> k}"
  by (auto simp: AList.delete_eq)

lemma set_alist_update_fresh:
  "k \<notin> fst ` set al \<Longrightarrow> set (AList.update k v al) = insert (k, v) (set al)"
  by (induction al) auto

lemma length_alist_update_fresh:
  "k \<notin> fst ` set al \<Longrightarrow> length (AList.update k v al) = Suc (length al)"
  by (induction al) auto

end
