(* ===== verification/Price_Map.thy ===== *)
theory Price_Map
  imports Hft_Prelude
begin

text \<open>
  \<open>std::map<Price, Level, Cmp>\<close> as \<open>src/mvp/src/order_book.h\<close> uses it: an association list in
  the order of the comparator.  \<open>bids_\<close> is ordered by \<open>std::greater\<close> and \<open>asks_\<close> by
  \<open>std::less\<close>, so \<open>begin()\<close> is the best level of either.  The laws of the operations are proved
  once, in the locale \<open>price_map\<close>, for any strict linear comparator, and interpreted for the
  comparators of both sides.
\<close>

section \<open>Operations of the ordered map\<close>

fun omap_find :: "('k \<Rightarrow> 'k \<Rightarrow> bool) \<Rightarrow> 'k \<Rightarrow> ('k \<times> 'v) list \<Rightarrow> 'v option" where
  "omap_find lt k [] = None"
| "omap_find lt k ((k', v) # m) =
     (if lt k' k then omap_find lt k m else if lt k k' then None else Some v)"

text \<open>Assignment through a reference to the element of key \<open>k\<close>, which \<open>operator[]\<close> has inserted
  where it was missing.\<close>

fun omap_put :: "('k \<Rightarrow> 'k \<Rightarrow> bool) \<Rightarrow> 'k \<Rightarrow> 'v \<Rightarrow> ('k \<times> 'v) list \<Rightarrow> ('k \<times> 'v) list" where
  "omap_put lt k v [] = [(k, v)]"
| "omap_put lt k v ((k', v') # m) =
     (if lt k' k then (k', v') # omap_put lt k v m
      else if lt k k' then (k, v) # (k', v') # m else (k, v) # m)"

fun omap_erase :: "('k \<Rightarrow> 'k \<Rightarrow> bool) \<Rightarrow> 'k \<Rightarrow> ('k \<times> 'v) list \<Rightarrow> ('k \<times> 'v) list" where
  "omap_erase lt k [] = []"
| "omap_erase lt k ((k', v') # m) =
     (if lt k' k then (k', v') # omap_erase lt k m
      else if lt k k' then (k', v') # m else m)"

section \<open>Laws for a strict linear comparator\<close>

locale price_map =
  fixes lt :: "'k \<Rightarrow> 'k \<Rightarrow> bool"
  assumes irrefl: "\<not> lt k k"
    and trans: "lt a b \<Longrightarrow> lt b c \<Longrightarrow> lt a c"
    and total: "a \<noteq> b \<Longrightarrow> lt a b \<or> lt b a"
begin

lemma asym: "lt a b \<Longrightarrow> \<not> lt b a"
  using irrefl trans by blast

lemma find_hit:
  assumes "\<forall>x \<in> fst ` set m1. lt x k"
  shows "omap_find lt k (m1 @ (k, v) # m2) = Some v"
  using assms by (induction m1) (auto simp: irrefl)

lemma find_miss:
  assumes "\<forall>x \<in> fst ` set m1. lt x k" and "\<forall>x \<in> fst ` set m2. lt k x"
  shows "omap_find lt k (m1 @ m2) = None"
  using assms
proof (induction m1)
  case Nil
  then show ?case using asym by (cases m2) auto
next
  case (Cons y ys)
  then show ?case by (cases y) auto
qed

lemma put_hit:
  assumes "\<forall>x \<in> fst ` set m1. lt x k"
  shows "omap_put lt k v (m1 @ (k, w) # m2) = m1 @ (k, v) # m2"
  using assms by (induction m1) (auto simp: irrefl)

lemma put_miss:
  assumes "\<forall>x \<in> fst ` set m1. lt x k" and "\<forall>x \<in> fst ` set m2. lt k x"
  shows "omap_put lt k v (m1 @ m2) = m1 @ (k, v) # m2"
  using assms
proof (induction m1)
  case Nil
  then show ?case using asym by (cases m2) auto
next
  case (Cons y ys)
  then show ?case by (cases y) auto
qed

lemma erase_hit:
  assumes "\<forall>x \<in> fst ` set m1. lt x k"
  shows "omap_erase lt k (m1 @ (k, w) # m2) = m1 @ m2"
  using assms by (induction m1) (auto simp: irrefl)

text \<open>A sorted map splits at any key: the entries before it, its own entry if any, the rest.\<close>

lemma split_at:
  assumes "sorted_wrt lt (map fst m)"
  obtains m1 m2 where "m = m1 @ m2" "\<forall>x \<in> fst ` set m1. lt x k" "\<forall>x \<in> fst ` set m2. lt k x"
  | m1 v m2 where "m = m1 @ (k, v) # m2" "\<forall>x \<in> fst ` set m1. lt x k"
      "\<forall>x \<in> fst ` set m2. lt k x"
proof -
  define m1 where "m1 = takeWhile (\<lambda>e. lt (fst e) k) m"
  define r where "r = dropWhile (\<lambda>e. lt (fst e) k) m"
  have m: "m = m1 @ r"
    by (simp add: m1_def r_def)
  have before: "\<forall>x \<in> fst ` set m1. lt x k"
    by (auto simp: m1_def dest: set_takeWhileD)
  show ?thesis
  proof (cases r)
    case Nil
    then show ?thesis using that(1) [of m1 "[]"] m before by simp
  next
    case (Cons e m2)
    have ne: "\<not> lt (fst e) k"
      using Cons hd_dropWhile [of "\<lambda>e. lt (fst e) k" m] by (simp add: r_def)
    have after: "\<forall>x \<in> fst ` set m2. lt (fst e) x"
      using assms m Cons by (auto simp: sorted_wrt_append)
    show ?thesis
    proof (cases "fst e = k")
      case True
      then show ?thesis using that(2) [of m1 "snd e" m2] m Cons before after by auto
    next
      case False
      then have "lt k (fst e)" using ne total by blast
      then show ?thesis using that(1) [of m1 r] m Cons before after trans by auto
    qed
  qed
qed

lemma find_eq_map_of:
  assumes "sorted_wrt lt (map fst m)"
  shows "omap_find lt k m = map_of m k"
  using assms
proof (cases rule: split_at [of m k])
  case (1 m1 m2)
  then show ?thesis
    using find_miss irrefl
    by (metis (no_types, lifting) Un_iff image_Un map_of_eq_None_iff set_append)
next
  case (2 m1 v m2)
  then have "map_of m1 k = None"
    using irrefl by (metis map_of_eq_None_iff)
  with 2 show ?thesis
    by (simp add: find_hit map_add_def)
qed

end

section \<open>The comparators of the two sides\<close>

text \<open>\<open>std::greater<Price>\<close> for the bids, \<open>std::less<Price>\<close> for the asks.\<close>

fun before :: "side \<Rightarrow> price \<Rightarrow> price \<Rightarrow> bool" where
  "before Buy p q \<longleftrightarrow> p > q"
| "before Sell p q \<longleftrightarrow> p < q"

interpretation pm: price_map "before s" for s
  by unfold_locales (cases s; auto)+

text \<open>The rank of a price: smaller is better, for either side.\<close>

fun rank :: "side \<Rightarrow> price \<Rightarrow> int" where
  "rank Buy p = - p"
| "rank Sell p = p"

lemma before_rank: "before s p q \<longleftrightarrow> rank s p < rank s q"
  by (cases s) auto

lemma rank_inject [simp]: "rank s p = rank s q \<longleftrightarrow> p = q"
  by (cases s) auto

end
