(* ===== verification/Object_Pool.thy ===== *)
theory Object_Pool
  imports Hft_Prelude
begin

text \<open>
  The slab allocator of \<open>src/mvp/src/pool.h\<close> (\<open>ObjectPool<T>\<close>).  An address is the index of a
  slot in the slab; \<open>nullptr\<close> is \<^term>\<open>None\<close>.  The theory holds the pool's state and operations,
  its invariant (the intrusive free list and the live slots partition the slab), and the locale
  \<open>slab\<close>: the contract that the order book relies on, interpreted on the pool.
\<close>

section \<open>State and operations\<close>

type_synonym addr = nat

text \<open>
  \<open>union Slot\<close>: the bytes hold either the free-list link or an object.  Reading an object out of a
  slot that holds a link, or a link out of a slot that holds an object, is undefined behaviour and
  is the result \<^term>\<open>None\<close>.
\<close>

datatype 'a slot = FreeSlot "addr option" | LiveSlot 'a

record 'a object_pool =
  capacity :: nat
  storage :: "addr \<Rightarrow> 'a slot"
  free_head :: "addr option"
  in_use :: nat

text \<open>
  The constructor threads every slot into the free list, from the last to the first.  The slots
  outside the slab are never addressed.
\<close>

primrec thread_slots :: "nat \<Rightarrow> 'a object_pool \<Rightarrow> 'a object_pool" where
  "thread_slots 0 p = p"
| "thread_slots (Suc i) p =
     thread_slots i (p\<lparr>storage := (storage p)(i := FreeSlot (free_head p)), free_head := Some i\<rparr>)"

definition pool_init :: "nat \<Rightarrow> 'a object_pool" where
  "pool_init cap =
     thread_slots cap \<lparr>capacity = cap, storage = (\<lambda>_. FreeSlot None), free_head = None, in_use = 0\<rparr>"

definition acquire :: "'a object_pool \<Rightarrow> (addr option \<times> 'a object_pool) option" where
  "acquire p =
     (case free_head p of
        None \<Rightarrow> Some (None, p)
      | Some s \<Rightarrow>
          (case storage p s of
             FreeSlot nxt \<Rightarrow> Some (Some s, p\<lparr>free_head := nxt, in_use := u64 (int (in_use p) + 1)\<rparr>)
           | LiveSlot _ \<Rightarrow> None))"

definition release :: "addr \<Rightarrow> 'a object_pool \<Rightarrow> 'a object_pool" where
  "release a p =
     p\<lparr>storage := (storage p)(a := FreeSlot (free_head p)), free_head := Some a,
       in_use := u64 (int (in_use p) - 1)\<rparr>"

definition free_count :: "'a object_pool \<Rightarrow> nat" where
  "free_count p = u64 (int (capacity p) - int (in_use p))"

text \<open>Access through a \<open>T*\<close>: a read of the object, and placement new or assignment.\<close>

definition pool_read :: "'a object_pool \<Rightarrow> addr \<Rightarrow> 'a option" where
  "pool_read p a = (case storage p a of LiveSlot x \<Rightarrow> Some x | FreeSlot _ \<Rightarrow> None)"

definition pool_write :: "addr \<Rightarrow> 'a \<Rightarrow> 'a object_pool \<Rightarrow> 'a object_pool" where
  "pool_write a x p = p\<lparr>storage := (storage p)(a := LiveSlot x)\<rparr>"

section \<open>The allocator contract\<close>

text \<open>
  What a client of the pool relies on: \<open>read\<close> is the heap of live objects and \<open>room\<close> the number
  of objects that can still be allocated.  An allocation either reports exhaustion and changes
  nothing or hands out an address that is not live and becomes live when an object is constructed
  there.
\<close>

locale slab =
  fixes alloc :: "'p \<Rightarrow> (addr option \<times> 'p) option"
    and put :: "addr \<Rightarrow> 'a \<Rightarrow> 'p \<Rightarrow> 'p"
    and dealloc :: "addr \<Rightarrow> 'p \<Rightarrow> 'p"
    and read :: "'p \<Rightarrow> addr \<Rightarrow> 'a option"
    and room :: "'p \<Rightarrow> nat"
    and ok :: "'p \<Rightarrow> bool"
  assumes alloc_full: "ok p \<Longrightarrow> room p = 0 \<Longrightarrow> alloc p = Some (None, p)"
    and alloc_room: "ok p \<Longrightarrow> 0 < room p \<Longrightarrow>
      \<exists>a p'. alloc p = Some (Some a, p') \<and> read p a = None \<and>
        (\<forall>x. ok (put a x p') \<and> read (put a x p') = (read p)(a \<mapsto> x) \<and>
             room (put a x p') = room p - 1)"
    and put_live: "ok p \<Longrightarrow> read p a = Some y \<Longrightarrow>
      ok (put a x p) \<and> read (put a x p) = (read p)(a \<mapsto> x) \<and> room (put a x p) = room p"
    and dealloc_live: "ok p \<Longrightarrow> read p a = Some y \<Longrightarrow>
      ok (dealloc a p) \<and> read (dealloc a p) = (read p)(a := None) \<and>
      room (dealloc a p) = Suc (room p)"
begin

text \<open>Allocation, construction and release of the same object restore the heap and the room.\<close>

lemma alloc_dealloc:
  assumes "ok p" and "0 < room p"
  shows "\<exists>a p'. alloc p = Some (Some a, p') \<and> ok (dealloc a (put a x p')) \<and>
     read (dealloc a (put a x p')) = read p \<and> room (dealloc a (put a x p')) = room p"
proof -
  obtain a p' where a: "alloc p = Some (Some a, p')" and fresh: "read p a = None"
    and new: "ok (put a x p')" "read (put a x p') = (read p)(a \<mapsto> x)"
      "room (put a x p') = room p - 1"
    using alloc_room [OF assms] by blast
  have "read (put a x p') a = Some x"
    by (simp add: new)
  from dealloc_live [OF new(1) this] show ?thesis
    using a fresh new assms(2) by (auto simp: fun_upd_idem)
qed

text \<open>Releasing a list of distinct live objects, as a destructor does.\<close>

lemma dealloc_list:
  assumes "ok p" and "distinct as" and "set as \<subseteq> dom (read p)"
  shows "ok (fold dealloc as p) \<and> read (fold dealloc as p) = (read p) |` (- set as) \<and>
     room (fold dealloc as p) = room p + length as"
  using assms
proof (induction as arbitrary: p)
  case Nil
  then show ?case by (simp add: restrict_map_def)
next
  case (Cons a as)
  then obtain y where "read p a = Some y" by auto
  note d = dealloc_live [OF Cons.prems(1) this]
  have "set as \<subseteq> dom (read (dealloc a p))"
    using Cons.prems d by auto
  then have "ok (fold dealloc as (dealloc a p)) \<and>
     read (fold dealloc as (dealloc a p)) = read (dealloc a p) |` (- set as) \<and>
     room (fold dealloc as (dealloc a p)) = room (dealloc a p) + length as"
    using Cons.IH Cons.prems(2) d by (metis distinct.simps(2))
  moreover have "(read p)(a := None) |` (- set as) = read p |` (- set (a # as))"
    by (auto simp: restrict_map_def)
  ultimately show ?case
    using d by simp
qed

end

section \<open>The pool invariant\<close>

primrec chain :: "(addr \<Rightarrow> 'a slot) \<Rightarrow> addr option \<Rightarrow> addr list \<Rightarrow> bool" where
  "chain st h [] \<longleftrightarrow> h = None"
| "chain st h (a # as) \<longleftrightarrow> h = Some a \<and> (\<exists>n. st a = FreeSlot n \<and> chain st n as)"

definition free_list_ok :: "'a object_pool \<Rightarrow> addr list \<Rightarrow> bool" where
  "free_list_ok p fl \<longleftrightarrow>
     chain (storage p) (free_head p) fl \<and> distinct fl \<and> capacity p < 2 ^ 64 \<and>
     dom (pool_read p) \<subseteq> {..<capacity p} \<and> set fl = {..<capacity p} - dom (pool_read p) \<and>
     in_use p + length fl = capacity p"

definition pool_ok :: "'a object_pool \<Rightarrow> bool" where
  "pool_ok p \<longleftrightarrow> (\<exists>fl. free_list_ok p fl)"

definition pool_room :: "'a object_pool \<Rightarrow> nat" where
  "pool_room p = capacity p - in_use p"

lemma capacity_kept [simp]:
  "capacity (pool_write a x p) = capacity p" "capacity (release a p) = capacity p"
  by (simp_all add: pool_write_def release_def)

lemma acquire_capacity: "acquire p = Some (r, p') \<Longrightarrow> capacity p' = capacity p"
  by (auto simp: acquire_def split: option.splits slot.splits)

lemma pool_read_write [simp]: "pool_read (pool_write a x p) = (pool_read p)(a \<mapsto> x)"
  by (auto simp: pool_read_def pool_write_def)

lemma pool_read_release [simp]: "pool_read (release a p) = (pool_read p)(a := None)"
  by (auto simp: pool_read_def release_def)

lemma pool_read_FreeSlot: "storage p a = FreeSlot n \<Longrightarrow> pool_read p a = None"
  by (simp add: pool_read_def)

lemma chain_upd [simp]: "a \<notin> set as \<Longrightarrow> chain (st(a := s)) h as = chain st h as"
  by (induction as arbitrary: h) auto

lemma pool_room_eq: "free_list_ok p fl \<Longrightarrow> pool_room p = length fl"
  by (auto simp: free_list_ok_def pool_room_def)

lemma pool_acquire_full: "pool_ok p \<Longrightarrow> pool_room p = 0 \<Longrightarrow> acquire p = Some (None, p)"
  by (auto simp: pool_ok_def acquire_def free_list_ok_def pool_room_eq)

lemma pool_acquire_room:
  assumes "pool_ok p" and "0 < pool_room p"
  shows "\<exists>a p'. acquire p = Some (Some a, p') \<and> pool_read p a = None \<and>
     (\<forall>x. pool_ok (pool_write a x p') \<and> pool_read (pool_write a x p') = (pool_read p)(a \<mapsto> x) \<and>
          pool_room (pool_write a x p') = pool_room p - 1)"
proof -
  obtain fl where fl: "free_list_ok p fl"
    using assms(1) by (auto simp: pool_ok_def)
  then obtain a as where as: "fl = a # as"
    using assms(2) pool_room_eq [OF fl] by (cases fl) auto
  obtain n where st: "storage p a = FreeSlot n" and hd: "free_head p = Some a"
    and ch: "chain (storage p) n as"
    using fl as by (auto simp: free_list_ok_def)
  define p' where "p' = p\<lparr>free_head := n, in_use := u64 (int (in_use p) + 1)\<rparr>"
  have u: "u64 (int (in_use p) + 1) = in_use p + 1"
    using fl as by (auto simp: free_list_ok_def u64_def)
  have rd: "pool_read p' = pool_read p"
    by (simp add: p'_def pool_read_def fun_eq_iff)
  have "free_list_ok (pool_write a x p') as" for x
  proof -
    have "a \<notin> set as" and "a < capacity p"
      using fl as by (auto simp: free_list_ok_def)
    moreover have "dom (pool_read (pool_write a x p')) = insert a (dom (pool_read p))"
      by (simp add: rd)
    ultimately show ?thesis
      using fl as ch u by (auto simp: free_list_ok_def p'_def pool_write_def)
  qed
  then have "\<forall>x. pool_ok (pool_write a x p') \<and> pool_room (pool_write a x p') = pool_room p - 1"
    using pool_room_eq fl as by (fastforce simp: pool_ok_def)
  moreover have "acquire p = Some (Some a, p')"
    by (simp add: acquire_def hd st p'_def)
  ultimately show ?thesis
    using st by (auto simp: rd pool_read_FreeSlot)
qed

lemma pool_write_live:
  assumes "pool_ok p" and "pool_read p a = Some y"
  shows "pool_ok (pool_write a x p) \<and> pool_room (pool_write a x p) = pool_room p"
proof -
  obtain fl where fl: "free_list_ok p fl"
    using assms(1) by (auto simp: pool_ok_def)
  have dom: "dom (pool_read (pool_write a x p)) = dom (pool_read p)"
    using assms(2) by auto
  have "a \<notin> set fl"
    using assms(2) fl by (auto simp: free_list_ok_def)
  then have "free_list_ok (pool_write a x p) fl"
    using fl dom by (simp add: free_list_ok_def) (simp add: pool_write_def)
  then show ?thesis
    by (auto simp: pool_ok_def pool_room_def pool_write_def)
qed

lemma pool_release_live:
  assumes "pool_ok p" and "pool_read p a = Some y"
  shows "pool_ok (release a p) \<and> pool_room (release a p) = Suc (pool_room p)"
proof -
  obtain fl where fl: "free_list_ok p fl"
    using assms(1) by (auto simp: pool_ok_def)
  have a: "a \<notin> set fl" "a < capacity p"
    using assms(2) fl by (auto simp: free_list_ok_def)
  have "set fl \<subset> {..<capacity p}" "distinct fl"
    using a fl by (auto simp: free_list_ok_def)
  then have "length fl < capacity p"
    using psubset_card_mono [of "{..<capacity p}" "set fl"] by (simp add: distinct_card)
  then have u: "u64 (int (in_use p) - 1) = in_use p - 1" and pos: "0 < in_use p"
    using fl by (auto simp: free_list_ok_def u64_def)
  have dom: "dom (pool_read (release a p)) = dom (pool_read p) - {a}"
    by auto
  have "free_list_ok (release a p) (a # fl)"
    unfolding free_list_ok_def dom using fl a pos
    by (auto simp: free_list_ok_def release_def u [simplified])
  then show ?thesis
    using pool_room_eq [OF fl] pool_room_eq by (force simp: pool_ok_def)
qed

interpretation op: slab acquire pool_write release pool_read pool_room pool_ok
proof unfold_locales
  fix p :: "'a object_pool"
  assume "pool_ok p" and "pool_room p = 0"
  then show "acquire p = Some (None, p)" by (rule pool_acquire_full)
next
  fix p :: "'a object_pool"
  assume "pool_ok p" and "0 < pool_room p"
  then show "\<exists>a p'. acquire p = Some (Some a, p') \<and> pool_read p a = None \<and>
     (\<forall>x. pool_ok (pool_write a x p') \<and> pool_read (pool_write a x p') = (pool_read p)(a \<mapsto> x) \<and>
          pool_room (pool_write a x p') = pool_room p - 1)"
    by (rule pool_acquire_room)
qed (simp_all add: pool_write_live pool_release_live)

section \<open>The constructor\<close>

lemma thread_slots_frame [simp]:
  "capacity (thread_slots i p) = capacity p" "in_use (thread_slots i p) = in_use p"
  by (induction i arbitrary: p) simp_all

lemma thread_slots_chain:
  assumes "chain (storage p) (free_head p) [i..<n]" and "i \<le> n"
  shows "chain (storage (thread_slots i p)) (free_head (thread_slots i p)) [0..<n]"
  using assms
proof (induction i arbitrary: p)
  case 0
  then show ?case by simp
next
  case (Suc i)
  then have "[i..<n] = i # [Suc i..<n]"
    by (simp add: upt_conv_Cons)
  with Suc show ?case by simp
qed

lemma thread_slots_read:
  "pool_read p = Map.empty \<Longrightarrow> pool_read (thread_slots i p) = Map.empty"
proof (induction i arbitrary: p)
  case (Suc i)
  then show ?case by (auto simp: pool_read_def fun_eq_iff)
qed simp

lemma pool_init_fields [simp]:
  "capacity (pool_init cap) = cap" "in_use (pool_init cap) = 0"
  "pool_read (pool_init cap) = Map.empty" "pool_room (pool_init cap) = cap"
  by (simp_all add: pool_init_def pool_room_def thread_slots_read pool_read_def fun_eq_iff)

lemma pool_init_ok:
  assumes "cap < 2 ^ 64"
  shows "pool_ok (pool_init cap :: 'a object_pool)"
proof -
  let ?p = "pool_init cap :: 'a object_pool"
  have "chain (storage ?p) (free_head ?p) [0..<cap]"
    unfolding pool_init_def by (rule thread_slots_chain) simp_all
  then have "free_list_ok ?p [0..<cap]"
    using assms by (auto simp: free_list_ok_def)
  then show ?thesis by (auto simp: pool_ok_def)
qed

lemma pool_in_use_card:
  assumes "pool_ok p"
  shows "in_use p = card (dom (pool_read p))" and "in_use p \<le> capacity p"
    and "free_count p = capacity p - in_use p"
proof -
  obtain fl where fl: "free_list_ok p fl"
    using assms by (auto simp: pool_ok_def)
  have "finite (dom (pool_read p))"
    using fl finite_subset by (auto simp: free_list_ok_def)
  moreover have "length fl = card ({..<capacity p} - dom (pool_read p))"
    using fl by (auto simp: free_list_ok_def distinct_card [symmetric])
  ultimately have "length fl = capacity p - card (dom (pool_read p))"
    using fl by (simp add: free_list_ok_def card_Diff_subset)
  moreover have "card (dom (pool_read p)) \<le> capacity p"
    using fl card_mono [of "{..<capacity p}"] by (fastforce simp: free_list_ok_def)
  ultimately show "in_use p = card (dom (pool_read p))"
    using fl by (auto simp: free_list_ok_def)
  show "in_use p \<le> capacity p" and "free_count p = capacity p - in_use p"
    using fl by (auto simp: free_list_ok_def free_count_def u64_def)
qed

end
