(* ===== verification/Level_List.thy ===== *)
theory Level_List
  imports Object_Pool
begin

text \<open>
  The price level of \<open>src/mvp/src/order_book.h\<close> and \<open>order_book.cpp\<close>: an intrusive doubly linked
  list of \<open>OrderNode\<close>s that live in the pool.  The operations run in the option monad: \<^term>\<open>None\<close>
  is an access to a node that is not live.
\<close>

section \<open>Nodes and levels\<close>

text \<open>\<open>OrderNode\<close> is the order's data and the two intrusive links.\<close>

record order =
  oid :: order_id
  oside :: side
  oprice :: price
  oqty :: quantity
  ots :: timestamp

record order_node = order +
  node_prev :: "addr option"
  node_next :: "addr option"

record level =
  lhead :: "addr option"
  ltail :: "addr option"

type_synonym node_pool = "order_node object_pool"

definition empty_level :: level where
  "empty_level = \<lparr>lhead = None, ltail = None\<rparr>"

definition level_empty :: "level \<Rightarrow> bool" where
  "level_empty l \<longleftrightarrow> lhead l = None"

definition set_prev :: "addr \<Rightarrow> addr option \<Rightarrow> node_pool \<Rightarrow> node_pool option" where
  "set_prev a v p = do { n \<leftarrow> pool_read p a; Some (pool_write a (n\<lparr>node_prev := v\<rparr>) p) }"

definition set_next :: "addr \<Rightarrow> addr option \<Rightarrow> node_pool \<Rightarrow> node_pool option" where
  "set_next a v p = do { n \<leftarrow> pool_read p a; Some (pool_write a (n\<lparr>node_next := v\<rparr>) p) }"

definition level_push_back :: "level \<Rightarrow> addr \<Rightarrow> node_pool \<Rightarrow> (level \<times> node_pool) option" where
  "level_push_back l n p = do {
     p1 \<leftarrow> set_prev n (ltail l) p;
     p2 \<leftarrow> set_next n None p1;
     (l', p3) \<leftarrow> (case ltail l of
        Some t \<Rightarrow> do { q \<leftarrow> set_next t (Some n) p2; Some (l, q) }
      | None \<Rightarrow> Some (l\<lparr>lhead := Some n\<rparr>, p2));
     Some (l'\<lparr>ltail := Some n\<rparr>, p3) }"

definition level_unlink :: "level \<Rightarrow> addr \<Rightarrow> node_pool \<Rightarrow> (level \<times> node_pool) option" where
  "level_unlink l n p = do {
     nd \<leftarrow> pool_read p n;
     (l1, p1) \<leftarrow> (case node_prev nd of
        Some b \<Rightarrow> do { q \<leftarrow> set_next b (node_next nd) p; Some (l, q) }
      | None \<Rightarrow> Some (l\<lparr>lhead := node_next nd\<rparr>, p));
     nd1 \<leftarrow> pool_read p1 n;
     (l2, p2) \<leftarrow> (case node_next nd1 of
        Some c \<Rightarrow> do { q \<leftarrow> set_prev c (node_prev nd1) p1; Some (l1, q) }
      | None \<Rightarrow> Some (l1\<lparr>ltail := node_prev nd1\<rparr>, p1));
     p3 \<leftarrow> set_next n None p2;
     p4 \<leftarrow> set_prev n None p3;
     Some (l2, p4) }"

section \<open>Lists in the heap\<close>

type_synonym heap = "addr \<Rightarrow> order_node option"

text \<open>
  \<open>dll h p as q\<close>: the nodes \<open>as\<close> are linked in both directions, the first node's predecessor is
  \<open>p\<close> and the last node's successor is \<open>q\<close>.
\<close>

primrec dll :: "heap \<Rightarrow> addr option \<Rightarrow> addr list \<Rightarrow> addr option \<Rightarrow> bool" where
  "dll h p [] q \<longleftrightarrow> True"
| "dll h p (a # as) q \<longleftrightarrow>
     (\<exists>n. h a = Some n \<and> node_prev n = p \<and> node_next n = (if as = [] then q else hd_opt as)) \<and>
     dll h (Some a) as q"

definition level_ok :: "heap \<Rightarrow> level \<Rightarrow> addr list \<Rightarrow> bool" where
  "level_ok h l as \<longleftrightarrow>
     lhead l = hd_opt as \<and> ltail l = last_opt as \<and> dll h None as None \<and> distinct as"

text \<open>The order data of a node, without its links.\<close>

definition order_at :: "heap \<Rightarrow> addr \<Rightarrow> order option" where
  "order_at h a = map_option order.truncate (h a)"

lemma dll_upd [simp]: "a \<notin> set as \<Longrightarrow> dll (h(a := v)) p as q = dll h p as q"
  by (induction as arbitrary: p) auto

lemma dll_cong: "(\<And>a. a \<in> set as \<Longrightarrow> h a = h' a) \<Longrightarrow> dll h p as q = dll h' p as q"
  by (induction as arbitrary: p) auto

lemma dll_append:
  "dll h p (as @ bs) q \<longleftrightarrow>
     dll h p as (if bs = [] then q else hd_opt bs) \<and>
     dll h (if as = [] then p else last_opt as) bs q"
  by (induction as arbitrary: p) (auto simp: last_opt_Cons)

lemma dll_live: "dll h p as q \<Longrightarrow> a \<in> set as \<Longrightarrow> \<exists>n. h a = Some n"
  by (induction as arbitrary: p) auto

lemma level_ok_cong:
  "(\<And>a. a \<in> set as \<Longrightarrow> h a = h' a) \<Longrightarrow> level_ok h l as = level_ok h' l as"
  by (simp add: level_ok_def dll_cong [of as h h'])

lemma level_ok_live: "level_ok h l as \<Longrightarrow> a \<in> set as \<Longrightarrow> \<exists>n. h a = Some n"
  by (auto simp: level_ok_def dest: dll_live)

lemma level_ok_Nil: "level_ok h empty_level []"
  by (simp add: level_ok_def empty_level_def)

lemma level_empty_iff: "level_ok h l as \<Longrightarrow> level_empty l \<longleftrightarrow> as = []"
  by (auto simp: level_ok_def level_empty_def)

text \<open>A change of the data of one node, its links kept, keeps every list.\<close>

lemma dll_upd_data:
  assumes "h a = Some n" "node_prev n' = node_prev n" "node_next n' = node_next n"
  shows "dll (h(a \<mapsto> n')) p as q = dll h p as q"
  using assms by (induction as arbitrary: p) auto

lemma level_ok_upd_data:
  assumes "h a = Some n" "node_prev n' = node_prev n" "node_next n' = node_next n"
  shows "level_ok (h(a \<mapsto> n')) l as = level_ok h l as"
  using dll_upd_data [of h a n n'] assms by (simp add: level_ok_def)

section \<open>The operations on a list in the heap\<close>

lemma truncate_links [simp]:
  "order.truncate (n\<lparr>node_prev := p\<rparr>) = order.truncate n"
  "order.truncate (n\<lparr>node_next := p\<rparr>) = order.truncate n"
  by (simp_all add: order.truncate_def)

lemma order_at_upd [simp]:
  "order_at (h(a \<mapsto> n)) = (order_at h)(a \<mapsto> order.truncate n)"
  "order_at (h(a := None)) = (order_at h)(a := None)"
  by (auto simp: order_at_def)

text \<open>
  What a list operation promises of the pool: it stays well formed, no slot is allocated or
  released, no order's data changes, and only the nodes in \<open>A\<close> are touched.
\<close>

definition links_only :: "addr set \<Rightarrow> node_pool \<Rightarrow> node_pool \<Rightarrow> bool" where
  "links_only A p p' \<longleftrightarrow>
     pool_ok p' \<and> pool_room p' = pool_room p \<and> capacity p' = capacity p \<and>
     order_at (pool_read p') = order_at (pool_read p) \<and>
     (\<forall>a. a \<notin> A \<longrightarrow> pool_read p' a = pool_read p a)"

lemma links_only_refl: "pool_ok p \<Longrightarrow> links_only A p p"
  by (simp add: links_only_def)

lemma links_only_trans:
  "links_only A p p' \<Longrightarrow> links_only A p' p'' \<Longrightarrow> links_only A p p''"
  by (auto simp: links_only_def)

lemma links_only_write:
  assumes "pool_ok p" "pool_read p a = Some n" "a \<in> A" "order.truncate n' = order.truncate n"
  shows "links_only A p (pool_write a n' p)"
proof -
  have "(order_at (pool_read p))(a \<mapsto> order.truncate n) = order_at (pool_read p)"
    using assms(2) by (simp add: order_at_def fun_upd_idem)
  then show ?thesis
    using assms op.put_live [OF assms(1,2)] by (auto simp: links_only_def)
qed

lemma dom_order_at [simp]: "dom (order_at h) = dom h"
  by (auto simp: order_at_def)

lemma links_only_dom: "links_only A p p' \<Longrightarrow> dom (pool_read p') = dom (pool_read p)"
  unfolding links_only_def by (metis dom_order_at)

lemma set_prev_live:
  assumes "pool_ok p" "pool_read p a = Some n" "a \<in> A"
  shows "set_prev a v p = Some (pool_write a (n\<lparr>node_prev := v\<rparr>) p)"
    and "links_only A p (pool_write a (n\<lparr>node_prev := v\<rparr>) p)"
  using assms by (auto simp: set_prev_def intro: links_only_write)

lemma set_next_live:
  assumes "pool_ok p" "pool_read p a = Some n" "a \<in> A"
  shows "set_next a v p = Some (pool_write a (n\<lparr>node_next := v\<rparr>) p)"
    and "links_only A p (pool_write a (n\<lparr>node_next := v\<rparr>) p)"
  using assms by (auto simp: set_next_def intro: links_only_write)

lemma links_only_ok: "links_only A p p' \<Longrightarrow> pool_ok p'"
  by (simp add: links_only_def)

lemma level_push_back_ok:
  assumes ok: "pool_ok p" and lv: "level_ok (pool_read p) l as"
    and a: "pool_read p a = Some n" and fresh: "a \<notin> set as"
  obtains l' p' where "level_push_back l a p = Some (l', p')"
    "links_only (insert a (set as)) p p'" "level_ok (pool_read p') l' (as @ [a])"
proof -
  let ?A = "insert a (set as)"
  define p1 where "p1 = pool_write a (n\<lparr>node_prev := ltail l\<rparr>) p"
  define p2 where "p2 = pool_write a (n\<lparr>node_prev := ltail l, node_next := None\<rparr>) p1"
  note s1 = set_prev_live [OF ok a, of ?A "ltail l", folded p1_def]
  have a1: "pool_read p1 a = Some (n\<lparr>node_prev := ltail l\<rparr>)"
    by (simp add: p1_def)
  note s2 = set_next_live [OF links_only_ok [OF s1(2)] a1, of ?A None]
  have step: "set_next a None p1 = Some p2" and l2: "links_only ?A p p2"
    using s2 links_only_trans [OF s1(2)] by (auto simp: p2_def)
  have h2: "pool_read p2 = (pool_read p)(a \<mapsto> n\<lparr>node_prev := ltail l, node_next := None\<rparr>)"
    by (simp add: p2_def p1_def)
  show ?thesis
  proof (cases as rule: rev_cases)
    case Nil
    then show ?thesis
      using that [of "l\<lparr>lhead := Some a, ltail := Some a\<rparr>" p2] lv s1(1) step l2 h2
      by (simp add: level_push_back_def level_ok_def)
  next
    case (snoc bs t)
    then have tl: "ltail l = Some t" and ta: "t \<noteq> a" and bt: "t \<notin> set bs" "a \<notin> set bs"
      using lv fresh by (auto simp: level_ok_def)
    obtain nt where nt: "pool_read p t = Some nt"
      using level_ok_live [OF lv, of t] snoc by auto
    then have t2: "pool_read p2 t = Some nt"
      using ta h2 by simp
    note s3 = set_next_live [OF links_only_ok [OF l2] t2, of ?A "Some a"]
    let ?p3 = "pool_write t (nt\<lparr>node_next := Some a\<rparr>) p2"
    have l3: "links_only ?A p ?p3"
      using s3(2) snoc links_only_trans [OF l2] by auto
    have "dll (pool_read p) None (bs @ [t]) None"
      using lv snoc by (simp add: level_ok_def)
    then have "dll (pool_read ?p3) None (bs @ [t, a]) None"
      using ta bt nt tl by (auto simp: h2 dll_append)
    then have "level_ok (pool_read ?p3) (l\<lparr>ltail := Some a\<rparr>) (as @ [a])"
      using lv fresh snoc by (simp add: level_ok_def last_opt_Cons)
    moreover have "level_push_back l a p = Some (l\<lparr>ltail := Some a\<rparr>, ?p3)"
      using s1(1) step s3(1) snoc by (simp add: level_push_back_def tl)
    ultimately show ?thesis
      using that l3 by blast
  qed
qed

text \<open>Unlinking first redirects the predecessor (or the head), then the successor (or the tail).\<close>

lemma dll_set_last_next:
  assumes "dll h p (bs @ [b]) q" "b \<notin> set bs" "h b = Some nb"
  shows "dll (h(b \<mapsto> nb\<lparr>node_next := q'\<rparr>)) p (bs @ [b]) q'"
  using assms by (auto simp: dll_append)

lemma dll_set_first_prev:
  assumes "dll h p (c # cs) q" "c \<notin> set cs" "h c = Some nc"
  shows "dll (h(c \<mapsto> nc\<lparr>node_prev := p'\<rparr>)) p' (c # cs) q"
  using assms by auto

lemma redirect_prev:
  assumes ok: "pool_ok p" and lv: "level_ok (pool_read p) l (xs @ a # ys)"
    and a: "pool_read p a = Some nd"
  obtains l1 p1 where
    "(case node_prev nd of
        Some b \<Rightarrow> do { q \<leftarrow> set_next b (node_next nd) p; Some (l, q) }
      | None \<Rightarrow> Some (l\<lparr>lhead := node_next nd\<rparr>, p)) = Some (l1, p1)"
    "links_only (set (xs @ a # ys)) p p1" "pool_read p1 a = Some nd"
    "lhead l1 = hd_opt (xs @ ys)" "ltail l1 = last_opt (xs @ a # ys)"
    "dll (pool_read p1) None xs (hd_opt ys)" "dll (pool_read p1) (Some a) ys None"
proof (cases xs rule: rev_cases)
  case Nil
  then show ?thesis
    using that [of "l\<lparr>lhead := node_next nd\<rparr>" p] lv a ok
    by (simp add: level_ok_def links_only_refl)
next
  case (snoc bs b)
  have d: "dll (pool_read p) None (bs @ [b]) (Some a)" "dll (pool_read p) (Some a) ys None"
    and nd: "node_prev nd = Some b" "node_next nd = hd_opt ys"
    using lv snoc a by (auto simp: level_ok_def dll_append)
  have dist: "b \<noteq> a" "b \<notin> set bs" "b \<notin> set ys"
    using lv snoc by (auto simp: level_ok_def)
  obtain nb where nb: "pool_read p b = Some nb"
    using level_ok_live [OF lv, of b] snoc by auto
  note s = set_next_live [OF ok nb, of "set (xs @ a # ys)" "node_next nd"]
  show ?thesis
    using that [of l "pool_write b (nb\<lparr>node_next := node_next nd\<rparr>) p"] s lv snoc d nd dist a
      dll_set_last_next [OF d(1) dist(2) nb, of "hd_opt ys"]
    by (simp add: level_ok_def split: if_splits)
qed

lemma redirect_next:
  assumes ok: "pool_ok p" and dist: "distinct (xs @ a # ys)"
    and hd: "lhead l = hd_opt (xs @ ys)" and tl: "ltail l = last_opt (xs @ a # ys)"
    and dx: "dll (pool_read p) None xs (hd_opt ys)" and dy: "dll (pool_read p) (Some a) ys None"
    and nd: "node_prev nd = last_opt xs" "node_next nd = hd_opt ys"
    and a: "pool_read p a = Some nd"
  obtains l2 p2 where
    "(case node_next nd of
        Some c \<Rightarrow> do { q \<leftarrow> set_prev c (node_prev nd) p; Some (l, q) }
      | None \<Rightarrow> Some (l\<lparr>ltail := node_prev nd\<rparr>, p)) = Some (l2, p2)"
    "links_only (set (xs @ a # ys)) p p2" "pool_read p2 a = Some nd"
    "level_ok (pool_read p2) l2 (xs @ ys)"
proof (cases ys)
  case Nil
  then show ?thesis
    using that [of "l\<lparr>ltail := node_prev nd\<rparr>" p] hd dx nd dist a ok
    by (auto simp: level_ok_def intro: links_only_refl)
next
  case (Cons c cs)
  have d: "c \<noteq> a" "c \<notin> set cs" "c \<notin> set xs"
    using dist Cons by auto
  obtain nc where nc: "pool_read p c = Some nc"
    using dll_live [OF dy, of c] Cons by auto
  note s = set_prev_live [OF ok nc, of "set (xs @ a # ys)" "node_prev nd"]
  let ?p2 = "pool_write c (nc\<lparr>node_prev := node_prev nd\<rparr>) p"
  have "dll (pool_read ?p2) (last_opt xs) (c # cs) None"
    using dll_set_first_prev [of "pool_read p" "Some a" c cs None nc "last_opt xs"] dy Cons nd d nc
    by simp
  then have "level_ok (pool_read ?p2) l (xs @ ys)"
    using dx d hd tl dist Cons by (auto simp: level_ok_def dll_append last_opt_Cons)
  then show ?thesis
    using that [of l ?p2] s Cons nd d a by simp
qed

lemma level_unlink_ok:
  assumes ok: "pool_ok p" and lv: "level_ok (pool_read p) l (xs @ a # ys)"
  obtains l' p' where "level_unlink l a p = Some (l', p')"
    "links_only (set (xs @ a # ys)) p p'" "level_ok (pool_read p') l' (xs @ ys)"
proof -
  let ?A = "set (xs @ a # ys)"
  obtain nd where a: "pool_read p a = Some nd"
    using level_ok_live [OF lv, of a] by auto
  have dist: "distinct (xs @ a # ys)"
    using lv by (simp add: level_ok_def)
  have nd: "node_prev nd = last_opt xs" "node_next nd = hd_opt ys"
    using lv a by (auto simp: level_ok_def dll_append split: if_splits)
  obtain l1 p1 where r1:
    "(case node_prev nd of
        Some b \<Rightarrow> do { q \<leftarrow> set_next b (node_next nd) p; Some (l, q) }
      | None \<Rightarrow> Some (l\<lparr>lhead := node_next nd\<rparr>, p)) = Some (l1, p1)"
    and l1: "links_only ?A p p1" and a1: "pool_read p1 a = Some nd"
    and e1: "lhead l1 = hd_opt (xs @ ys)" "ltail l1 = last_opt (xs @ a # ys)"
    "dll (pool_read p1) None xs (hd_opt ys)" "dll (pool_read p1) (Some a) ys None"
    using redirect_prev [OF ok lv a] .
  obtain l2 p2 where r2:
    "(case node_next nd of
        Some c \<Rightarrow> do { q \<leftarrow> set_prev c (node_prev nd) p1; Some (l1, q) }
      | None \<Rightarrow> Some (l1\<lparr>ltail := node_prev nd\<rparr>, p1)) = Some (l2, p2)"
    and l2: "links_only ?A p1 p2" and a2: "pool_read p2 a = Some nd"
    and e2: "level_ok (pool_read p2) l2 (xs @ ys)"
    using redirect_next [OF links_only_ok [OF l1] dist e1 nd a1] .
  define p3 where "p3 = pool_write a (nd\<lparr>node_next := None\<rparr>) p2"
  define p4 where "p4 = pool_write a (nd\<lparr>node_next := None, node_prev := None\<rparr>) p3"
  have s3: "set_next a None p2 = Some p3" "links_only ?A p2 p3"
    using set_next_live [OF links_only_ok [OF l2] a2, of ?A None] by (auto simp: p3_def)
  have "pool_read p3 a = Some (nd\<lparr>node_next := None\<rparr>)"
    by (simp add: p3_def)
  from set_prev_live [OF links_only_ok [OF s3(2)] this, of ?A None]
  have s4: "set_prev a None p3 = Some p4" "links_only ?A p3 p4"
    by (auto simp: p4_def)
  have "level_unlink l a p = Some (l2, p4)"
    using r1 r2 by (simp add: level_unlink_def a a1 s3(1) s4(1) Let_def)
  moreover have "links_only ?A p p4"
    using links_only_trans l1 l2 s3(2) s4(2) by blast
  moreover have "level_ok (pool_read p4) l2 (xs @ ys)"
    using e2 dist by (simp add: p4_def p3_def level_ok_def)
  ultimately show ?thesis using that by blast
qed

end
