(* ===== verification/Order_Book.thy ===== *)
theory Order_Book
  imports Price_Map Level_List
begin

text \<open>
  The order book of \<open>src/mvp/src/order_book.h\<close> and \<open>order_book.cpp\<close>, at the level of pool slots
  and intrusive links.  Every operation that follows a pointer runs in the option monad:
  \<^term>\<open>None\<close> is an access to a slot that holds no live node (or, for the loops, a run that does
  not end).  \<open>Book_Refinement\<close> proves that neither happens on a well-formed book.
\<close>

section \<open>State\<close>

record trade =
  taker_id :: order_id
  maker_id :: order_id
  trade_price :: price
  trade_qty :: quantity

record order_book =
  bids :: "(price \<times> level) list"
  asks :: "(price \<times> level) list"
  index :: "(order_id \<times> addr) list"
  pool :: node_pool
  next_id :: order_id
  next_ts :: timestamp

definition kDefaultPoolCapacity :: nat where
  "kDefaultPoolCapacity = 2000000"

definition book_init :: "nat \<Rightarrow> order_book" where
  "book_init pool_capacity =
     \<lparr>bids = [], asks = [], index = [], pool = pool_init pool_capacity, next_id = 1, next_ts = 1\<rparr>"

text \<open>The template parameter \<open>BookSide\<close>: \<open>bids_\<close> or \<open>asks_\<close>.\<close>

fun book_side :: "side \<Rightarrow> order_book \<Rightarrow> (price \<times> level) list" where
  "book_side Buy b = bids b"
| "book_side Sell b = asks b"

fun set_book_side :: "side \<Rightarrow> (price \<times> level) list \<Rightarrow> order_book \<Rightarrow> order_book" where
  "set_book_side Buy m b = b\<lparr>bids := m\<rparr>"
| "set_book_side Sell m b = b\<lparr>asks := m\<rparr>"

section \<open>Observers\<close>

definition best_bid :: "order_book \<Rightarrow> price" where
  "best_bid b = (case bids b of [] \<Rightarrow> 0 | (px, _) # _ \<Rightarrow> px)"

definition best_ask :: "order_book \<Rightarrow> price" where
  "best_ask b = (case asks b of [] \<Rightarrow> int64_max | (px, _) # _ \<Rightarrow> px)"

partial_function (option) sum_level :: "node_pool \<Rightarrow> addr option \<Rightarrow> quantity \<Rightarrow> quantity option" where
  [code]: "sum_level p n q =
     (case n of
        None \<Rightarrow> Some q
      | Some a \<Rightarrow> do { nd \<leftarrow> pool_read p a; sum_level p (node_next nd) (s64 (q + oqty nd)) })"

definition qty_at :: "side \<Rightarrow> price \<Rightarrow> order_book \<Rightarrow> quantity option" where
  "qty_at s px b =
     (case omap_find (before s) px (book_side s b) of
        None \<Rightarrow> Some 0
      | Some lvl \<Rightarrow> sum_level (pool b) (lhead lvl) 0)"

definition book_size :: "order_book \<Rightarrow> nat" where
  "book_size b = length (index b)"

section \<open>Matching\<close>

text \<open>
  A buy taker crosses an ask at or below its limit, a sell taker a bid at or above it; \<open>s\<close> is the
  side of the resting orders.
\<close>

fun crosses :: "side \<Rightarrow> price \<Rightarrow> price \<Rightarrow> bool" where
  "crosses Sell limit level_px \<longleftrightarrow> level_px \<le> limit"
| "crosses Buy limit level_px \<longleftrightarrow> level_px \<ge> limit"

text \<open>The inner loop of \<open>match_against\<close>: the makers of one level, oldest first.\<close>

partial_function (option) match_level ::
  "order_id \<Rightarrow> price \<Rightarrow> level \<Rightarrow> (order_id \<times> addr) list \<Rightarrow> node_pool \<Rightarrow> quantity \<Rightarrow> trade list \<Rightarrow>
   (level \<times> (order_id \<times> addr) list \<times> node_pool \<times> quantity \<times> trade list) option" where
  [code]: "match_level taker px lvl idx p qty trades =
     (if qty > 0 \<and> \<not> level_empty lvl then do {
        maker \<leftarrow> lhead lvl;
        nd \<leftarrow> pool_read p maker;
        let fill = min qty (oqty nd);
        let trades' = trades @ [\<lparr>taker_id = taker, maker_id = oid nd, trade_price = px, trade_qty = fill\<rparr>];
        let qty' = s64 (qty - fill);
        let p1 = pool_write maker (nd\<lparr>oqty := s64 (oqty nd - fill)\<rparr>) p;
        if s64 (oqty nd - fill) = 0 then do {
          let idx' = AList.delete (oid nd) idx;
          (lvl', p2) \<leftarrow> level_unlink lvl maker p1;
          match_level taker px lvl' idx' (release maker p2) qty' trades'
        } else match_level taker px lvl idx p1 qty' trades'
      } else Some (lvl, idx, p, qty, trades))"

text \<open>The outer loop: the best level of the opposite side, while it crosses.\<close>

partial_function (option) match_against ::
  "side \<Rightarrow> order_id \<Rightarrow> price \<Rightarrow> order_book \<Rightarrow> quantity \<Rightarrow> trade list \<Rightarrow>
   (order_book \<times> quantity \<times> trade list) option" where
  [code]: "match_against s taker limit b qty trades =
     (if qty > 0 then
        (case book_side s b of
           [] \<Rightarrow> Some (b, qty, trades)
         | (level_px, lvl) # rest \<Rightarrow>
             if \<not> crosses s limit level_px then Some (b, qty, trades)
             else do {
               (lvl', idx', p', qty', trades') \<leftarrow>
                  match_level taker level_px lvl (index b) (pool b) qty trades;
               match_against s taker limit
                 (set_book_side s (if level_empty lvl' then rest else (level_px, lvl') # rest)
                    (b\<lparr>index := idx', pool := p'\<rparr>)) qty' trades'
             })
      else Some (b, qty, trades))"

section \<open>Placement and cancellation\<close>

text \<open>
  The remainder of an order is put at the back of its price level.  An exhausted pool makes
  \<open>acquire\<close> return \<open>nullptr\<close>, and \<open>place_limit\<close> returns without resting the remainder.
\<close>

definition rest_order :: "side \<Rightarrow> order_id \<Rightarrow> price \<Rightarrow> quantity \<Rightarrow> order_book \<Rightarrow> order_book option" where
  "rest_order s i px remaining b = do {
     (slot, p1) \<leftarrow> acquire (pool b);
     (case slot of
        None \<Rightarrow> Some (b\<lparr>pool := p1\<rparr>)
      | Some n \<Rightarrow> do {
          let p2 = pool_write n \<lparr>oid = i, oside = s, oprice = px, oqty = remaining,
                     ots = next_ts b, node_prev = None, node_next = None\<rparr> p1;
          let lvl = (case omap_find (before s) px (book_side s b) of
                       Some l \<Rightarrow> l | None \<Rightarrow> empty_level);
          (lvl', p3) \<leftarrow> level_push_back lvl n p2;
          Some (set_book_side s (omap_put (before s) px lvl' (book_side s b))
                  (b\<lparr>index := AList.update i n (index b), pool := p3,
                     next_ts := u64 (int (next_ts b) + 1)\<rparr>))
        }) }"

definition place_limit ::
  "side \<Rightarrow> price \<Rightarrow> quantity \<Rightarrow> trade list \<Rightarrow> order_book \<Rightarrow> (order_id \<times> trade list \<times> order_book) option"
where
  "place_limit s px qty trades b = do {
     let i = next_id b;
     let b0 = b\<lparr>next_id := u64 (int (next_id b) + 1)\<rparr>;
     (b1, remaining, trades') \<leftarrow> match_against (opposite s) i px b0 qty trades;
     b2 \<leftarrow> (if remaining > 0 then rest_order s i px remaining b1 else Some b1);
     Some (i, trades', b2) }"

definition cancel :: "order_id \<Rightarrow> order_book \<Rightarrow> (bool \<times> order_book) option" where
  "cancel i b =
     (case map_of (index b) i of
        None \<Rightarrow> Some (False, b)
      | Some n \<Rightarrow> do {
          nd \<leftarrow> pool_read (pool b) n;
          let px = oprice nd;
          let s = oside nd;
          (case omap_find (before s) px (book_side s b) of
             None \<Rightarrow> Some (False, b)
           | Some lvl \<Rightarrow> do {
               (lvl', p1) \<leftarrow> level_unlink lvl n (pool b);
               let m = (if level_empty lvl' then omap_erase (before s) px (book_side s b)
                        else omap_put (before s) px lvl' (book_side s b));
               Some (True, set_book_side s m
                       (b\<lparr>index := AList.delete i (index b), pool := release n p1\<rparr>))
             })
        })"

text \<open>The destructor releases every node the index names.\<close>

definition book_destroy :: "order_book \<Rightarrow> node_pool" where
  "book_destroy b = fold (\<lambda>(i, n). release n) (index b) (pool b)"

section \<open>Field access\<close>

lemma book_side_set [simp]:
  "book_side s (set_book_side s' m b) = (if s = s' then m else book_side s b)"
  by (cases s; cases s') simp_all

lemma set_book_side_fields [simp]:
  "index (set_book_side s m b) = index b" "pool (set_book_side s m b) = pool b"
  "next_id (set_book_side s m b) = next_id b" "next_ts (set_book_side s m b) = next_ts b"
  by (cases s; simp)+

lemma book_side_upd [simp]:
  "book_side s (b\<lparr>index := x\<rparr>) = book_side s b" "book_side s (b\<lparr>pool := p\<rparr>) = book_side s b"
  "book_side s (b\<lparr>next_id := i\<rparr>) = book_side s b" "book_side s (b\<lparr>next_ts := t\<rparr>) = book_side s b"
  by (cases s; simp)+

lemma set_book_side_id: "book_side s b = m \<Longrightarrow> set_book_side s m b = b"
  by (cases s) auto

lemma set_book_side_twice [simp]:
  "set_book_side s m (set_book_side s m' b) = set_book_side s m b"
  "set_book_side s m ((set_book_side s m' b)\<lparr>index := i, pool := p\<rparr>) =
     set_book_side s m (b\<lparr>index := i, pool := p\<rparr>)"
  by (cases s; simp)+

lemma set_book_side_counters [simp]:
  "(set_book_side s m b)\<lparr>next_id := i\<rparr> = set_book_side s m (b\<lparr>next_id := i\<rparr>)"
  "(set_book_side s m b)\<lparr>next_ts := t\<rparr> = set_book_side s m (b\<lparr>next_ts := t\<rparr>)"
  by (cases s; simp)+

end
