(* ===== verification/Book_Spec.thy ===== *)
theory Book_Spec
  imports Order_Book
begin

text \<open>
  What an order book promises, without pools, links or levels.  A side is the list of its resting
  orders in price-time priority; a placement fills the front of the opposite list while it
  crosses and inserts the remainder by priority; a cancellation removes one order.  The theory
  proves the trading properties of this specification; \<open>Book_Refinement\<close> shows that the
  implementation follows it.
\<close>

section \<open>The specification\<close>

record abook =
  abids :: "order list"
  aasks :: "order list"
  acap :: nat
  anext_id :: nat
  anext_ts :: nat

fun aside :: "side \<Rightarrow> abook \<Rightarrow> order list" where
  "aside Buy A = abids A"
| "aside Sell A = aasks A"

fun set_aside :: "side \<Rightarrow> order list \<Rightarrow> abook \<Rightarrow> abook" where
  "set_aside Buy xs A = A\<lparr>abids := xs\<rparr>"
| "set_aside Sell xs A = A\<lparr>aasks := xs\<rparr>"

definition resting :: "abook \<Rightarrow> order list" where
  "resting A = abids A @ aasks A"

text \<open>Price-time priority: the better price first, then the order that arrived first.\<close>

definition prio :: "side \<Rightarrow> order \<Rightarrow> int \<times> nat" where
  "prio s x = (rank s (oprice x), oid x)"

fun fill :: "side \<Rightarrow> order_id \<Rightarrow> price \<Rightarrow> quantity \<Rightarrow> order list \<Rightarrow> trade list \<times> quantity \<times> order list" where
  "fill s taker limit q [] = ([], q, [])"
| "fill s taker limit q (x # xs) =
     (if q \<le> 0 \<or> \<not> crosses s limit (oprice x) then ([], q, x # xs)
      else if oqty x \<le> q then
        (let (ts, r, ys) = fill s taker limit (q - oqty x) xs
         in (\<lparr>taker_id = taker, maker_id = oid x, trade_price = oprice x, trade_qty = oqty x\<rparr> # ts,
             r, ys))
      else ([\<lparr>taker_id = taker, maker_id = oid x, trade_price = oprice x, trade_qty = q\<rparr>], 0,
            x\<lparr>oqty := oqty x - q\<rparr> # xs))"

definition aplace :: "side \<Rightarrow> price \<Rightarrow> quantity \<Rightarrow> abook \<Rightarrow> order_id \<times> trade list \<times> abook" where
  "aplace s px q A =
     (let i = anext_id A;
          (ts, r, ys) = fill (opposite s) i px q (aside (opposite s) A);
          A1 = set_aside (opposite s) ys (A\<lparr>anext_id := i + 1\<rparr>);
          x = \<lparr>oid = i, oside = s, oprice = px, oqty = r, ots = anext_ts A\<rparr>
      in (i, ts,
          if r > 0 \<and> length (resting A1) < acap A
          then set_aside s (insort_key (prio s) x (aside s A1)) (A1\<lparr>anext_ts := anext_ts A + 1\<rparr>)
          else A1))"

definition acancel :: "order_id \<Rightarrow> abook \<Rightarrow> bool \<times> abook" where
  "acancel i A =
     (i \<in> oid ` set (resting A),
      A\<lparr>abids := filter (\<lambda>x. oid x \<noteq> i) (abids A), aasks := filter (\<lambda>x. oid x \<noteq> i) (aasks A)\<rparr>)"

definition abook_init :: "nat \<Rightarrow> abook" where
  "abook_init cap = \<lparr>abids = [], aasks = [], acap = cap, anext_id = 1, anext_ts = 1\<rparr>"

section \<open>The invariant\<close>

definition order_ok :: "side \<Rightarrow> abook \<Rightarrow> order \<Rightarrow> bool" where
  "order_ok s A x \<longleftrightarrow>
     oside x = s \<and> 0 < oqty x \<and> oqty x \<le> int64_max \<and> is_s64 (oprice x) \<and>
     oid x < anext_id A \<and> ots x < anext_ts A"

definition ainv :: "abook \<Rightarrow> bool" where
  "ainv A \<longleftrightarrow>
     (\<forall>s. sorted (map (prio s) (aside s A))) \<and>
     (\<forall>s. \<forall>x \<in> set (aside s A). order_ok s A x) \<and>
     distinct (map oid (resting A)) \<and>
     (\<forall>x \<in> set (resting A). \<forall>y \<in> set (resting A). oid x < oid y \<longrightarrow> ots x < ots y) \<and>
     (\<forall>x \<in> set (abids A). \<forall>y \<in> set (aasks A). oprice x < oprice y) \<and>
     length (resting A) \<le> acap A \<and> anext_ts A \<le> anext_id A"

lemma aside_set [simp]:
  "aside s (set_aside s' xs A) = (if s = s' then xs else aside s A)"
  by (cases s; cases s') simp_all

lemma set_aside_fields [simp]:
  "acap (set_aside s xs A) = acap A" "anext_id (set_aside s xs A) = anext_id A"
  "anext_ts (set_aside s xs A) = anext_ts A"
  by (cases s; simp)+

lemma aside_upd [simp]:
  "aside s (A\<lparr>anext_id := i\<rparr>) = aside s A" "aside s (A\<lparr>anext_ts := t\<rparr>) = aside s A"
  by (cases s; simp)+

lemma set_aside_same [simp]: "set_aside s (aside s A) A = A"
  by (cases s) simp_all

lemma set_aside_twice [simp]: "set_aside s xs (set_aside s ys A) = set_aside s xs A"
  by (cases s) simp_all

lemma set_resting: "set (resting A) = set (aside s A) \<union> set (aside (opposite s) A)"
  by (cases s) (auto simp: resting_def)

lemma length_resting: "length (resting A) = length (aside s A) + length (aside (opposite s) A)"
  by (cases s) (auto simp: resting_def)

lemma distinct_resting:
  "distinct (map oid (resting A)) \<longleftrightarrow>
     distinct (map oid (aside s A)) \<and> distinct (map oid (aside (opposite s) A)) \<and>
     oid ` set (aside s A) \<inter> oid ` set (aside (opposite s) A) = {}"
  by (cases s) (auto simp: resting_def)

lemma abook_eqI:
  assumes "\<And>s. aside s A = aside s B" "acap A = acap B" "anext_id A = anext_id B"
    "anext_ts A = anext_ts B"
  shows "A = (B :: abook)"
  using assms(1) [of Buy] assms(1) [of Sell] assms(2-) by simp

section \<open>Properties of the fill\<close>

lemma fill_nonpos [simp]: "q \<le> 0 \<Longrightarrow> fill s t lim q xs = ([], q, xs)"
  by (cases xs) simp_all

lemma fill_append:
  assumes "\<forall>x \<in> set xs. crosses s limit (oprice x)"
  shows "fill s taker limit q (xs @ ys) =
    (let (ts, r, zs) = fill s taker limit q xs
     in if zs = [] then (let (ts', r', zs') = fill s taker limit r ys in (ts @ ts', r', zs'))
        else (ts, r, zs @ ys))"
  using assms by (induction xs arbitrary: q) (auto simp: Let_def split: prod.splits)

lemma fill_stops:
  assumes "\<forall>x \<in> set xs. crosses s limit (oprice x)" "fill s taker limit q xs = (ts, r, ys)" "ys \<noteq> []"
  shows "r \<le> 0"
  using assms
  by (induction xs arbitrary: q ts) (auto simp: Let_def split: prod.splits if_splits)

lemma fill_remaining:
  assumes "fill s t lim q xs = (ts, r, ys)" "0 \<le> q" "\<forall>x \<in> set xs. 0 < oqty x"
  shows "0 \<le> r" "r \<le> q"
  using assms
  by (induction s t lim q xs arbitrary: ts r ys rule: fill.induct)
    (fastforce split: if_splits prod.splits)+

text \<open>Conservation: what the taker got, the makers gave, trade by trade.\<close>

lemma fill_traded:
  assumes "fill s t lim q xs = (ts, r, ys)"
  shows "sum_list (map trade_qty ts) = q - r"
    and "sum_list (map oqty ys) = sum_list (map oqty xs) - (q - r)"
  using assms
  by (induction s t lim q xs arbitrary: ts r ys rule: fill.induct)
    (fastforce split: if_splits prod.splits)+

lemma fill_trades:
  assumes "fill s t lim q xs = (ts, r, ys)" "\<forall>x \<in> set xs. 0 < oqty x" "tr \<in> set ts"
  shows "0 < trade_qty tr \<and> taker_id tr = t \<and> crosses s lim (trade_price tr)"
  using assms
  by (induction s t lim q xs arbitrary: ts r ys rule: fill.induct)
    (fastforce split: if_splits prod.splits)+

text \<open>The makers are served in priority order and at their own prices.\<close>

lemma fill_prefix:
  assumes "fill s t lim q xs = (ts, r, ys)"
  shows "length ts \<le> length xs"
    and "map maker_id ts = map oid (take (length ts) xs)"
    and "map trade_price ts = map oprice (take (length ts) xs)"
  using assms
  by (induction s t lim q xs arbitrary: ts r ys rule: fill.induct)
    (fastforce split: if_splits prod.splits)+

text \<open>What is left of the makers: a suffix, in which only the first order may have shrunk.\<close>

lemma fill_suffix:
  assumes "fill s t lim q xs = (ts, r, ys)" "\<forall>x \<in> set xs. 0 < oqty x"
  shows "\<exists>k \<le> length xs. ys = drop k xs \<or>
     (\<exists>x zs z. drop k xs = x # zs \<and> ys = x\<lparr>oqty := z\<rparr> # zs \<and> 0 < z \<and> z < oqty x \<and> r = 0)"
  using assms
proof (induction s t lim q xs arbitrary: ts r ys rule: fill.induct)
  case (1 s t lim q)
  then show ?case by simp
next
  case (2 s t lim q x xs)
  consider "q \<le> 0 \<or> \<not> crosses s lim (oprice x)"
    | "0 < q" "crosses s lim (oprice x)" "oqty x \<le> q"
    | "0 < q" "crosses s lim (oprice x)" "q < oqty x"
    by linarith
  then show ?case
  proof cases
    case 1
    then have "ys = drop 0 (x # xs)"
      using 2(2) by (auto split: if_splits)
    then show ?thesis by blast
  next
    case 2
    then obtain ts' where f: "fill s t lim (q - oqty x) xs = (ts', r, ys)"
      using \<open>fill s t lim q (x # xs) = (ts, r, ys)\<close> by (auto split: prod.splits)
    obtain k where "k \<le> length xs" "ys = drop k xs \<or>
       (\<exists>x zs z. drop k xs = x # zs \<and> ys = x\<lparr>oqty := z\<rparr> # zs \<and> 0 < z \<and> z < oqty x \<and> r = 0)"
      using "2.IH" [OF _ _ f] 2 "2.prems"(2) by auto
    then show ?thesis by (intro exI [of _ "Suc k"]) simp
  next
    case 3
    then have "drop 0 (x # xs) = x # xs \<and> ys = x\<lparr>oqty := oqty x - q\<rparr> # xs \<and>
       0 < oqty x - q \<and> oqty x - q < oqty x \<and> r = 0"
      using "2.prems" by auto
    then show ?thesis by blast
  qed
qed

lemma fill_members:
  assumes "fill s t lim q xs = (ts, r, ys)" "\<forall>x \<in> set xs. 0 < oqty x" "y \<in> set ys"
  shows "\<exists>x \<in> set xs. oid y = oid x \<and> oside y = oside x \<and> oprice y = oprice x \<and> ots y = ots x \<and>
     0 < oqty y \<and> oqty y \<le> oqty x"
proof -
  obtain k where "ys = drop k xs \<or>
     (\<exists>x zs z. drop k xs = x # zs \<and> ys = x\<lparr>oqty := z\<rparr> # zs \<and> 0 < z \<and> z < oqty x \<and> r = 0)"
    using fill_suffix [OF assms(1,2)] by blast
  moreover have "set (drop k xs) \<subseteq> set xs"
    by (rule set_drop_subset)
  ultimately show ?thesis
    using assms(2,3) by fastforce
qed

lemma fill_keys:
  assumes "fill s t lim q xs = (ts, r, ys)" "\<forall>x \<in> set xs. 0 < oqty x"
    and "\<And>x z. f (x\<lparr>oqty := z\<rparr>) = f x"
  obtains k where "map f ys = drop k (map f xs)"
  using fill_suffix [OF assms(1,2)] assms(3) by (metis drop_map list.simps(9))

lemma prio_upd [simp]: "prio s (x\<lparr>oqty := z\<rparr>) = prio s x"
  by (simp add: prio_def)

lemma prio_le_rank: "prio s x \<le> prio s y \<Longrightarrow> rank s (oprice x) \<le> rank s (oprice y)"
  by (auto simp: prio_def less_eq_prod_def)

lemma prio_less: "prio s x < prio s y \<longleftrightarrow>
   rank s (oprice x) < rank s (oprice y) \<or> oprice x = oprice y \<and> oid x < oid y"
  by (auto simp: prio_def less_prod_def)

lemma crosses_rank: "crosses s lim p \<Longrightarrow> rank s p' \<le> rank s p \<Longrightarrow> crosses s lim p'"
  by (cases s) auto

lemma crosses_before: "\<not> crosses s lim p \<Longrightarrow> before s lim p"
  by (cases s) auto

text \<open>A taker that is not fully filled leaves no order that its limit crosses.\<close>

lemma fill_exhausts:
  assumes "fill s t lim q xs = (ts, r, ys)" "0 < r" "sorted (map (prio s) xs)" "y \<in> set ys"
  shows "\<not> crosses s lim (oprice y)"
  using assms
proof (induction s t lim q xs arbitrary: ts r ys rule: fill.induct)
  case (1 s t lim q)
  then show ?case by simp
next
  case (2 s t lim q x xs)
  consider "q \<le> 0" | "0 < q" "\<not> crosses s lim (oprice x)"
    | "0 < q" "crosses s lim (oprice x)" "oqty x \<le> q"
    | "0 < q" "crosses s lim (oprice x)" "q < oqty x"
    by linarith
  then show ?case
  proof cases
    case 2
    then have "y \<in> set (x # xs)"
      using "2.prems" by simp
    then have "prio s x \<le> prio s y"
      using "2.prems"(3) by auto
    then show ?thesis
      using crosses_rank prio_le_rank 2 by blast
  next
    case 3
    then obtain ts' where "fill s t lim (q - oqty x) xs = (ts', r, ys)"
      using "2.prems"(1) by (auto split: prod.splits)
    then show ?thesis
      using "2.IH" 3 "2.prems" by auto
  qed (use "2.prems" in auto)
qed

section \<open>The invariant is kept\<close>

lemma ainv_init: "ainv (abook_init cap)"
proof -
  have "aside s (abook_init cap) = []" for s
    by (cases s) (simp_all add: abook_init_def)
  then show ?thesis
    by (simp add: ainv_def) (simp add: abook_init_def resting_def)
qed

lemma ainv_orderD: "ainv A \<Longrightarrow> x \<in> set (aside s A) \<Longrightarrow> order_ok s A x"
  by (auto simp: ainv_def)

lemma ainv_pos: "ainv A \<Longrightarrow> \<forall>x \<in> set (aside s A). 0 < oqty x"
  by (auto simp: order_ok_def dest: ainv_orderD)

lemma ainv_sorted: "ainv A \<Longrightarrow> sorted (map (prio s) (aside s A))"
  by (auto simp: ainv_def)

text \<open>The uncrossed condition, from the point of view of either side.\<close>

lemma uncrossed_iff:
  "(\<forall>x \<in> set (abids A). \<forall>y \<in> set (aasks A). oprice x < oprice y) \<longleftrightarrow>
   (\<forall>x \<in> set (aside s A). \<forall>y \<in> set (aside (opposite s) A). \<not> crosses (opposite s) (oprice x) (oprice y))"
  by (cases s) (auto simp: not_le)

lemma ainv_shrink:
  assumes inv: "ainv A" and f: "fill (opposite s) t lim q (aside (opposite s) A) = (ts, r, ys)"
  shows "ainv (set_aside (opposite s) ys (A\<lparr>anext_id := anext_id A + 1\<rparr>))"
    (is "ainv ?A1")
proof -
  let ?xs = "aside (opposite s) A"
  note mem = fill_members [OF f ainv_pos [OF inv]]
  have own: "aside s ?A1 = aside s A" and opp: "aside (opposite s) ?A1 = ys"
    by simp_all
  obtain k where k: "map (prio (opposite s)) ys = drop k (map (prio (opposite s)) ?xs)"
    using fill_keys [OF f ainv_pos [OF inv], of "prio (opposite s)"] by auto
  obtain k' where k': "map oid ys = drop k' (map oid ?xs)"
    using fill_keys [OF f ainv_pos [OF inv], of oid] by auto
  have rest: "\<exists>x \<in> set (resting A). oid y = oid x \<and> oprice y = oprice x \<and> ots y = ots x"
    if "y \<in> set (resting ?A1)" for y
    using that mem by (fastforce simp: set_resting [of _ s])
  have "sorted (map (prio s') (aside s' ?A1))" for s'
    using k ainv_sorted [OF inv, of s'] ainv_sorted [OF inv, of "opposite s"]
    by (cases "s' = opposite s") (auto simp: sorted_wrt_drop)
  moreover have "order_ok s' ?A1 x" if "x \<in> set (aside s' ?A1)" for s' x
    using that mem ainv_orderD [OF inv, of _ s']
    by (cases "s' = opposite s") (fastforce simp: order_ok_def)+
  moreover have "distinct (map oid (resting ?A1))"
  proof -
    have sub: "oid ` set ys \<subseteq> oid ` set ?xs"
      using mem by force
    have "distinct (map oid ys)" "distinct (map oid (aside s A))"
      and "oid ` set (aside s A) \<inter> oid ` set ?xs = {}"
      using inv k' by (simp_all add: ainv_def distinct_resting [of A s])
    then have "oid ` set (aside s A) \<inter> oid ` set ys = {}"
      using sub by blast
    then show ?thesis
      using \<open>distinct (map oid ys)\<close> \<open>distinct (map oid (aside s A))\<close>
      unfolding distinct_resting [of ?A1 s] own opp by simp
  qed
  moreover have "\<forall>x \<in> set (resting ?A1). \<forall>y \<in> set (resting ?A1). oid x < oid y \<longrightarrow> ots x < ots y"
    using rest inv by (metis ainv_def)
  moreover have "\<forall>x \<in> set (abids ?A1). \<forall>y \<in> set (aasks ?A1). oprice x < oprice y"
    using inv mem unfolding ainv_def uncrossed_iff [of _ s] own opp by fastforce
  moreover have "length (resting ?A1) \<le> acap ?A1"
    using inv arg_cong [OF k', of length] by (auto simp: ainv_def length_resting [of _ s])
  moreover have "anext_ts ?A1 \<le> anext_id ?A1"
    using inv by (simp add: ainv_def)
  ultimately show ?thesis
    unfolding ainv_def by blast
qed

lemma fill_ids:
  assumes inv: "ainv A" and f: "fill (opposite s) t lim q (aside (opposite s) A) = (ts, r, ys)"
    and "y \<in> set (aside s A) \<union> set ys"
  shows "oid y < anext_id A"
  using assms(3) fill_members [OF f ainv_pos [OF inv]] ainv_orderD [OF inv]
  by (fastforce simp: order_ok_def)

lemma ainv_insert:
  assumes inv: "ainv A" and x: "x = \<lparr>oid = i, oside = s, oprice = px, oqty = r, ots = anext_ts A\<rparr>"
    and i: "i < anext_id A" "\<forall>y \<in> set (resting A). oid y < i" "anext_ts A < anext_id A"
    and r: "0 < r" "r \<le> int64_max" "is_s64 px" and room: "length (resting A) < acap A"
    and unc: "\<forall>y \<in> set (aside (opposite s) A). \<not> crosses (opposite s) px (oprice y)"
  shows "ainv (set_aside s (insort_key (prio s) x (aside s A)) (A\<lparr>anext_ts := anext_ts A + 1\<rparr>))"
    (is "ainv ?A1")
proof -
  have own: "set (aside s ?A1) = insert x (set (aside s A))"
    and opp: "aside (opposite s) ?A1 = aside (opposite s) A"
    by (simp_all add: set_insort_key)
  have "distinct (map oid (insort_key (prio s) x (aside s A)))"
    using inv i(2) x by (force simp: ainv_def distinct_resting [of _ s] set_resting [of _ s]
        distinct_map_insort_key)
  moreover have "oid ` insert x (set (aside s A)) \<inter> oid ` set (aside (opposite s) A) = {}"
    using inv i(2) x by (auto simp: ainv_def distinct_resting [of _ s] set_resting [of _ s])
  ultimately have "distinct (map oid (resting ?A1))"
    using inv by (simp add: ainv_def distinct_resting [of _ s] set_insort_key)
  moreover have "sorted (map (prio s') (aside s' ?A1))" for s'
    using ainv_sorted [OF inv, of s'] by (auto simp: sorted_insort_key)
  moreover have "order_ok s' ?A1 y" if "y \<in> set (aside s' ?A1)" for s' y
    using that x i r ainv_orderD [OF inv, of y s']
    by (auto simp: order_ok_def set_insort_key split: if_splits)
  moreover have "\<forall>y \<in> set (resting ?A1). \<forall>z \<in> set (resting ?A1). oid y < oid z \<longrightarrow> ots y < ots z"
  proof -
    have "ots y < anext_ts A" if "y \<in> set (resting A)" for y
      using that ainv_orderD [OF inv] by (auto simp: order_ok_def set_resting [of _ s])
    moreover have "set (resting ?A1) = insert x (set (resting A))"
      by (simp add: set_resting [of _ s] set_insort_key)
    ultimately show ?thesis
      using x i inv by (auto simp: ainv_def)
  qed
  moreover have "\<forall>y \<in> set (abids ?A1). \<forall>z \<in> set (aasks ?A1). oprice y < oprice z"
    using inv unc x unfolding ainv_def uncrossed_iff [of _ s] own opp by auto
  moreover have "length (resting ?A1) \<le> acap ?A1" "anext_ts ?A1 \<le> anext_id ?A1"
    using room i by (simp_all add: length_resting [of _ s])
  ultimately show ?thesis
    unfolding ainv_def by blast
qed

lemma aplace_eq:
  assumes "fill (opposite s) (anext_id A) px q (aside (opposite s) A) = (ts, r, ys)"
    and "A1 = set_aside (opposite s) ys (A\<lparr>anext_id := anext_id A + 1\<rparr>)"
  shows "aplace s px q A = (anext_id A, ts,
     if r > 0 \<and> length (resting A1) < acap A
     then set_aside s (insort_key (prio s)
            \<lparr>oid = anext_id A, oside = s, oprice = px, oqty = r, ots = anext_ts A\<rparr> (aside s A1))
            (A1\<lparr>anext_ts := anext_ts A + 1\<rparr>)
     else A1)"
  unfolding aplace_def Let_def assms by simp

lemma ainv_aplace:
  assumes inv: "ainv A" and "is_s64 px" "is_s64 q" and pl: "aplace s px q A = (i, ts, A')"
  shows "ainv A'"
proof -
  obtain ts' r ys where f: "fill (opposite s) (anext_id A) px q (aside (opposite s) A) = (ts', r, ys)"
    using prod_cases3 by blast
  define A1 where "A1 = set_aside (opposite s) ys (A\<lparr>anext_id := anext_id A + 1\<rparr>)"
  have i1: "ainv A1"
    unfolding A1_def by (rule ainv_shrink [OF inv f])
  show ?thesis
  proof (cases "r > 0 \<and> length (resting A1) < acap A")
    case True
    then have "0 \<le> q"
      using f by (cases "q \<le> 0") auto
    then have "r \<le> q"
      using fill_remaining [OF f _ ainv_pos [OF inv]] by simp
    let ?x = "\<lparr>oid = anext_id A, oside = s, oprice = px, oqty = r, ots = anext_ts A1\<rparr>"
    have ts: "anext_ts A1 = anext_ts A" "anext_id A1 = anext_id A + 1" "acap A1 = acap A"
      by (simp_all add: A1_def)
    have "\<forall>y \<in> set (aside (opposite s) A1). \<not> crosses (opposite s) px (oprice y)"
      using fill_exhausts [OF f _ ainv_sorted [OF inv]] True by (simp add: A1_def)
    moreover have "\<forall>y \<in> set (resting A1). oid y < anext_id A"
      using fill_ids [OF inv f] by (simp add: A1_def set_resting [of _ s])
    moreover have "anext_ts A1 < anext_id A1"
      using inv by (simp add: ts ainv_def)
    moreover have "r \<le> int64_max"
      using \<open>r \<le> q\<close> assms(3) by (simp add: is_s64_def)
    ultimately have "ainv (set_aside s (insort_key (prio s) ?x (aside s A1))
        (A1\<lparr>anext_ts := anext_ts A1 + 1\<rparr>))"
      using True assms(2) i1 by (intro ainv_insert [where i = "anext_id A" and r = r and px = px])
        (simp_all add: ts)
    then show ?thesis
      using pl True by (auto simp: aplace_eq [OF f A1_def] ts)
  next
    case False
    then show ?thesis
      using pl i1 False by (simp add: aplace_eq [OF f A1_def])
  qed
qed

lemma acancel_fields:
  assumes "acancel i A = (hit, A')"
  shows "aside s A' = filter (\<lambda>x. oid x \<noteq> i) (aside s A)" "acap A' = acap A"
    "anext_id A' = anext_id A" "anext_ts A' = anext_ts A" "hit \<longleftrightarrow> i \<in> oid ` set (resting A)"
  using assms by (cases s; auto simp: acancel_def)+

lemma ainv_acancel:
  assumes inv: "ainv A" and c: "acancel i A = (ok, A')"
  shows "ainv A'"
proof -
  note A' = acancel_fields(1) [OF c] and fields = acancel_fields(2-4) [OF c]
  have rest: "resting A' = filter (\<lambda>x. oid x \<noteq> i) (resting A)"
    using A' [of Buy] A' [of Sell] by (simp add: resting_def)
  have "distinct (map oid (resting A'))"
    using inv by (simp add: ainv_def rest distinct_map_filter)
  moreover have "length (resting A') \<le> acap A'"
    using inv by (simp add: ainv_def rest fields) (meson length_filter_le le_trans)
  moreover have "sorted (map (prio s) (aside s A'))" for s
    using ainv_sorted [OF inv, of s] by (simp add: A' sorted_filter)
  moreover have "order_ok s A' x" if "x \<in> set (aside s A')" for s x
    using that ainv_orderD [OF inv, of x s] by (simp add: A' order_ok_def fields)
  moreover have "\<forall>x \<in> set (abids A'). \<forall>y \<in> set (aasks A'). oprice x < oprice y"
    using inv c by (auto simp: ainv_def acancel_def)
  moreover have "\<forall>x \<in> set (resting A'). \<forall>y \<in> set (resting A'). oid x < oid y \<longrightarrow> ots x < ots y"
    using inv by (simp add: ainv_def rest)
  moreover have "anext_ts A' \<le> anext_id A'"
    using inv by (simp add: ainv_def fields)
  ultimately show ?thesis
    unfolding ainv_def by blast
qed

end
