(* ===== verification/Book_Refinement.thy ===== *)
theory Book_Refinement
  imports Book_Spec
begin

text \<open>
  The order book of \<open>order_book.cpp\<close> implements the specification \<open>Book_Spec\<close>.  The invariant
  \<open>conc_ok g b\<close> relates the book to the addresses \<open>g\<close> of the nodes that each level links; the
  abstraction \<open>abs_of g b\<close> reads the orders off these addresses.  Every operation is shown to
  return (no use of a dead node, no endless loop) and to commute with the abstraction.
\<close>

section \<open>The invariant and the abstraction\<close>

type_synonym ghost = "(price \<times> addr list) list"

definition addrs :: "ghost \<Rightarrow> addr list" where
  "addrs g = concat (map snd g)"

definition level_rel :: "heap \<Rightarrow> side \<Rightarrow> price \<times> level \<Rightarrow> price \<times> addr list \<Rightarrow> bool" where
  "level_rel h s e e' \<longleftrightarrow>
     fst e' = fst e \<and> level_ok h (snd e) (snd e') \<and>
     (\<forall>a \<in> set (snd e'). \<exists>x. order_at h a = Some x \<and> oprice x = fst e \<and> oside x = s)"

definition side_ok :: "heap \<Rightarrow> side \<Rightarrow> (price \<times> level) list \<Rightarrow> ghost \<Rightarrow> bool" where
  "side_ok h s m g \<longleftrightarrow> list_all2 (level_rel h s) m g \<and> sorted_wrt (before s) (map fst m)"

definition id_at :: "heap \<Rightarrow> addr \<Rightarrow> order_id option" where
  "id_at h a = map_option oid (h a)"

definition index_ok :: "heap \<Rightarrow> (order_id \<times> addr) list \<Rightarrow> bool" where
  "index_ok h idx \<longleftrightarrow>
     distinct (map fst idx) \<and> set idx = {(i, a). id_at h a = Some i}"

definition conc_ok :: "(side \<Rightarrow> ghost) \<Rightarrow> order_book \<Rightarrow> bool" where
  "conc_ok g b \<longleftrightarrow>
     pool_ok (pool b) \<and>
     (\<forall>s. side_ok (pool_read (pool b)) s (book_side s b) (g s)) \<and>
     (\<forall>s. distinct (addrs (g s))) \<and>
     (\<forall>s. set (addrs (g s)) \<inter> set (addrs (g (opposite s))) = {}) \<and>
     (\<forall>s. set (addrs (g s)) \<union> set (addrs (g (opposite s))) = dom (pool_read (pool b))) \<and>
     index_ok (pool_read (pool b)) (index b)"

definition nonempty :: "(side \<Rightarrow> ghost) \<Rightarrow> bool" where
  "nonempty g \<longleftrightarrow> (\<forall>s. \<forall>e \<in> set (g s). snd e \<noteq> [])"

definition orders_at :: "heap \<Rightarrow> addr list \<Rightarrow> order list" where
  "orders_at h as = map (\<lambda>a. the (order_at h a)) as"

definition abs_of :: "(side \<Rightarrow> ghost) \<Rightarrow> order_book \<Rightarrow> abook" where
  "abs_of g b =
     \<lparr>abids = orders_at (pool_read (pool b)) (addrs (g Buy)),
      aasks = orders_at (pool_read (pool b)) (addrs (g Sell)),
      acap = capacity (pool b), anext_id = next_id b, anext_ts = next_ts b\<rparr>"

definition book_abs :: "order_book \<Rightarrow> abook \<Rightarrow> bool" where
  "book_abs b A \<longleftrightarrow> (\<exists>g. conc_ok g b \<and> nonempty g \<and> A = abs_of g b)"

lemma addrs_simps [simp]:
  "addrs [] = []" "addrs ((p, as) # g) = as @ addrs g" "addrs (g1 @ g2) = addrs g1 @ addrs g2"
  by (simp_all add: addrs_def)

lemma orders_at_simps [simp]:
  "orders_at h [] = []" "orders_at h (a # as) = the (order_at h a) # orders_at h as"
  "orders_at h (as @ bs) = orders_at h as @ orders_at h bs"
  "length (orders_at h as) = length as"
  by (simp_all add: orders_at_def)

lemma orders_at_cong:
  "(\<And>a. a \<in> set as \<Longrightarrow> order_at h a = order_at h' a) \<Longrightarrow> orders_at h as = orders_at h' as"
  by (simp add: orders_at_def)

lemma aside_abs_of [simp]:
  "aside s (abs_of g b) = orders_at (pool_read (pool b)) (addrs (g s))"
  by (cases s) (simp_all add: abs_of_def)

lemma abs_of_fields [simp]:
  "acap (abs_of g b) = capacity (pool b)" "anext_id (abs_of g b) = next_id b"
  "anext_ts (abs_of g b) = next_ts b"
  by (simp_all add: abs_of_def)

lemma conc_okD:
  assumes "conc_ok g b"
  shows "pool_ok (pool b)" "side_ok (pool_read (pool b)) s (book_side s b) (g s)"
    "distinct (addrs (g s))" "index_ok (pool_read (pool b)) (index b)"
    "set (addrs (g s)) \<inter> set (addrs (g (opposite s))) = {}"
    "set (addrs (g s)) \<union> set (addrs (g (opposite s))) = dom (pool_read (pool b))"
  using assms unfolding conc_ok_def by blast+

lemma conc_live: "conc_ok g b \<Longrightarrow> set (addrs (g s)) \<subseteq> dom (pool_read (pool b))"
  using conc_okD(6) [of g b s] by auto

lemma conc_okI:
  assumes "pool_ok (pool b)" "\<And>s. side_ok (pool_read (pool b)) s (book_side s b) (g s)"
    "\<And>s. distinct (addrs (g s))" "index_ok (pool_read (pool b)) (index b)"
    "set (addrs (g s)) \<inter> set (addrs (g (opposite s))) = {}"
    "set (addrs (g s)) \<union> set (addrs (g (opposite s))) = dom (pool_read (pool b))"
  shows "conc_ok g b"
proof -
  have "set (addrs (g t)) \<inter> set (addrs (g (opposite t))) = {} \<and>
    set (addrs (g t)) \<union> set (addrs (g (opposite t))) = dom (pool_read (pool b))" for t
    using assms(5,6) by (cases "t = s") (simp_all add: side_neq_iff Int_commute Un_commute)
  then show ?thesis
    using assms(1-4) unfolding conc_ok_def by blast
qed

lemma in_addrs: "a \<in> set (addrs g) \<longleftrightarrow> (\<exists>e \<in> set g. a \<in> set (snd e))"
  by (simp add: addrs_def)

lemma level_rel_cong:
  assumes "\<And>a. a \<in> set (snd e') \<Longrightarrow> h a = h' a"
  shows "level_rel h s e e' = level_rel h' s e e'"
  using assms by (simp add: level_rel_def level_ok_cong [of _ h h'] order_at_def)

lemma levels_cong:
  assumes "\<And>a. a \<in> set (addrs g) \<Longrightarrow> h a = h' a"
  shows "list_all2 (level_rel h s) m g = list_all2 (level_rel h' s) m g"
proof (rule list.rel_cong [OF refl refl])
  fix e e'
  assume "e \<in> set m" and "e' \<in> set g"
  then have "set (snd e') \<subseteq> set (addrs g)"
    by (auto simp: addrs_def)
  then show "level_rel h s e e' = level_rel h' s e e'"
    using assms by (intro level_rel_cong) blast
qed

lemma side_ok_cong:
  "(\<And>a. a \<in> set (addrs g) \<Longrightarrow> h a = h' a) \<Longrightarrow> side_ok h s m g = side_ok h' s m g"
  by (simp add: side_ok_def levels_cong [of g h h'])

lemma side_ok_at:
  assumes "length m1 = length g1"
  shows "side_ok h s (m1 @ (p, l) # m2) (g1 @ (q, as) # g2) \<longleftrightarrow>
    list_all2 (level_rel h s) m1 g1 \<and> level_rel h s (p, l) (q, as) \<and>
    list_all2 (level_rel h s) m2 g2 \<and> sorted_wrt (before s) (map fst m1 @ p # map fst m2)"
  using assms by (simp add: side_ok_def list_all2_append)

lemma side_ok_keys: "side_ok h s m g \<Longrightarrow> map fst g = map fst m"
proof -
  assume "side_ok h s m g"
  then have "list_all2 (\<lambda>e e'. fst e' = fst e) m g"
    by (auto simp: side_ok_def level_rel_def elim: list_all2_mono)
  then show ?thesis
    by (induction rule: list_all2_induct) simp_all
qed

text \<open>A level of the ghost state has its level in the map, at the same position.\<close>

lemma side_ok_split:
  assumes "side_ok h s m (g1 @ (p, as) # g2)"
  obtains m1 l m2 where "m = m1 @ (p, l) # m2" "length m1 = length g1" "level_rel h s (p, l) (p, as)"
    "list_all2 (level_rel h s) m1 g1" "list_all2 (level_rel h s) m2 g2"
    "\<forall>x \<in> fst ` set m1. before s x p" "\<forall>x \<in> fst ` set m2. before s p x"
proof -
  obtain m1 e m2 where m: "m = m1 @ e # m2"
    and "list_all2 (level_rel h s) m1 g1" "level_rel h s e (p, as)" "list_all2 (level_rel h s) m2 g2"
    using assms by (auto simp: side_ok_def list_all2_append2 list_all2_Cons2)
  moreover obtain l where e: "e = (p, l)"
    using \<open>level_rel h s e (p, as)\<close> by (cases e) (simp add: level_rel_def)
  moreover have "sorted_wrt (before s) (map fst m1 @ p # map fst m2)"
    using assms by (simp add: side_ok_def m e)
  moreover have "length m1 = length g1"
    using \<open>list_all2 (level_rel h s) m1 g1\<close> by (rule list_all2_lengthD)
  ultimately show ?thesis
    using that [of m1 l m2] by (simp add: sorted_wrt_append)
qed

section \<open>A change of one node's quantity\<close>

lemma truncate_qty [simp]: "order.truncate (n\<lparr>oqty := z\<rparr>) = (order.truncate n)\<lparr>oqty := z\<rparr>"
  by (simp add: order.truncate_def)

lemma order_truncate_fields [simp]:
  "oid (order.truncate n) = oid n" "oside (order.truncate n) = oside n"
  "oprice (order.truncate n) = oprice n" "oqty (order.truncate n) = oqty n"
  "ots (order.truncate n) = ots n"
  by (simp_all add: order.truncate_def)

lemma order_at_Some: "h a = Some n \<Longrightarrow> order_at h a = Some (order.truncate n)"
  by (simp add: order_at_def)

lemma side_ok_write_qty:
  assumes "h a = Some nd" "side_ok h s m g"
  shows "side_ok (h(a \<mapsto> nd\<lparr>oqty := z\<rparr>)) s m g"
proof -
  have "level_rel (h(a \<mapsto> nd\<lparr>oqty := z\<rparr>)) s e e'" if "level_rel h s e e'" for e e'
    using that level_ok_upd_data [of h a nd "nd\<lparr>oqty := z\<rparr>"]
      order_at_Some [of h a nd] assms(1)
    by (fastforce simp: level_rel_def)
  then show ?thesis
    using assms(2) by (auto simp: side_ok_def elim: list_all2_mono)
qed

lemma conc_write_qty:
  assumes ok: "conc_ok g b" and a: "pool_read (pool b) a = Some nd"
  shows "conc_ok g (b\<lparr>pool := pool_write a (nd\<lparr>oqty := z\<rparr>) (pool b)\<rparr>)"
proof (rule conc_okI)
  let ?b = "b\<lparr>pool := pool_write a (nd\<lparr>oqty := z\<rparr>) (pool b)\<rparr>"
  show "pool_ok (pool ?b)"
    using op.put_live [OF conc_okD(1) [OF ok] a] by simp
  show "side_ok (pool_read (pool ?b)) s (book_side s ?b) (g s)" for s
    using side_ok_write_qty [of "pool_read (pool b)" a nd] a conc_okD(2) [OF ok, of s] by simp
  show "distinct (addrs (g s))" for s
    by (rule conc_okD [OF ok])
  show "set (addrs (g Buy)) \<inter> set (addrs (g (opposite Buy))) = {}"
    by (rule conc_okD [OF ok])
  show "set (addrs (g Buy)) \<union> set (addrs (g (opposite Buy))) = dom (pool_read (pool ?b))"
    using conc_okD(6) [OF ok, of Buy] a by auto
  have "id_at (pool_read (pool ?b)) = id_at (pool_read (pool b))"
    using a by (auto simp: id_at_def)
  then show "index_ok (pool_read (pool ?b)) (index ?b)"
    using conc_okD(4) [OF ok] by (simp add: index_ok_def)
qed

section \<open>A change of one level\<close>

text \<open>
  An operation that rewrites the list of one level, and of the heap only the nodes of that list
  (old and new), keeps the invariant.
\<close>

lemma conc_replace_level:
  assumes ok: "conc_ok g b" and g: "g s = g1 @ (px, as) # g2"
    and m: "book_side s b = m1 @ (px, l) # m2" and len: "length m1 = length g1"
    and pool': "pool_ok p'" and index': "index_ok (pool_read p') idx'"
    and level': "level_rel (pool_read p') s (px, l') (px, as')" "distinct as'"
    and new: "set as' \<inter> (dom (pool_read (pool b)) - set as) = {}"
    and dom': "dom (pool_read p') = dom (pool_read (pool b)) - set as \<union> set as'"
    and frame: "\<And>c. c \<in> dom (pool_read (pool b)) - set as \<Longrightarrow> pool_read p' c = pool_read (pool b) c"
  shows "conc_ok (g(s := g1 @ (px, as') # g2))
           (set_book_side s (m1 @ (px, l') # m2) (b\<lparr>index := idx', pool := p'\<rparr>))"
proof -
  let ?h = "pool_read (pool b)" and ?h' = "pool_read p'"
  let ?g = "g(s := g1 @ (px, as') # g2)" and ?o = "opposite s"
  let ?b = "set_book_side s (m1 @ (px, l') # m2) (b\<lparr>index := idx', pool := p'\<rparr>)"
  note side = conc_okD(2) [OF ok, of s, unfolded m g side_ok_at [OF len]]
  have dist: "distinct (addrs g1 @ as @ addrs g2)"
    using conc_okD(3) [OF ok, of s] by (simp add: g)
  have cover: "set (addrs g1) \<union> set as \<union> set (addrs g2) \<union> set (addrs (g ?o)) = dom ?h"
    using conc_okD(6) [OF ok, of s] by (simp add: g Un_assoc)
  have apart: "(set (addrs g1) \<union> set as \<union> set (addrs g2)) \<inter> set (addrs (g ?o)) = {}"
    using conc_okD(5) [OF ok, of s] by (simp add: g Un_assoc)
  have rest: "set (addrs g1) \<union> set (addrs g2) \<union> set (addrs (g ?o)) = dom ?h - set as"
    unfolding cover [symmetric] using dist apart by auto
  have new': "set as' \<inter> (set (addrs g1) \<union> set (addrs g2) \<union> set (addrs (g ?o))) = {}"
    using new unfolding rest .
  have dom'': "dom ?h' = set (addrs g1) \<union> set (addrs g2) \<union> set (addrs (g ?o)) \<union> set as'"
    using dom' unfolding rest .
  have frames: "c \<in> set (addrs g1) \<union> set (addrs g2) \<union> set (addrs (g ?o)) \<Longrightarrow> ?h' c = ?h c" for c
    using frame rest by blast
  have s1: "side_ok ?h' s (m1 @ (px, l') # m2) (g1 @ (px, as') # g2)"
    unfolding side_ok_at [OF len]
    using side level' levels_cong [of g1 ?h' ?h] levels_cong [of g2 ?h' ?h] frames by auto
  have s2: "side_ok ?h' ?o (book_side ?o b) (g ?o)"
    using side_ok_cong [of "g ?o" ?h' ?h] frames conc_okD(2) [OF ok, of ?o] by auto
  have d1: "distinct (addrs g1 @ as' @ addrs g2)"
    using dist level'(2) new' by auto
  show ?thesis
  proof (rule conc_okI [of _ _ s])
    show "side_ok (pool_read (pool ?b)) t (book_side t ?b) (?g t)" for t
      using s1 s2 by (cases "t = s") (simp_all add: side_neq_iff)
    show "distinct (addrs (?g t))" for t
      using d1 conc_okD(3) [OF ok, of t] by simp
    show "set (addrs (?g s)) \<inter> set (addrs (?g ?o)) = {}"
      using apart new' by auto
    show "set (addrs (?g s)) \<union> set (addrs (?g ?o)) = dom (pool_read (pool ?b))"
      using dom'' by auto
  qed (use pool' index' in simp_all)
qed

text \<open>An empty level can be added or dropped.\<close>

lemma conc_empty_level:
  assumes "length m1 = length g1" and "level_ok (pool_read (pool b)) l []"
    and g: "g s = g1 @ g2" "g' s = g1 @ (px, []) # g2" "\<And>t. t \<noteq> s \<Longrightarrow> g' t = g t"
    and b: "book_side s b = m1 @ m2" "sorted_wrt (before s) (map fst m1 @ px # map fst m2)"
  shows "conc_ok g' (set_book_side s (m1 @ (px, l) # m2) b) \<longleftrightarrow> conc_ok g b"
proof -
  let ?b = "set_book_side s (m1 @ (px, l) # m2) b"
  have "side_ok (pool_read (pool b)) t (book_side t ?b) (g' t) \<longleftrightarrow>
        side_ok (pool_read (pool b)) t (book_side t b) (g t)" for t
    using assms
    by (cases "t = s") (auto simp: side_ok_at side_ok_def list_all2_append level_rel_def sorted_wrt_append)
  moreover have "addrs (g' t) = addrs (g t)" for t
    using g by (cases "t = s") auto
  ultimately show ?thesis by (simp add: conc_ok_def)
qed

section \<open>Removal of one node\<close>

lemma id_at_order_at: "id_at h a = map_option oid (order_at h a)"
  by (cases "h a") (simp_all add: id_at_def order_at_def)

lemma index_ok_unique:
  assumes "index_ok h idx" "id_at h a = Some i" "id_at h c = Some i"
  shows "a = c"
proof -
  have "(i, a) \<in> set idx" "(i, c) \<in> set idx" "distinct (map fst idx)"
    using assms by (simp_all add: index_ok_def)
  then show ?thesis by (metis eq_key_imp_eq_value)
qed

lemma index_ok_delete:
  assumes ix: "index_ok h idx" and a: "id_at h a = Some i"
    and h': "order_at h' = (order_at h)(a := None)"
  shows "index_ok h' (AList.delete i idx)"
proof -
  have "id_at h' c = Some j \<longleftrightarrow> id_at h c = Some j \<and> j \<noteq> i" for c j
  proof (cases "c = a")
    case True
    then have "id_at h' c = None"
      by (simp add: id_at_order_at h')
    with a True show ?thesis by auto
  next
    case False
    then have "id_at h' c = id_at h c"
      by (simp add: id_at_order_at h')
    with False show ?thesis
      using index_ok_unique [OF ix a, of c] by metis
  qed
  moreover have "set (AList.delete i idx) = {(j, c). id_at h c = Some j \<and> j \<noteq> i}"
    using ix unfolding index_ok_def set_alist_delete by force
  ultimately show ?thesis
    using ix by (simp add: index_ok_def distinct_delete)
qed

text \<open>
  The unlink, the erasure from the index and the release of a node, as the full fill of a maker
  and the cancellation do them.
\<close>

lemma conc_remove:
  assumes ok: "conc_ok g b" and g: "g s = g1 @ (px, xs @ a # ys) # g2"
    and m: "book_side s b = m1 @ (px, l) # m2" and len: "length m1 = length g1"
    and nd: "pool_read (pool b) a = Some nd"
  obtains l' p' where "level_unlink l a (pool b) = Some (l', p')" "level_empty l' \<longleftrightarrow> xs @ ys = []"
    "conc_ok (g(s := g1 @ (px, xs @ ys) # g2)) (set_book_side s (m1 @ (px, l') # m2)
       (b\<lparr>index := AList.delete (oid nd) (index b), pool := release a p'\<rparr>))"
    "order_at (pool_read (release a p')) = (order_at (pool_read (pool b)))(a := None)"
    "capacity (release a p') = capacity (pool b)"
proof -
  let ?h = "pool_read (pool b)" and ?A = "set (xs @ a # ys)"
  have old: "level_rel ?h s (px, l) (px, xs @ a # ys)"
    using conc_okD(2) [OF ok, of s, unfolded m g side_ok_at [OF len]] by blast
  then have lv: "level_ok ?h l (xs @ a # ys)" and dist: "distinct (xs @ a # ys)"
    by (simp_all add: level_rel_def level_ok_def)
  obtain l' p' where un: "level_unlink l a (pool b) = Some (l', p')"
    and links: "links_only ?A (pool b) p'" and lv': "level_ok (pool_read p') l' (xs @ ys)"
    by (rule level_unlink_ok [OF conc_okD(1) [OF ok] lv])
  let ?p = "release a p'"
  obtain nd' where "pool_read p' a = Some nd'"
    using nd links_only_dom [OF links] by (metis domD domI)
  note free = op.dealloc_live [OF links_only_ok [OF links] this]
  have h': "pool_read ?p = (pool_read p')(a := None)"
    using free by blast
  have oa': "order_at (pool_read ?p) = (order_at ?h)(a := None)"
    using links by (simp add: h' links_only_def)
  have "level_ok (pool_read ?p) l' (xs @ ys)"
    by (rule iffD2 [OF level_ok_cong lv']) (use dist in \<open>auto simp: h'\<close>)
  then have new: "level_rel (pool_read ?p) s (px, l') (px, xs @ ys)"
    using old dist unfolding level_rel_def oa' by auto
  have "conc_ok (g(s := g1 @ (px, xs @ ys) # g2)) (set_book_side s (m1 @ (px, l') # m2)
       (b\<lparr>index := AList.delete (oid nd) (index b), pool := ?p\<rparr>))"
  proof (rule conc_replace_level [OF ok g m len _ _ new])
    show "pool_ok ?p" "distinct (xs @ ys)"
      using free dist by auto
    show "index_ok (pool_read ?p) (AList.delete (oid nd) (index b))"
      using index_ok_delete [OF conc_okD(4) [OF ok] _ oa'] nd by (simp add: id_at_def)
    show "set (xs @ ys) \<inter> (dom ?h - ?A) = {}"
      by auto
    show "dom (pool_read ?p) = dom ?h - ?A \<union> set (xs @ ys)"
      using level_ok_live [OF lv] dist links_only_dom [OF links] by (auto simp: h')
    show "pool_read ?p c = ?h c" if "c \<in> dom ?h - ?A" for c
      using that links by (auto simp: h' links_only_def)
  qed
  then show ?thesis
    using that un oa' level_empty_iff [OF lv'] links by (simp add: release_def links_only_def)
qed

section \<open>Matching\<close>

lemma conc_front:
  assumes "conc_ok g b" "g s = (px, a # as) # gr" "book_side s b = (px, l) # rest"
  obtains nd where "pool_read (pool b) a = Some nd" "lhead l = Some a" "\<not> level_empty l"
    "oprice nd = px" "a \<notin> set as"
proof -
  have "side_ok (pool_read (pool b)) s ((px, l) # rest) ((px, a # as) # gr)"
    using conc_okD(2) [OF assms(1), of s] by (simp add: assms)
  then have lv: "level_rel (pool_read (pool b)) s (px, l) (px, a # as)"
    by (simp add: side_ok_def)
  then have lo: "level_ok (pool_read (pool b)) l (a # as)"
    by (simp add: level_rel_def)
  obtain nd where "pool_read (pool b) a = Some nd"
    using level_ok_live [OF lo, of a] by auto
  then show ?thesis
    using that [of nd] lv lo level_empty_iff [OF lo]
    by (auto simp: level_rel_def level_ok_def order_at_Some)
qed

lemma match_level_done:
  "q \<le> 0 \<or> level_empty l \<Longrightarrow> match_level t px l idx p q ts = Some (l, idx, p, q, ts)"
  by (subst match_level.simps) auto

lemma match_level_partial:
  assumes "lhead l = Some a" "\<not> level_empty l" "pool_read p a = Some nd"
    "0 < q" "q < oqty nd" "is_s64 (oqty nd)"
  shows "match_level t px l idx p q ts =
    Some (l, idx, pool_write a (nd\<lparr>oqty := oqty nd - q\<rparr>) p, 0,
      ts @ [\<lparr>taker_id = t, maker_id = oid nd, trade_price = px, trade_qty = q\<rparr>])"
proof -
  have "s64 (oqty nd - q) = oqty nd - q"
    using assms by (simp add: is_s64_diff)
  then show ?thesis
    using assms(1-5) by (subst match_level.simps) (simp add: match_level_done s64_id [OF is_s64_0])
qed

lemma match_level_full:
  assumes "lhead l = Some a" "\<not> level_empty l" "pool_read p a = Some nd"
    "0 < oqty nd" "oqty nd \<le> q" "is_s64 q"
    "level_unlink l a (pool_write a (nd\<lparr>oqty := 0\<rparr>) p) = Some (l', p')"
  shows "match_level t px l idx p q ts =
    match_level t px l' (AList.delete (oid nd) idx) (release a p') (q - oqty nd)
      (ts @ [\<lparr>taker_id = t, maker_id = oid nd, trade_price = px, trade_qty = oqty nd\<rparr>])"
proof -
  have "s64 (q - oqty nd) = q - oqty nd"
    using assms by (simp add: is_s64_diff)
  then show ?thesis
    using assms(1-5,7) by (subst match_level.simps) (simp add: Let_def min_absorb2 s64_id [OF is_s64_0])
qed

text \<open>
  What the work on the first level of a side leaves behind: a book that links \<open>ys\<close> there and has
  changed no order outside \<open>as\<close>.
\<close>

definition level_result ::
  "(side \<Rightarrow> ghost) \<Rightarrow> order_book \<Rightarrow> side \<Rightarrow> price \<Rightarrow> ghost \<Rightarrow> (price \<times> level) list \<Rightarrow> addr list \<Rightarrow>
   order list \<Rightarrow> level \<Rightarrow> (order_id \<times> addr) list \<Rightarrow> node_pool \<Rightarrow> bool" where
  "level_result g b s px gr rest as ys l' idx' p' \<longleftrightarrow>
     (\<exists>as'. conc_ok (g(s := (px, as') # gr))
              (set_book_side s ((px, l') # rest) (b\<lparr>index := idx', pool := p'\<rparr>)) \<and>
            orders_at (pool_read p') as' = ys) \<and>
     capacity p' = capacity (pool b) \<and>
     (\<forall>c. c \<notin> set as \<longrightarrow> order_at (pool_read p') c = order_at (pool_read (pool b)) c)"

lemma level_result_refl:
  assumes "conc_ok g b" "g s = (px, as) # gr" "book_side s b = (px, l) # rest"
  shows "level_result g b s px gr rest as (orders_at (pool_read (pool b)) as) l (index b) (pool b)"
proof -
  have "g(s := (px, as) # gr) = g" "set_book_side s ((px, l) # rest) b = b"
    using assms by (auto simp: set_book_side_id)
  then show ?thesis
    using assms(1) by (auto simp: level_result_def intro!: exI [of _ as])
qed

lemma level_result_partial:
  assumes "conc_ok g b" "g s = (px, a # as) # gr" "book_side s b = (px, l) # rest"
    and nd: "pool_read (pool b) a = Some nd" and "a \<notin> set as"
  shows "level_result g b s px gr rest (a # as)
    ((order.truncate nd)\<lparr>oqty := z\<rparr> # orders_at (pool_read (pool b)) as) l (index b)
    (pool_write a (nd\<lparr>oqty := z\<rparr>) (pool b))"
proof -
  let ?h = "pool_read (pool b)"
  define p where "p = pool_write a (nd\<lparr>oqty := z\<rparr>) (pool b)"
  have o: "order_at (pool_read p) = (order_at ?h)(a \<mapsto> (order.truncate nd)\<lparr>oqty := z\<rparr>)"
    using nd by (simp add: p_def)
  have "conc_ok g (b\<lparr>pool := p\<rparr>)"
    unfolding p_def by (rule conc_write_qty [OF assms(1) nd])
  moreover have "g(s := (px, a # as) # gr) = g"
    using assms by auto
  moreover have "set_book_side s ((px, l) # rest) (b\<lparr>index := index b, pool := p\<rparr>) = b\<lparr>pool := p\<rparr>"
    using assms by (simp add: set_book_side_id)
  moreover have "orders_at (pool_read p) as = orders_at ?h as"
    using assms by (intro orders_at_cong) (auto simp: o)
  moreover have "capacity p = capacity (pool b)"
    by (simp add: p_def)
  ultimately show ?thesis
    unfolding level_result_def p_def [symmetric] by (intro conjI exI [of _ "a # as"]) (simp_all add: o)
qed

lemma level_result_step:
  assumes "level_result (g(s := (px, as) # gr))
      (set_book_side s ((px, l1) # rest) (b\<lparr>index := i1, pool := p1\<rparr>)) s px gr rest as ys l' idx' p'"
    and "order_at (pool_read p1) = (order_at (pool_read (pool b)))(a := None)"
    and "capacity p1 = capacity (pool b)"
  shows "level_result g b s px gr rest (a # as) ys l' idx' p'"
  using assms(1) by (simp add: level_result_def assms(2,3))

lemma match_level_sim:
  assumes "conc_ok g b" "g s = (px, as) # gr" "book_side s b = (px, l) # rest" "is_s64 q"
    and "\<forall>x \<in> set (orders_at (pool_read (pool b)) as). 0 < oqty x \<and> is_s64 (oqty x)"
    and "crosses s lim px" and "fill s t lim q (orders_at (pool_read (pool b)) as) = (tr, r, ys)"
  shows "\<exists>l' idx' p'.
    match_level t px l (index b) (pool b) q ts = Some (l', idx', p', r, ts @ tr) \<and>
    level_result g b s px gr rest as ys l' idx' p'"
  using assms
proof (induction as arbitrary: g b l q ts tr)
  case Nil
  have "level_empty l"
    using conc_okD(2) [OF Nil(1), of s] by (auto simp: Nil.prems side_ok_def level_rel_def level_empty_iff)
  then show ?case
    using level_result_refl [OF Nil.prems(1-3)] Nil.prems by (auto simp: match_level_done)
next
  case (Cons a as)
  let ?h = "pool_read (pool b)"
  obtain nd where nd: "?h a = Some nd" and head: "lhead l = Some a" "\<not> level_empty l"
    and px: "oprice nd = px" and fresh: "a \<notin> set as"
    using conc_front [OF Cons.prems(1-3)] .
  have oa: "order_at ?h a = Some (order.truncate nd)"
    using nd by (simp add: order_at_def)
  have pos: "0 < oqty nd" "is_s64 (oqty nd)"
    using Cons.prems(5) by (simp_all add: oa)
  consider (stop) "q \<le> 0" | (part) "0 < q" "q < oqty nd" | (full) "0 < q" "oqty nd \<le> q" by linarith
  then show ?case
  proof cases
    case stop
    then show ?thesis
      using level_result_refl [OF Cons.prems(1-3)] Cons.prems(7) by (auto simp: match_level_done oa)
  next
    case part
    then show ?thesis
      using level_result_partial [OF Cons.prems(1-3) nd fresh] Cons.prems(6,7)
        match_level_partial [OF head nd part pos(2)] by (auto simp: oa px)
  next
    case full
    let ?p = "pool_write a (nd\<lparr>oqty := 0\<rparr>) (pool b)"
    let ?t = "\<lparr>taker_id = t, maker_id = oid nd, trade_price = px, trade_qty = oqty nd\<rparr>"
    have c1: "conc_ok g (b\<lparr>pool := ?p\<rparr>)"
      by (rule conc_write_qty [OF Cons.prems(1) nd])
    obtain l1 p1 where un: "level_unlink l a ?p = Some (l1, p1)"
      and c2: "conc_ok (g(s := (px, as) # gr)) (set_book_side s ((px, l1) # rest)
         (b\<lparr>index := AList.delete (oid nd) (index b), pool := release a p1\<rparr>))" (is "conc_ok ?g2 ?b2")
      and o2: "order_at (pool_read (release a p1)) = (order_at ?h)(a := None)"
      and k2: "capacity (release a p1) = capacity (pool b)"
      by (rule conc_remove [OF c1, of s "[]" px "[]" a as gr "[]" l rest "nd\<lparr>oqty := 0\<rparr>"])
        (use nd Cons.prems(2,3) in simp_all)
    have same: "orders_at (pool_read (pool ?b2)) as = orders_at ?h as"
      using fresh by (auto simp: orders_at_def o2 simp del: pool_read_release)
    obtain tr' where tr': "fill s t lim (q - oqty nd) (orders_at ?h as) = (tr', r, ys)"
      and tr: "tr = ?t # tr'"
      using Cons.prems(6,7) full by (auto simp: oa px split: prod.splits)
    have q': "is_s64 (q - oqty nd)"
      using full pos Cons.prems(4) by (simp add: is_s64_diff)
    have "\<exists>l' idx' p'. match_level t px l1 (index ?b2) (pool ?b2) (q - oqty nd) (ts @ [?t]) =
          Some (l', idx', p', r, (ts @ [?t]) @ tr') \<and> level_result ?g2 ?b2 s px gr rest as ys l' idx' p'"
      by (rule Cons.IH [OF c2 _ _ q' _ Cons.prems(6)]) (use Cons.prems(5) tr' same in \<open>simp_all del: pool_read_release\<close>)
    then show ?thesis
      using level_result_step [OF _ o2 k2]
        match_level_full [OF head nd pos(1) full(2) Cons.prems(4) un] by (auto simp: tr)
  qed
qed

lemma level_result_abs:
  assumes ok: "conc_ok g b" and g: "g s = (px, as) # gr"
    and frame: "\<And>c. c \<notin> set as \<Longrightarrow> order_at (pool_read p') c = order_at (pool_read (pool b)) c"
  shows "orders_at (pool_read p') (addrs gr) = orders_at (pool_read (pool b)) (addrs gr)"
    and "orders_at (pool_read p') (addrs (g (opposite s))) =
         orders_at (pool_read (pool b)) (addrs (g (opposite s)))"
proof -
  have "set as \<inter> set (addrs gr) = {}" "set as \<inter> set (addrs (g (opposite s))) = {}"
    using conc_okD(3,5) [OF ok, of s] by (auto simp: g)
  then show "orders_at (pool_read p') (addrs gr) = orders_at (pool_read (pool b)) (addrs gr)"
    "orders_at (pool_read p') (addrs (g (opposite s))) =
         orders_at (pool_read (pool b)) (addrs (g (opposite s)))"
    by (intro orders_at_cong frame; blast)+
qed

lemma abs_of_sideI:
  assumes "orders_at (pool_read (pool b')) (addrs (g' s)) = ys"
    "orders_at (pool_read (pool b')) (addrs (g' (opposite s))) = aside (opposite s) A"
    "capacity (pool b') = acap A" "next_id b' = anext_id A" "next_ts b' = anext_ts A"
  shows "abs_of g' b' = set_aside s ys A"
  using assms by (intro abook_eqI) (auto simp: side_neq_iff)

lemma match_against_stop:
  assumes "q \<le> 0 \<or> (\<forall>px l rest. book_side s b = (px, l) # rest \<longrightarrow> \<not> crosses s lim px)"
  shows "match_against s t lim b q ts = Some (b, q, ts)"
  using assms by (subst match_against.simps) (auto split: list.splits)

text \<open>One round of the outer loop: the first level, emptied or not.\<close>

lemma match_round:
  assumes ok: "conc_ok g b" and ne: "nonempty g" and g: "g s = (px, as) # gr"
    and m: "book_side s b = (px, l) # rest" and q: "is_s64 q" "0 < q" and cross: "crosses s lim px"
    and pos: "\<forall>x \<in> set (orders_at (pool_read (pool b)) as). 0 < oqty x \<and> is_s64 (oqty x)"
    and f: "fill s t lim q (orders_at (pool_read (pool b)) as) = (tr, r, ys)"
  obtains b' g' where "match_against s t lim b q ts = match_against s t lim b' r (ts @ tr)"
    "conc_ok g' b'" "nonempty g'" "ys = [] \<longrightarrow> g' s = gr"
    "abs_of g' b' = set_aside s (ys @ orders_at (pool_read (pool b)) (addrs gr)) (abs_of g b)"
proof -
  obtain l' i' p' where ml: "match_level t px l (index b) (pool b) q ts = Some (l', i', p', r, ts @ tr)"
    and res: "level_result g b s px gr rest as ys l' i' p'"
    using match_level_sim [OF ok g m q(1) pos cross f] by blast
  obtain as' where ok1: "conc_ok (g(s := (px, as') # gr))
        (set_book_side s ((px, l') # rest) (b\<lparr>index := i', pool := p'\<rparr>))" (is "conc_ok ?g1 ?b1")
    and ys: "orders_at (pool_read p') as' = ys" and cap: "capacity p' = capacity (pool b)"
    and frame: "\<And>c. c \<notin> set as \<Longrightarrow> order_at (pool_read p') c = order_at (pool_read (pool b)) c"
    using res by (auto simp: level_result_def)
  note same = level_result_abs [OF ok g frame]
  have side1: "side_ok (pool_read p') s ((px, l') # rest) ((px, as') # gr)"
    using conc_okD(2) [OF ok1, of s] by simp
  then have lv: "level_ok (pool_read p') l' as'"
    by (simp add: side_ok_def level_rel_def)
  have as': "as' = [] \<longleftrightarrow> ys = []"
    using ys by (auto simp: orders_at_def)
  let ?b = "set_book_side s (if level_empty l' then rest else (px, l') # rest) (b\<lparr>index := i', pool := p'\<rparr>)"
  let ?g = "g(s := if ys = [] then gr else (px, as') # gr)"
  have step: "match_against s t lim b q ts = match_against s t lim ?b r (ts @ tr)"
    using q cross by (subst match_against.simps) (simp add: m ml)
  have "conc_ok ?g ?b"
  proof (cases "ys = []")
    case True
    then have "as' = []" using as' by simp
    with lv side1 have "level_ok (pool_read p') l' []" "sorted_wrt (before s) (px # map fst rest)"
      by (simp_all add: side_ok_def)
    then show ?thesis
      using conc_empty_level [of "[]" "[]" ?b l' ?g s gr ?g1 px rest] ok1 True
        level_empty_iff [OF lv] as' by simp
  next
    case False
    then show ?thesis using ok1 level_empty_iff [OF lv] as' by simp
  qed
  moreover have "\<forall>e \<in> set gr. snd e \<noteq> []"
    using ne g unfolding nonempty_def by (metis list.set_intros(2))
  then have "nonempty ?g"
    using ne as' by (auto simp: nonempty_def)
  moreover have "abs_of ?g ?b = set_aside s (ys @ orders_at (pool_read (pool b)) (addrs gr)) (abs_of g b)"
    by (rule abs_of_sideI) (use ys same cap in auto)
  ultimately show ?thesis
    using that step by auto
qed

lemma match_against_sim:
  assumes "conc_ok g b" "nonempty g" "g s = gl" "is_s64 q"
    and "\<forall>x \<in> set (orders_at (pool_read (pool b)) (addrs gl)). 0 < oqty x \<and> is_s64 (oqty x)"
    and "fill s t lim q (orders_at (pool_read (pool b)) (addrs gl)) = (tr, r, ys)"
  shows "\<exists>b' g'. match_against s t lim b q ts = Some (b', r, ts @ tr) \<and>
    conc_ok g' b' \<and> nonempty g' \<and> abs_of g' b' = set_aside s ys (abs_of g b)"
  using assms
proof (induction gl arbitrary: g b q ts tr)
  case Nil
  have "book_side s b = []"
    using conc_okD(2) [OF Nil(1), of s] by (simp add: Nil.prems side_ok_def)
  moreover have "abs_of g b = set_aside s [] (abs_of g b)"
    by (rule abs_of_sideI) (simp_all add: Nil.prems)
  ultimately show ?case
    using Nil.prems by (auto simp: match_against_stop)
next
  case (Cons e gr)
  obtain px as where e: "e = (px, as)" by (cases e)
  let ?h = "pool_read (pool b)"
  have side: "side_ok ?h s (book_side s b) ((px, as) # gr)"
    using conc_okD(2) [OF Cons.prems(1), of s] by (simp add: Cons.prems e)
  obtain l rest where m: "book_side s b = (px, l) # rest"
    using side by (rule side_ok_split [of _ _ _ "[]", simplified])
  have prices: "\<forall>x \<in> set (orders_at ?h as). oprice x = px"
    using side by (auto simp: m side_ok_def level_rel_def orders_at_def)
  have ne: "as \<noteq> []"
    using Cons.prems(2,3) unfolding nonempty_def e by (metis list.set_intros(1) snd_conv)
  note gs = Cons.prems(3) [unfolded e]
  show ?case
  proof (cases "0 < q \<and> crosses s lim px")
    case False
    then have "match_against s t lim b q ts = Some (b, q, ts)"
      using m by (intro match_against_stop) auto
    moreover have "(tr, r, ys) = ([], q, orders_at ?h (addrs (e # gr)))"
      using False prices ne Cons.prems(6) by (cases as) (auto simp: e)
    moreover have "abs_of g b = set_aside s (orders_at ?h (addrs (e # gr))) (abs_of g b)"
      by (rule abs_of_sideI) (simp_all add: Cons.prems)
    ultimately show ?thesis
      using Cons.prems by auto
  next
    case True
    then have cross: "crosses s lim px" and q: "0 < q" by auto
    obtain tr1 r1 ys1 where f1: "fill s t lim q (orders_at ?h as) = (tr1, r1, ys1)"
      by (metis prod_cases3)
    have pos: "\<forall>x \<in> set (orders_at ?h as). 0 < oqty x \<and> is_s64 (oqty x)"
      "\<forall>x \<in> set (orders_at ?h (addrs gr)). 0 < oqty x \<and> is_s64 (oqty x)"
      using Cons.prems(5) by (auto simp: e)
    obtain b1 g1 where step: "match_against s t lim b q ts = match_against s t lim b1 r1 (ts @ tr1)"
      and ok1: "conc_ok g1 b1" "nonempty g1" "ys1 = [] \<longrightarrow> g1 s = gr"
      and abs1: "abs_of g1 b1 = set_aside s (ys1 @ orders_at ?h (addrs gr)) (abs_of g b)"
      by (rule match_round [OF Cons.prems(1,2) gs m Cons.prems(4) q cross pos(1) f1])
    have split: "(tr, r, ys) = (if ys1 = []
        then let (ts', r', zs') = fill s t lim r1 (orders_at ?h (addrs gr)) in (tr1 @ ts', r', zs')
        else (tr1, r1, ys1 @ orders_at ?h (addrs gr)))"
      using Cons.prems(6) f1 prices cross by (simp add: e fill_append)
    show ?thesis
    proof (cases "ys1 = []")
      case True
      have "0 \<le> r1" "r1 \<le> q"
        using fill_remaining [OF f1] pos(1) q by auto
      then have r1: "is_s64 r1"
        by (intro is_s64_between [OF is_s64_0 Cons.prems(4)])
      obtain tr2 where f2: "fill s t lim r1 (orders_at ?h (addrs gr)) = (tr2, r, ys)" "tr = tr1 @ tr2"
        using split True by (auto split: prod.splits)
      have gr: "g1 s = gr" and same: "orders_at (pool_read (pool b1)) (addrs gr) = orders_at ?h (addrs gr)"
        using ok1(3) True arg_cong [OF abs1, of "aside s"] by auto
      have "\<exists>b' g'. match_against s t lim b1 r1 (ts @ tr1) = Some (b', r, (ts @ tr1) @ tr2) \<and>
        conc_ok g' b' \<and> nonempty g' \<and> abs_of g' b' = set_aside s ys (abs_of g1 b1)"
        by (rule Cons.IH [OF ok1(1,2) gr r1]) (use pos f2 same in simp_all)
      then show ?thesis
        by (auto simp: step f2(2) abs1)
    next
      case False
      then have "r1 \<le> 0"
        using fill_stops [OF _ f1] prices cross by simp
      with False show ?thesis
        using split ok1 abs1 by (auto simp: step match_against_stop)
    qed
  qed
qed

section \<open>Resting a remainder\<close>

lemma conc_room:
  assumes "conc_ok g b"
  shows "in_use (pool b) = length (resting (abs_of g b))"
    and "pool_room (pool b) = capacity (pool b) - length (resting (abs_of g b))"
proof -
  have "card (dom (pool_read (pool b))) = length (addrs (g Buy)) + length (addrs (g Sell))"
    using conc_okD(3,5,6) [OF assms, of Buy] conc_okD(3) [OF assms, of Sell]
    by (metis List.finite_set card_Un_disjoint distinct_card opposite.simps(1))
  then show "in_use (pool b) = length (resting (abs_of g b))"
    using pool_in_use_card(1) [OF conc_okD(1) [OF assms]] by (simp add: length_resting [of _ Buy])
  then show "pool_room (pool b) = capacity (pool b) - length (resting (abs_of g b))"
    by (simp add: pool_room_def)
qed

lemma list_all2_fst_image:
  assumes "list_all2 (level_rel h s) m g" "\<forall>x \<in> fst ` set m. P x"
  shows "\<forall>e \<in> set g. P (fst e)"
  using assms by (induction rule: list_all2_induct) (auto simp: level_rel_def)

text \<open>The level for a price: the one of the map or, as \<open>operator[]\<close> makes it, an empty one.\<close>

lemma locate_level:
  assumes ok: "conc_ok g b" and ne: "nonempty g"
  obtains l m1 m2 g1 as g2 where
    "(case omap_find (before s) px (book_side s b) of Some l \<Rightarrow> l | None \<Rightarrow> empty_level) = l"
    "\<forall>l'. omap_put (before s) px l' (book_side s b) = m1 @ (px, l') # m2"
    "length m1 = length g1" "addrs (g s) = addrs g1 @ as @ addrs g2"
    "conc_ok (g(s := g1 @ (px, as) # g2)) (set_book_side s (m1 @ (px, l) # m2) b)"
    "\<forall>e \<in> set g1. snd e \<noteq> [] \<and> before s (fst e) px" "\<forall>e \<in> set g2. snd e \<noteq> [] \<and> before s px (fst e)"
proof -
  have side: "side_ok (pool_read (pool b)) s (book_side s b) (g s)"
    by (rule conc_okD(2) [OF ok])
  have nes: "\<forall>e \<in> set (g s). snd e \<noteq> []"
    using ne by (simp add: nonempty_def)
  have "sorted_wrt (before s) (map fst (book_side s b))"
    using side by (simp add: side_ok_def)
  then show ?thesis
  proof (cases rule: pm.split_at [of s _ px])
    case (1 m1 m2)
    obtain g1 g2 where g: "g s = g1 @ g2" "list_all2 (level_rel (pool_read (pool b)) s) m1 g1"
      "list_all2 (level_rel (pool_read (pool b)) s) m2 g2"
      using side by (auto simp: side_ok_def 1(1) list_all2_append1)
    have len: "length m1 = length g1"
      using g(2) by (rule list_all2_lengthD)
    have "conc_ok (g(s := g1 @ (px, []) # g2)) (set_book_side s (m1 @ (px, empty_level) # m2) b)"
      using conc_empty_level [of m1 g1 b empty_level g s g2 "g(s := g1 @ (px, []) # g2)" px m2]
        ok g(1) len 1 side level_ok_Nil by (auto simp: side_ok_def sorted_wrt_append)
    then show ?thesis
      using that [of empty_level m1 m2 g1 "[]" g2] 1(1) g(1) len nes
        pm.find_miss [OF 1(2,3)] pm.put_miss [OF 1(2,3)]
        list_all2_fst_image [OF g(2) 1(2)] list_all2_fst_image [OF g(3) 1(3)] by simp
  next
    case (2 m1 l m2)
    obtain g1 e g2 where g: "g s = g1 @ e # g2" "list_all2 (level_rel (pool_read (pool b)) s) m1 g1"
      "list_all2 (level_rel (pool_read (pool b)) s) m2 g2" "level_rel (pool_read (pool b)) s (px, l) e"
      using side by (auto simp: side_ok_def 2(1) list_all2_append1 list_all2_Cons1)
    obtain as where e: "e = (px, as)"
      using g(4) by (cases e) (simp add: level_rel_def)
    have len: "length m1 = length g1"
      using g(2) by (rule list_all2_lengthD)
    have "g(s := g1 @ (px, as) # g2) = g" "set_book_side s (m1 @ (px, l) # m2) b = b"
      using g(1) 2(1) by (auto simp: e set_book_side_id)
    then show ?thesis
      using that [of l m1 m2 g1 as g2] 2(1) g(1) len nes ok pm.find_hit [OF 2(2)] pm.put_hit [OF 2(2)]
        list_all2_fst_image [OF g(2) 2(2)] list_all2_fst_image [OF g(3) 2(3)] by (simp add: e)
  qed
qed

lemma index_ok_insert:
  assumes ix: "index_ok h idx" and fresh: "\<And>a. id_at h a \<noteq> Some i" and "h n = None"
    and h': "order_at h' = (order_at h)(n \<mapsto> x)" "oid x = i"
  shows "index_ok h' (AList.update i n idx)"
proof -
  have "i \<notin> fst ` set idx"
    using ix fresh by (auto simp: index_ok_def)
  then have "set (AList.update i n idx) = insert (i, n) {(j, c). id_at h c = Some j}"
    using ix by (simp add: set_alist_update_fresh index_ok_def)
  moreover have "id_at h' c = (if c = n then Some i else id_at h c)" for c
    by (simp add: id_at_order_at h')
  moreover have "id_at h n = None"
    using assms(3) by (simp add: id_at_def)
  ultimately show ?thesis
    using ix by (auto simp: index_ok_def distinct_update)
qed

lemma conc_push:
  assumes ok: "conc_ok g b" and g: "g s = g1 @ (px, as) # g2"
    and m: "book_side s b = m1 @ (px, l) # m2" and len: "length m1 = length g1"
    and room: "0 < pool_room (pool b)" and fresh: "\<And>a. id_at (pool_read (pool b)) a \<noteq> Some (oid nd)"
    and nd: "oside nd = s" "oprice nd = px"
  obtains n p1 l' p3 where "acquire (pool b) = Some (Some n, p1)"
    "level_push_back l n (pool_write n nd p1) = Some (l', p3)"
    "conc_ok (g(s := g1 @ (px, as @ [n]) # g2)) (set_book_side s (m1 @ (px, l') # m2)
       (b\<lparr>index := AList.update (oid nd) n (index b), pool := p3\<rparr>))"
    "order_at (pool_read p3) = (order_at (pool_read (pool b)))(n \<mapsto> order.truncate nd)"
    "n \<notin> dom (pool_read (pool b))" "capacity p3 = capacity (pool b)"
proof -
  let ?h = "pool_read (pool b)"
  have old: "level_rel ?h s (px, l) (px, as)"
    using conc_okD(2) [OF ok, of s, unfolded m g side_ok_at [OF len]] by blast
  then have lv: "level_ok ?h l as" and dist: "distinct as"
    by (simp_all add: level_rel_def level_ok_def)
  obtain n p1 where acq: "acquire (pool b) = Some (Some n, p1)" and n: "?h n = None"
    and put: "pool_ok (pool_write n nd p1)" "pool_read (pool_write n nd p1) = ?h(n \<mapsto> nd)"
    using op.alloc_room [OF conc_okD(1) [OF ok] room] by blast
  have as: "n \<notin> set as"
    using level_ok_live [OF lv] n by force
  have lv1: "level_ok (pool_read (pool_write n nd p1)) l as"
    by (rule iffD2 [OF level_ok_cong lv]) (use as put(2) in auto)
  have n1: "pool_read (pool_write n nd p1) n = Some nd"
    using put(2) by simp
  obtain l' p3 where push: "level_push_back l n (pool_write n nd p1) = Some (l', p3)"
    and links: "links_only (insert n (set as)) (pool_write n nd p1) p3"
    and lv3: "level_ok (pool_read p3) l' (as @ [n])"
    by (rule level_push_back_ok [OF put(1) lv1 n1 as])
  have o3: "order_at (pool_read p3) = (order_at ?h)(n \<mapsto> order.truncate nd)"
    using links put(2) unfolding links_only_def by (metis order_at_upd(1))
  have dom3: "dom (pool_read p3) = insert n (dom ?h)"
    using links_only_dom [OF links] put(2) by (metis dom_fun_upd option.distinct(1))
  have lr: "level_rel (pool_read p3) s (px, l') (px, as @ [n])"
    using lv3 old as nd unfolding level_rel_def o3 by auto
  have "conc_ok (g(s := g1 @ (px, as @ [n]) # g2)) (set_book_side s (m1 @ (px, l') # m2)
       (b\<lparr>index := AList.update (oid nd) n (index b), pool := p3\<rparr>))"
  proof (rule conc_replace_level [OF ok g m len links_only_ok [OF links] _ lr])
    show "index_ok (pool_read p3) (AList.update (oid nd) n (index b))"
      by (rule index_ok_insert [OF conc_okD(4) [OF ok] fresh n o3]) simp
    show "distinct (as @ [n])" "set (as @ [n]) \<inter> (dom ?h - set as) = {}"
      using dist as n by auto
    show "dom (pool_read p3) = dom ?h - set as \<union> set (as @ [n])"
      using dom3 level_ok_live [OF lv] by auto
    show "pool_read p3 c = ?h c" if "c \<in> dom ?h - set as" for c
    proof -
      have "c \<noteq> n" "c \<notin> insert n (set as)"
        using that n by auto
      then show ?thesis
        using links put(2) unfolding links_only_def by (metis fun_upd_other)
    qed
  qed
  moreover have "capacity p3 = capacity (pool b)"
    using links acquire_capacity [OF acq] by (simp add: links_only_def)
  ultimately show ?thesis
    using that acq push o3 n by blast
qed

lemma conc_counters [simp]:
  "conc_ok g (b\<lparr>next_id := i\<rparr>) = conc_ok g b" "conc_ok g (b\<lparr>next_ts := t\<rparr>) = conc_ok g b"
  by (simp_all add: conc_ok_def)

lemma side_ok_orders:
  assumes "side_ok h s m g" "e \<in> set g" "a \<in> set (snd e)"
  shows "\<exists>x. order_at h a = Some x \<and> oprice x = fst e \<and> oside x = s"
proof -
  obtain e' where "level_rel h s e' e"
    using assms(1,2) unfolding side_ok_def by (metis in_set_conv_nth list_all2_conv_all_nth)
  then show ?thesis
    using assms(3) by (auto simp: level_rel_def)
qed

text \<open>The back of the level of a price is the place of the newest order there.\<close>

lemma insort_at_level:
  assumes side: "side_ok h s m (g1 @ (px, as) # g2)"
    and before: "\<forall>e \<in> set g1. before s (fst e) px" "\<forall>e \<in> set g2. before s px (fst e)"
    and x: "oprice x = px" "\<And>a y. order_at h a = Some y \<Longrightarrow> oid y < oid x"
  shows "insort_key (prio s) x (orders_at h (addrs g1 @ as @ addrs g2)) =
         orders_at h (addrs g1 @ as) @ x # orders_at h (addrs g2)"
proof -
  have get: "\<exists>y. order_at h a = Some y \<and> oprice y = fst e \<and> oid y < oid x"
    if "e \<in> set (g1 @ (px, as) # g2)" "a \<in> set (snd e)" for e a
    using side_ok_orders [OF side that] x(2) by blast
  have "prio s y < prio s x" if y: "y \<in> set (orders_at h (addrs g1 @ as))" for y
  proof -
    obtain a where a: "a \<in> set (addrs (g1 @ [(px, as)]))" "y = the (order_at h a)"
      using y by (auto simp: orders_at_def)
    then obtain e where "e \<in> set (g1 @ [(px, as)])" "a \<in> set (snd e)"
      by (auto simp only: in_addrs)
    then show ?thesis
      using a get [of e a] before(1) x(1) by (auto simp: prio_def less_prod_def before_rank)
  qed
  moreover have "prio s x \<le> prio s y" if y: "y \<in> set (orders_at h (addrs g2))" for y
  proof -
    obtain a e where a: "e \<in> set g2" "a \<in> set (snd e)" "y = the (order_at h a)"
      using y by (auto simp: orders_at_def addrs_def)
    then show ?thesis
      using get [of e a] before(2) x(1) by (auto simp: prio_def less_eq_prod_def before_rank)
  qed
  ultimately show ?thesis
    using insort_key_between [of "orders_at h (addrs g1 @ as)" "prio s" x "orders_at h (addrs g2)"]
    by simp
qed

lemma conc_ids:
  assumes "conc_ok g b"
  shows "set (resting (abs_of g b)) = {x. \<exists>a. order_at (pool_read (pool b)) a = Some x}"
proof -
  let ?h = "pool_read (pool b)"
  have "set (resting (abs_of g b)) = (\<lambda>a. the (order_at ?h a)) ` dom ?h"
    unfolding conc_okD(6) [OF assms, of Buy, symmetric]
    by (simp add: set_resting [of _ Buy] orders_at_def image_Un)
  also have "dom ?h = dom (order_at ?h)"
    by (simp add: dom_order_at)
  also have "(\<lambda>a. the (f a)) ` dom f = {x. \<exists>a. f a = Some x}" for f :: "addr \<Rightarrow> order option"
    by force
  finally show ?thesis .
qed

lemma rest_order_sim:
  assumes ok: "conc_ok g b" and ne: "nonempty g" and ts: "next_ts b + 1 < 2 ^ 64"
    and ids: "\<forall>y \<in> set (resting (abs_of g b)). oid y < i"
    and x: "x = \<lparr>oid = i, oside = s, oprice = px, oqty = r, ots = next_ts b\<rparr>"
    and A: "A = abs_of g b"
  shows "\<exists>b' g'. rest_order s i px r b = Some b' \<and> conc_ok g' b' \<and> nonempty g' \<and>
    abs_of g' b' = (if length (resting A) < acap A
       then set_aside s (insort_key (prio s) x (aside s A)) (A\<lparr>anext_ts := anext_ts A + 1\<rparr>) else A)"
proof (cases "length (resting A) < acap A")
  case False
  then have "acquire (pool b) = Some (None, pool b)"
    using op.alloc_full [OF conc_okD(1) [OF ok]] conc_room(2) [OF ok] by (simp add: A)
  then have "rest_order s i px r b = Some b"
    by (simp add: rest_order_def)
  with False show ?thesis using ok ne A by auto
next
  case True
  let ?h = "pool_read (pool b)"
  define nd where "nd = \<lparr>oid = i, oside = s, oprice = px, oqty = r, ots = next_ts b,
    node_prev = None, node_next = None\<rparr>"
  have nd: "oside nd = s" "oprice nd = px" "order.truncate nd = x" "oid nd = i"
    by (simp_all add: nd_def x order.truncate_def)
  obtain m1 l m2 g1 as g2 where
    l: "(case omap_find (before s) px (book_side s b) of Some l \<Rightarrow> l | None \<Rightarrow> empty_level) = l"
    and put: "\<forall>l'. omap_put (before s) px l' (book_side s b) = m1 @ (px, l') # m2"
    and len: "length m1 = length g1" and gs: "addrs (g s) = addrs g1 @ as @ addrs g2"
    and ok1: "conc_ok (g(s := g1 @ (px, as) # g2)) (set_book_side s (m1 @ (px, l) # m2) b)"
      (is "conc_ok ?g1 ?b1")
    and near: "\<forall>e \<in> set g1. snd e \<noteq> [] \<and> before s (fst e) px" "\<forall>e \<in> set g2. snd e \<noteq> [] \<and> before s px (fst e)"
    by (rule locate_level [OF ok ne, of s px])
  have old: "\<And>a y. order_at ?h a = Some y \<Longrightarrow> oid y < i"
    using ids unfolding conc_ids [OF ok] by blast
  have fresh: "id_at (pool_read (pool ?b1)) a \<noteq> Some (oid nd)" for a
    using old by (auto simp: id_at_order_at nd)
  have gs1: "?g1 s = g1 @ (px, as) # g2" "book_side s ?b1 = m1 @ (px, l) # m2"
    by simp_all
  have room: "0 < pool_room (pool ?b1)"
    using True conc_room(2) [OF ok] by (simp add: A)
  obtain n p1 l' p3 where acq: "acquire (pool b) = Some (Some n, p1)"
    and push: "level_push_back l n (pool_write n nd p1) = Some (l', p3)"
    and ok3: "conc_ok (g(s := g1 @ (px, as @ [n]) # g2)) (set_book_side s (m1 @ (px, l') # m2)
       (b\<lparr>index := AList.update i n (index b), pool := p3\<rparr>))" (is "conc_ok ?g3 ?b3")
    and o3: "order_at (pool_read p3) = (order_at ?h)(n \<mapsto> x)" and n: "n \<notin> dom ?h"
    and cap: "capacity p3 = capacity (pool b)"
    by (rule conc_push [where g = ?g1 and b = ?b1, OF ok1 gs1 len room fresh nd(1,2)]) (simp add: nd)
  let ?b = "?b3\<lparr>next_ts := next_ts b + 1\<rparr>"
  have "rest_order s i px r b = Some ?b"
    using acq push ts by (simp add: rest_order_def l put nd_def u64_Suc)
  moreover have "nonempty ?g3"
    using ne near by (auto simp: nonempty_def)
  moreover have "abs_of ?g3 ?b = set_aside s (insort_key (prio s) x (aside s A)) (A\<lparr>anext_ts := anext_ts A + 1\<rparr>)"
  proof (rule abs_of_sideI)
    have same: "orders_at (pool_read p3) as = orders_at ?h as" if "set as \<subseteq> dom ?h" for as
      using that n by (intro orders_at_cong) (auto simp: o3)
    note live = conc_live [OF ok, of s] conc_live [OF ok, of "opposite s"]
    have "side_ok ?h s (m1 @ (px, l) # m2) (g1 @ (px, as) # g2)"
      using conc_okD(2) [OF ok1, of s] by simp
    then have "insort_key (prio s) x (aside s A) = orders_at ?h (addrs g1 @ as) @ x # orders_at ?h (addrs g2)"
      using insort_at_level [of ?h s _ g1 px as g2 x] near old by (simp add: A gs x)
    then show "orders_at (pool_read (pool ?b)) (addrs (?g3 s)) = insort_key (prio s) x (aside s A)"
      using same live(1) by (simp add: gs o3)
    show "orders_at (pool_read (pool ?b)) (addrs (?g3 (opposite s))) =
        aside (opposite s) (A\<lparr>anext_ts := anext_ts A + 1\<rparr>)"
      using same live(2) by (simp add: A)
  qed (simp_all add: A cap)
  moreover have "conc_ok ?g3 ?b"
    using ok3 by (simp only: conc_counters)
  ultimately show ?thesis
    using True by (intro exI [of _ ?b] exI [of _ ?g3]) simp
qed

section \<open>The operations implement the specification\<close>

lemma abs_of_next_id: "abs_of g (b\<lparr>next_id := i\<rparr>) = (abs_of g b)\<lparr>anext_id := i\<rparr>"
  by (simp add: abs_of_def)

lemma place_limit_sim:
  assumes rel: "book_abs b A" and inv: "ainv A" and q: "is_s64 q" and i: "anext_id A + 1 < 2 ^ 64"
    and pl: "aplace s px q A = (i, tr, A')"
  shows "\<exists>b'. place_limit s px q ts b = Some (i, ts @ tr, b') \<and> book_abs b' A'"
proof -
  obtain g where ok: "conc_ok g b" and ne: "nonempty g" and A: "A = abs_of g b"
    using rel by (auto simp: book_abs_def)
  let ?o = "opposite s" and ?b0 = "b\<lparr>next_id := anext_id A + 1\<rparr>"
  obtain tr' r ys where f: "fill ?o (anext_id A) px q (aside ?o A) = (tr', r, ys)"
    by (metis prod_cases3)
  define A1 where "A1 = set_aside ?o ys (A\<lparr>anext_id := anext_id A + 1\<rparr>)"
  note pl = pl [unfolded aplace_eq [OF f A1_def]]
  have pos: "\<forall>x \<in> set (aside ?o A). 0 < oqty x \<and> is_s64 (oqty x)"
    using ainv_orderD [OF inv] by (fastforce simp: order_ok_def is_s64_def int64_min_def)
  obtain b1 g1 where ma: "match_against ?o (anext_id A) px ?b0 q ts = Some (b1, r, ts @ tr')"
    and ok1: "conc_ok g1 b1" "nonempty g1" and abs1: "abs_of g1 b1 = A1"
    using match_against_sim [of g ?b0 ?o _ q "anext_id A" px tr' r ys ts] ok ne q pos f
    by (auto simp: A1_def abs_of_next_id A)
  have b0: "u64 (int (anext_id A) + 1) = anext_id A + 1" "next_id b = anext_id A"
    using i by (simp_all add: A u64_Suc)
  show ?thesis
  proof (cases "0 < r")
    case False
    then show ?thesis
      using pl ma ok1 abs1 by (auto simp: place_limit_def b0 book_abs_def)
  next
    case True
    have ids: "\<forall>y \<in> set (resting (abs_of g1 b1)). oid y < anext_id A"
      using fill_ids [OF inv f] by (auto simp: abs1 set_resting [of _ s] A1_def)
    have cnt: "next_ts b1 = anext_ts A" "acap A1 = acap A"
      using arg_cong [OF abs1, of anext_ts] by (simp_all add: A1_def)
    then have "next_ts b1 + 1 < 2 ^ 64"
      using inv i by (simp add: ainv_def)
    then obtain b2 g2 where "rest_order s (anext_id A) px r b1 = Some b2" "conc_ok g2 b2" "nonempty g2"
      "abs_of g2 b2 = A'"
      using rest_order_sim [OF ok1 _ ids refl refl, of s px r] pl True
      by (auto simp: abs1 cnt A1_def)
    then show ?thesis
      using pl ma True by (auto simp: place_limit_def b0 book_abs_def)
  qed
qed

lemma filter_orders_at:
  assumes ix: "index_ok h idx" and a: "id_at h a = Some i" and "set as \<subseteq> dom h"
  shows "filter (\<lambda>x. oid x \<noteq> i) (orders_at h as) = orders_at h (filter (\<lambda>c. c \<noteq> a) as)"
  using assms(3)
proof (induction as)
  case (Cons c as)
  then obtain nd where "h c = Some nd" by auto
  then have "oid (the (order_at h c)) = i \<longleftrightarrow> id_at h c = Some i"
    by (simp add: order_at_def id_at_def)
  then have "oid (the (order_at h c)) = i \<longleftrightarrow> c = a"
    using index_ok_unique [OF ix a, of c] a by auto
  then show ?case using Cons by simp
qed simp

lemma map_of_index:
  assumes "index_ok h idx"
  shows "map_of idx i = Some a \<longleftrightarrow> id_at h a = Some i"
  using assms by (simp add: index_ok_def map_of_eq_Some_iff)

lemma filter_unique:
  assumes "distinct (xs @ a # ys)"
  shows "filter (\<lambda>c. c \<noteq> a) (xs @ a # ys) = xs @ ys"
proof -
  have "filter (\<lambda>c. c \<noteq> a) xs = xs" "filter (\<lambda>c. c \<noteq> a) ys = ys"
    using assms by (auto intro!: filter_True)
  then show ?thesis by simp
qed

text \<open>The removal of a live node, with the erasure of its level when it was the last there.\<close>

lemma conc_erase:
  assumes ok: "conc_ok g b" and ne: "nonempty g" and nd: "pool_read (pool b) a = Some nd"
    and s: "s = oside nd" and px: "px = oprice nd"
  obtains l l' p' g' where "omap_find (before s) px (book_side s b) = Some l"
    "level_unlink l a (pool b) = Some (l', p')"
    "conc_ok g' (set_book_side s
       (if level_empty l' then omap_erase (before s) px (book_side s b)
        else omap_put (before s) px l' (book_side s b))
       (b\<lparr>index := AList.delete (oid nd) (index b), pool := release a p'\<rparr>))"
    "nonempty g'" "\<forall>t. addrs (g' t) = filter (\<lambda>c. c \<noteq> a) (addrs (g t))"
    "order_at (pool_read (release a p')) = (order_at (pool_read (pool b)))(a := None)"
    "capacity p' = capacity (pool b)"
proof -
  let ?h = "pool_read (pool b)"
  obtain t e where e: "e \<in> set (g t)" "a \<in> set (snd e)"
    using conc_okD(6) [OF ok, of Buy] nd by (metis Un_iff domI in_addrs)
  then obtain x where "order_at ?h a = Some x" "oprice x = fst e" "oside x = t"
    using side_ok_orders [OF conc_okD(2) [OF ok] e] by blast
  then have t: "t = s" and "fst e = px"
    using nd by (auto simp: order_at_def s px)
  then obtain g1 g2 xs ys where gs: "g s = g1 @ (px, xs @ a # ys) # g2"
    using e by (metis prod.collapse split_list)
  have side: "side_ok ?h s (book_side s b) (g1 @ (px, xs @ a # ys) # g2)"
    using conc_okD(2) [OF ok, of s] by (simp add: gs)
  obtain m1 l m2 where m: "book_side s b = m1 @ (px, l) # m2" and len: "length m1 = length g1"
    and near: "\<forall>x \<in> fst ` set m1. before s x px" "\<forall>x \<in> fst ` set m2. before s px x"
    by (rule side_ok_split [OF side])
  obtain l' p' where un: "level_unlink l a (pool b) = Some (l', p')" "level_empty l' \<longleftrightarrow> xs @ ys = []"
    and ok1: "conc_ok (g(s := g1 @ (px, xs @ ys) # g2)) (set_book_side s (m1 @ (px, l') # m2)
       (b\<lparr>index := AList.delete (oid nd) (index b), pool := release a p'\<rparr>))" (is "conc_ok ?g1 ?b1")
    and o1: "order_at (pool_read (release a p')) = (order_at ?h)(a := None)"
    and cap: "capacity (release a p') = capacity (pool b)"
    by (rule conc_remove [OF ok gs m len nd])
  let ?g = "g(s := if xs @ ys = [] then g1 @ g2 else g1 @ (px, xs @ ys) # g2)"
  let ?b = "set_book_side s (if level_empty l' then m1 @ m2 else m1 @ (px, l') # m2)
       (b\<lparr>index := AList.delete (oid nd) (index b), pool := release a p'\<rparr>)"
  have "conc_ok ?g ?b"
  proof (cases "xs @ ys = []")
    case True
    have side1: "side_ok (pool_read (pool ?b1)) s (m1 @ (px, l') # m2) (g1 @ (px, xs @ ys) # g2)"
      using conc_okD(2) [OF ok1, of s] by simp
    then have "level_ok (pool_read (pool ?b)) l' []" "sorted_wrt (before s) (map fst m1 @ px # map fst m2)"
      using True by (simp_all add: side_ok_at [OF len] level_rel_def)
    then show ?thesis
      using conc_empty_level [of m1 g1 ?b l' ?g s g2 ?g1 px m2] ok1 un(2) True len by simp
  next
    case False
    then show ?thesis using ok1 un(2) by auto
  qed
  moreover have "\<forall>e \<in> set (g1 @ g2). snd e \<noteq> []"
    using ne gs unfolding nonempty_def by (metis Un_iff list.set_intros(2) set_append)
  then have "nonempty ?g"
    using ne by (auto simp: nonempty_def)
  moreover have "addrs (?g u) = filter (\<lambda>c. c \<noteq> a) (addrs (g u))" for u
  proof (cases "u = s")
    case True
    then show ?thesis
      using conc_okD(3) [OF ok, of s] filter_unique [of "addrs g1 @ xs" a "ys @ addrs g2"] by (auto simp: gs)
  next
    case False
    then have "a \<notin> set (addrs (g u))"
      using conc_okD(5) [OF ok, of s] side_neq_iff [of s u] by (auto simp: gs)
    then have "filter (\<lambda>c. c \<noteq> a) (addrs (g u)) = addrs (g u)"
      by (auto intro!: filter_True)
    then show ?thesis using False by simp
  qed
  moreover have ops: "omap_find (before s) px (book_side s b) = Some l"
    "omap_put (before s) px l' (book_side s b) = m1 @ (px, l') # m2"
    "omap_erase (before s) px (book_side s b) = m1 @ m2"
    using pm.find_hit [OF near(1)] pm.put_hit [OF near(1)] pm.erase_hit [OF near(1)] by (simp_all add: m)
  ultimately show ?thesis
    using that [of l l' p' ?g, unfolded ops] un(1) o1 cap by simp
qed

lemma cancel_sim:
  assumes rel: "book_abs b A" and c: "acancel i A = (hit, A')"
  shows "\<exists>b'. cancel i b = Some (hit, b') \<and> book_abs b' A'"
proof -
  obtain g where ok: "conc_ok g b" and ne: "nonempty g" and A: "A = abs_of g b"
    using rel by (auto simp: book_abs_def)
  let ?h = "pool_read (pool b)"
  note ix = conc_okD(4) [OF ok] and A' = acancel_fields [OF c]
  have hit: "hit \<longleftrightarrow> (\<exists>a. id_at ?h a = Some i)"
    using conc_ids [OF ok] by (auto simp: A'(5) A id_at_order_at image_iff)
  show ?thesis
  proof (cases "map_of (index b) i")
    case None
    then have miss: "\<not> hit"
      using map_of_index [OF ix, of i] by (auto simp: hit)
    have "filter (\<lambda>x. oid x \<noteq> i) (aside s A) = aside s A" for s
      using miss A'(5) set_resting [of A s] by (auto intro!: filter_True)
    then have "A' = A"
      by (intro abook_eqI) (simp_all add: A'(1-4))
    with miss show ?thesis
      using None rel by (simp add: cancel_def)
  next
    case (Some a)
    then have a: "id_at ?h a = Some i"
      using map_of_index [OF ix] by blast
    then obtain nd where nd: "?h a = Some nd" "oid nd = i"
      by (auto simp: id_at_def)
    obtain l l' p' g' where op: "omap_find (before (oside nd)) (oprice nd) (book_side (oside nd) b) = Some l"
      "level_unlink l a (pool b) = Some (l', p')"
      and ok': "conc_ok g' (set_book_side (oside nd)
         (if level_empty l' then omap_erase (before (oside nd)) (oprice nd) (book_side (oside nd) b)
          else omap_put (before (oside nd)) (oprice nd) l' (book_side (oside nd) b))
         (b\<lparr>index := AList.delete (oid nd) (index b), pool := release a p'\<rparr>))" (is "conc_ok _ ?b")
      and ne': "nonempty g'" and g': "\<forall>t. addrs (g' t) = filter (\<lambda>c. c \<noteq> a) (addrs (g t))"
      and o': "order_at (pool_read (release a p')) = (order_at ?h)(a := None)"
      and cap': "capacity p' = capacity (pool b)"
      by (rule conc_erase [OF ok ne nd(1) refl refl])
    have run: "cancel i b = Some (True, ?b)"
      using Some nd op by (simp add: cancel_def Let_def)
    have "abs_of g' ?b = A'"
    proof (rule abook_eqI)
      fix t
      have "orders_at (pool_read (release a p')) cs = orders_at ?h cs" if "a \<notin> set cs" for cs
        using that by (auto simp: orders_at_def o' simp del: pool_read_release)
      then have "aside t (abs_of g' ?b) = orders_at ?h (filter (\<lambda>c. c \<noteq> a) (addrs (g t)))"
        using g' by simp
      also have "\<dots> = filter (\<lambda>x. oid x \<noteq> i) (aside t A)"
        using filter_orders_at [OF ix a conc_live [OF ok, of t]] by (simp add: A)
      finally show "aside t (abs_of g' ?b) = aside t A'"
        by (simp add: A'(1))
    qed (simp_all add: A'(2-4) A cap')
    then show ?thesis
      using run ok' ne' a hit by (auto simp: book_abs_def)
  qed
qed

end
