(* ===== verification/Book_Observers.thy ===== *)
theory Book_Observers
  imports Book_Refinement
begin

text \<open>
  The constructor, the observers and the destructor of \<open>order_book.cpp\<close> on a book that implements
  an abstract book: what \<open>best_bid\<close>, \<open>best_ask\<close>, \<open>qty_at\<close> and \<open>size\<close> return, the number of pool
  nodes in use, and that the destructor returns every node to the pool.
\<close>

section \<open>The empty book\<close>

lemma book_init_abs:
  assumes "cap < 2 ^ 64"
  shows "book_abs (book_init cap) (abook_init cap)"
proof -
  let ?g = "\<lambda>s :: side. [] :: ghost"
  have "book_side s (book_init cap) = []" for s
    by (cases s) (simp_all add: book_init_def)
  then have "conc_ok ?g (book_init cap)"
    using pool_init_ok [OF assms]
    by (simp add: conc_ok_def side_ok_def index_ok_def id_at_def book_init_def)
  moreover have "abs_of ?g (book_init cap) = abook_init cap"
    by (simp add: abs_of_def abook_init_def book_init_def)
  ultimately show ?thesis
    unfolding book_abs_def nonempty_def by (intro exI [of _ ?g]) simp
qed

section \<open>Best prices and sizes\<close>

lemma best_level:
  assumes ok: "conc_ok g b" and ne: "nonempty g"
  shows "map fst (take 1 (book_side s b)) = map oprice (take 1 (aside s (abs_of g b)))"
proof -
  note side = conc_okD(2) [OF ok, of s]
  show ?thesis
  proof (cases "g s")
    case Nil
    then show ?thesis using side by (simp add: side_ok_def)
  next
    case (Cons e gr)
    obtain a as where e: "snd e = a # as"
      using ne Cons unfolding nonempty_def by (metis list.set_intros(1) neq_Nil_conv)
    obtain x where x: "order_at (pool_read (pool b)) a = Some x" "oprice x = fst e"
      using side_ok_orders [OF side, of e a] Cons e by auto
    obtain e' m where "book_side s b = e' # m" "fst e' = fst e"
      using side Cons by (auto simp: side_ok_def level_rel_def list_all2_Cons2)
    then show ?thesis
      using x e by (cases e) (simp add: Cons)
  qed
qed

lemma best_bid_abs:
  assumes "book_abs b A"
  shows "best_bid b = (case abids A of [] \<Rightarrow> 0 | x # _ \<Rightarrow> oprice x)"
proof -
  have "map fst (take 1 (bids b)) = map oprice (take 1 (abids A))"
    using assms best_level [of _ b Buy] by (auto simp: book_abs_def abs_of_def)
  then show ?thesis
    by (cases "bids b"; cases "abids A") (auto simp: best_bid_def split: prod.splits)
qed

lemma best_ask_abs:
  assumes "book_abs b A"
  shows "best_ask b = (case aasks A of [] \<Rightarrow> int64_max | x # _ \<Rightarrow> oprice x)"
proof -
  have "map fst (take 1 (asks b)) = map oprice (take 1 (aasks A))"
    using assms best_level [of _ b Sell] by (auto simp: book_abs_def abs_of_def)
  then show ?thesis
    by (cases "asks b"; cases "aasks A") (auto simp: best_ask_def split: prod.splits)
qed

lemma in_use_abs: "book_abs b A \<Longrightarrow> in_use (pool b) = length (resting A)"
  using conc_room(1) by (auto simp: book_abs_def)

lemma index_addresses:
  assumes "index_ok h idx"
  shows "distinct (map snd idx)" "set (map snd idx) = dom h"
proof -
  have d: "distinct (map fst idx)" and s: "set idx = {(i, a). id_at h a = Some i}"
    using assms by (simp_all add: index_ok_def)
  have "distinct idx"
    using d by (simp add: distinct_map)
  moreover have "inj_on snd (set idx)"
    by (auto simp: s inj_on_def)
  ultimately show "distinct (map snd idx)"
    by (simp add: distinct_map)
  show "set (map snd idx) = dom h"
    by (force simp: s id_at_def image_def)
qed

lemma book_size_abs:
  assumes "book_abs b A"
  shows "book_size b = length (resting A)"
proof -
  obtain g where ok: "conc_ok g b"
    using assms by (auto simp: book_abs_def)
  have "length (index b) = card (dom (pool_read (pool b)))"
    using index_addresses [OF conc_okD(4) [OF ok]] by (metis distinct_card length_map)
  then show ?thesis
    using in_use_abs [OF assms] pool_in_use_card(1) [OF conc_okD(1) [OF ok]]
    by (simp add: book_size_def)
qed

section \<open>Quantity at a price\<close>

lemma sum_level_dll:
  assumes "dll (pool_read p) pr as None" "is_s64 q"
  shows "sum_level p (hd_opt as) q = Some (s64 (q + sum_list (map oqty (orders_at (pool_read p) as))))"
  using assms
proof (induction as arbitrary: pr q)
  case Nil
  then show ?case by (subst sum_level.simps) (simp add: s64_id)
next
  case (Cons a as)
  then obtain n where n: "pool_read p a = Some n" "node_next n = hd_opt as"
    by (auto split: if_splits)
  have "sum_level p (hd_opt (a # as)) q = sum_level p (hd_opt as) (s64 (q + oqty n))"
    using n by (subst sum_level.simps) simp
  also have "\<dots> = Some (s64 (s64 (q + oqty n) + sum_list (map oqty (orders_at (pool_read p) as))))"
    using Cons by (intro Cons.IH [of "Some a"]) auto
  finally show ?case
    using n by (simp add: s64_add_s64 order_at_def add.assoc)
qed

lemma filter_level:
  assumes side: "side_ok h s m (g1 @ (px, as) # g2)"
    and near: "\<forall>e \<in> set g1. before s (fst e) px" "\<forall>e \<in> set g2. before s px (fst e)"
  shows "filter (\<lambda>x. oprice x = px) (orders_at h (addrs g1 @ as @ addrs g2)) = orders_at h as"
proof -
  have price: "oprice (the (order_at h a)) = fst e"
    if "e \<in> set (g1 @ (px, as) # g2)" "a \<in> set (snd e)" for e a
    using side_ok_orders [OF side that] by auto
  have "filter (\<lambda>x. oprice x = px) (orders_at h (addrs g1)) = []"
    "filter (\<lambda>x. oprice x = px) (orders_at h (addrs g2)) = []"
    using near price pm.irrefl by (fastforce simp: orders_at_def filter_empty_conv in_addrs)+
  moreover have "filter (\<lambda>x. oprice x = px) (orders_at h as) = orders_at h as"
    using price [of "(px, as)"] by (auto simp: orders_at_def intro!: filter_True)
  ultimately show ?thesis by simp
qed

lemma qty_at_abs:
  assumes rel: "book_abs b A"
  shows "qty_at s px b = Some (s64 (sum_list (map oqty (filter (\<lambda>x. oprice x = px) (aside s A)))))"
proof -
  obtain g where ok: "conc_ok g b" and ne: "nonempty g" and A: "A = abs_of g b"
    using rel by (auto simp: book_abs_def)
  let ?h = "pool_read (pool b)"
  obtain l m1 m2 g1 as g2 where
    l: "(case omap_find (before s) px (book_side s b) of Some l \<Rightarrow> l | None \<Rightarrow> empty_level) = l"
    and len: "length m1 = length g1" and gs: "addrs (g s) = addrs g1 @ as @ addrs g2"
    and ok1: "conc_ok (g(s := g1 @ (px, as) # g2)) (set_book_side s (m1 @ (px, l) # m2) b)"
    and near: "\<forall>e \<in> set g1. snd e \<noteq> [] \<and> before s (fst e) px"
      "\<forall>e \<in> set g2. snd e \<noteq> [] \<and> before s px (fst e)"
    by (rule locate_level [OF ok ne, of s px])
  have side: "side_ok ?h s (m1 @ (px, l) # m2) (g1 @ (px, as) # g2)"
    using conc_okD(2) [OF ok1, of s] by simp
  then have "lhead l = hd_opt as" "dll ?h None as None"
    by (simp_all add: side_ok_at [OF len] level_rel_def level_ok_def)
  then have "sum_level (pool b) (lhead l) 0 = Some (s64 (sum_list (map oqty (orders_at ?h as))))"
    using sum_level_dll [of "pool b" None as 0] by simp
  moreover have "qty_at s px b = sum_level (pool b) (lhead l) 0"
    unfolding qty_at_def l [symmetric]
    by (auto simp: empty_level_def sum_level.simps [of _ None] split: option.splits)
  moreover have "filter (\<lambda>x. oprice x = px) (aside s A) = orders_at ?h as"
    using filter_level [OF side] near by (simp add: A gs)
  ultimately show ?thesis by simp
qed

section \<open>The destructor\<close>

lemma book_destroy_fold: "book_destroy b = fold release (map snd (index b)) (pool b)"
proof -
  have "fold (\<lambda>(i, n). release n) xs p = fold release (map snd xs) p" for xs :: "(order_id \<times> addr) list" and p
    by (induction xs arbitrary: p) auto
  then show ?thesis by (simp add: book_destroy_def)
qed

lemma book_destroy_abs:
  assumes "book_abs b A"
  shows "pool_ok (book_destroy b) \<and> in_use (book_destroy b) = 0 \<and> free_count (book_destroy b) = acap A"
proof -
  obtain g where ok: "conc_ok g b" and A: "A = abs_of g b"
    using assms by (auto simp: book_abs_def)
  note ix = index_addresses [OF conc_okD(4) [OF ok]]
  have d: "pool_ok (book_destroy b) \<and> pool_read (book_destroy b) = pool_read (pool b) |` (- set (map snd (index b)))"
    using op.dealloc_list [OF conc_okD(1) [OF ok] ix(1)] ix(2) by (simp add: book_destroy_fold)
  then have "pool_read (book_destroy b) = Map.empty"
    using ix(2) by (auto simp: restrict_map_def fun_eq_iff)
  moreover have "capacity (fold release as p) = capacity p" for as and p :: node_pool
    by (induction as arbitrary: p) auto
  then have "capacity (book_destroy b) = acap A"
    by (simp add: book_destroy_fold A)
  ultimately show ?thesis
    using d pool_in_use_card [of "book_destroy b"] by simp
qed

end
