(* ===== verification/Simulation.thy ===== *)
theory Simulation
  imports Hft_Prelude
begin

text \<open>
  Sequences of operations and functional simulation.  A component's operations are a function
  \<open>step\<close> from a command and a state to a reply and a state, in the option monad; its specification
  is a total function \<open>astep\<close> on an abstract state.  The locale \<open>simulation\<close> states what a
  component proves once per operation and derives what its clients use: any sequence of commands
  returns, with the replies of the specification.
\<close>

fun run_with :: "('c \<Rightarrow> 'b \<Rightarrow> ('r \<times> 'b) option) \<Rightarrow> 'c list \<Rightarrow> 'b \<Rightarrow> ('r list \<times> 'b) option" where
  "run_with step [] b = Some ([], b)"
| "run_with step (c # cs) b = do {
     (r, b') \<leftarrow> step c b;
     (rs, b'') \<leftarrow> run_with step cs b';
     Some (r # rs, b'') }"

fun arun_with :: "('c \<Rightarrow> 'a \<Rightarrow> 'r \<times> 'a) \<Rightarrow> 'c list \<Rightarrow> 'a \<Rightarrow> 'r list \<times> 'a" where
  "arun_with astep [] A = ([], A)"
| "arun_with astep (c # cs) A =
     (let (r, A') = astep c A; (rs, A'') = arun_with astep cs A' in (r # rs, A''))"

fun guarded :: "('c \<Rightarrow> 'a \<Rightarrow> bool) \<Rightarrow> ('c \<Rightarrow> 'a \<Rightarrow> 'r \<times> 'a) \<Rightarrow> 'c list \<Rightarrow> 'a \<Rightarrow> bool" where
  "guarded grd astep [] A \<longleftrightarrow> True"
| "guarded grd astep (c # cs) A \<longleftrightarrow> grd c A \<and> guarded grd astep cs (snd (astep c A))"

text \<open>The states that a component can reach by operations within their preconditions.\<close>

inductive reaches :: "('c \<Rightarrow> 'b \<Rightarrow> ('r \<times> 'b) option) \<Rightarrow> ('c \<Rightarrow> 'b \<Rightarrow> bool) \<Rightarrow> 'b \<Rightarrow> 'b \<Rightarrow> bool"
  for step grd b0 where
  reaches_init: "reaches step grd b0 b0"
| reaches_step: "reaches step grd b0 b \<Longrightarrow> grd c b \<Longrightarrow> step c b = Some (r, b') \<Longrightarrow>
    reaches step grd b0 b'"

locale simulation =
  fixes step :: "'c \<Rightarrow> 'b \<Rightarrow> ('r \<times> 'b) option"
    and astep :: "'c \<Rightarrow> 'a \<Rightarrow> 'r \<times> 'a"
    and rel :: "'b \<Rightarrow> 'a \<Rightarrow> bool"
    and inv :: "'a \<Rightarrow> bool"
    and grd :: "'c \<Rightarrow> 'b \<Rightarrow> bool"
    and agrd :: "'c \<Rightarrow> 'a \<Rightarrow> bool"
  assumes sim: "rel b A \<Longrightarrow> inv A \<Longrightarrow> agrd c A \<Longrightarrow> astep c A = (r, A') \<Longrightarrow>
      \<exists>b'. step c b = Some (r, b') \<and> rel b' A' \<and> inv A'"
    and same_grd: "rel b A \<Longrightarrow> grd c b = agrd c A"
begin

lemma run_sim:
  assumes "rel b A" "inv A" "guarded agrd astep cs A" "arun_with astep cs A = (rs, A')"
  shows "\<exists>b'. run_with step cs b = Some (rs, b') \<and> rel b' A' \<and> inv A'"
  using assms
proof (induction cs arbitrary: b A rs)
  case Nil
  then show ?case by auto
next
  case (Cons c cs)
  obtain r A1 where r: "astep c A = (r, A1)" by fastforce
  obtain rs1 where rs1: "arun_with astep cs A1 = (rs1, A')" "rs = r # rs1"
    using Cons.prems(4) r by (auto split: prod.splits)
  obtain b1 where b1: "step c b = Some (r, b1)" "rel b1 A1" "inv A1"
    using sim [OF Cons.prems(1,2) _ r] Cons.prems(3) by auto
  then show ?case
    using Cons.IH [OF b1(2,3) _ rs1(1)] Cons.prems(3) r rs1(2) by auto
qed

lemma step_returns:
  assumes "rel b A" "inv A" "grd c b"
  obtains r b' A' where "step c b = Some (r, b')" "astep c A = (r, A')" "rel b' A'" "inv A'"
  using sim [OF assms(1,2)] assms same_grd by (metis surj_pair)

lemma step_inv:
  assumes "rel b A" "inv A" "grd c b" "step c b = Some (r, b')"
  obtains A' where "astep c A = (r, A')" "rel b' A'" "inv A'"
  using step_returns [OF assms(1-3)] assms(4) by (metis Pair_inject option.inject)

lemma reaches_sim:
  assumes "reaches step grd b0 b" "rel b0 A0" "inv A0"
  obtains A where "rel b A" "inv A"
proof -
  have "\<exists>A. rel b A \<and> inv A"
    using assms
  proof (induction rule: reaches.induct)
    case reaches_init
    then show ?case by blast
  next
    case (reaches_step b c r b')
    then show ?case by (metis step_inv)
  qed
  then show ?thesis using that by blast
qed

end

text \<open>A run within the preconditions ends in a reachable state.\<close>

fun run_guarded :: "('c \<Rightarrow> 'b \<Rightarrow> ('r \<times> 'b) option) \<Rightarrow> ('c \<Rightarrow> 'b \<Rightarrow> bool) \<Rightarrow> 'c list \<Rightarrow> 'b \<Rightarrow> 'b option" where
  "run_guarded step grd [] b = Some b"
| "run_guarded step grd (c # cs) b =
     (if grd c b then do { (r, b') \<leftarrow> step c b; run_guarded step grd cs b' } else None)"

lemma run_guarded_from:
  assumes "run_guarded step grd cs b = Some b'" "reaches step grd b0 b"
  shows "reaches step grd b0 b'"
  using assms
  by (induction cs arbitrary: b)
    (auto split: if_splits Option.bind_splits intro: reaches_step)

lemma run_guarded_reaches:
  "run_guarded step grd cs b0 = Some b \<Longrightarrow> reaches step grd b0 b"
  by (rule run_guarded_from) (auto intro: reaches_init)

end
