(* ===== verification/Book_Contract.thy ===== *)
theory Book_Contract
  imports Book_Observers Simulation
begin

text \<open>
  The order book as a component: commands and replies, the books reachable from an empty one, and
  the interpretation of the locale \<open>simulation\<close> on the operations of \<open>order_book.cpp\<close> against
  \<open>Book_Spec\<close>.  The function \<open>side_orders\<close> reads the resting orders of a side off the levels and the
  links of the implementation, so that properties can be stated on the implementation alone.
\<close>

section \<open>Commands\<close>

datatype command = Place side price quantity | Cancel order_id

datatype reply = Placed order_id "trade list" | CancelDone bool

fun exec :: "command \<Rightarrow> order_book \<Rightarrow> (reply \<times> order_book) option" where
  "exec (Place s px q) b = do { (i, tr, b') \<leftarrow> place_limit s px q [] b; Some (Placed i tr, b') }"
| "exec (Cancel i) b = do { (hit, b') \<leftarrow> cancel i b; Some (CancelDone hit, b') }"

fun aexec :: "command \<Rightarrow> abook \<Rightarrow> reply \<times> abook" where
  "aexec (Place s px q) A = (let (i, tr, A') = aplace s px q A in (Placed i tr, A'))"
| "aexec (Cancel i) A = (let (hit, A') = acancel i A in (CancelDone hit, A'))"

text \<open>
  The preconditions: prices and quantities are 64-bit signed values, as their types guarantee,
  and fewer than \<open>2\<^sup>6\<^sup>4 - 1\<close> identifiers have been handed out.
\<close>

fun cmd_grd :: "command \<Rightarrow> order_book \<Rightarrow> bool" where
  "cmd_grd (Place s px q) b \<longleftrightarrow> is_s64 px \<and> is_s64 q \<and> int (next_id b) + 1 < 2 ^ 64"
| "cmd_grd (Cancel i) b \<longleftrightarrow> True"

fun acmd_grd :: "command \<Rightarrow> abook \<Rightarrow> bool" where
  "acmd_grd (Place s px q) A \<longleftrightarrow> is_s64 px \<and> is_s64 q \<and> int (anext_id A) + 1 < 2 ^ 64"
| "acmd_grd (Cancel i) A \<longleftrightarrow> True"

definition book_inv :: "nat \<Rightarrow> abook \<Rightarrow> bool" where
  "book_inv cap A \<longleftrightarrow> ainv A \<and> acap A = cap"

definition book_reach :: "nat \<Rightarrow> order_book \<Rightarrow> bool" where
  "book_reach cap b \<longleftrightarrow> cap < 2 ^ 64 \<and> reaches exec cmd_grd (book_init cap) b"

section \<open>Reading the book\<close>

partial_function (option) walk :: "node_pool \<Rightarrow> addr option \<Rightarrow> order list option" where
  [code]: "walk p n =
     (case n of
        None \<Rightarrow> Some []
      | Some a \<Rightarrow> do {
          nd \<leftarrow> pool_read p a;
          xs \<leftarrow> walk p (node_next nd);
          Some (\<lparr>oid = oid nd, oside = oside nd, oprice = oprice nd, oqty = oqty nd, ots = ots nd\<rparr> # xs) })"

fun walk_levels :: "node_pool \<Rightarrow> (price \<times> level) list \<Rightarrow> order list option" where
  "walk_levels p [] = Some []"
| "walk_levels p ((px, l) # m) = do { xs \<leftarrow> walk p (lhead l); ys \<leftarrow> walk_levels p m; Some (xs @ ys) }"

definition side_orders :: "side \<Rightarrow> order_book \<Rightarrow> order list option" where
  "side_orders s b = walk_levels (pool b) (book_side s b)"

lemma walk_dll:
  "dll (pool_read p) pr as None \<Longrightarrow> walk p (hd_opt as) = Some (orders_at (pool_read p) as)"
proof (induction as arbitrary: pr)
  case Nil
  then show ?case by (subst walk.simps) simp
next
  case (Cons a as)
  then obtain n where n: "pool_read p a = Some n" "node_next n = hd_opt as"
    by (auto split: if_splits)
  have "walk p (hd_opt as) = Some (orders_at (pool_read p) as)"
    using Cons by (intro Cons.IH [of "Some a"]) auto
  then show ?case
    using n by (subst walk.simps) (simp add: order_at_def order.truncate_def)
qed

lemma walk_levels_rel:
  "list_all2 (level_rel (pool_read p) s) m g \<Longrightarrow>
   walk_levels p m = Some (orders_at (pool_read p) (addrs g))"
proof (induction rule: list_all2_induct)
  case (Cons e m e' g)
  then have "walk p (lhead (snd e)) = Some (orders_at (pool_read p) (snd e'))"
    using walk_dll [of p None "snd e'"] by (auto simp: level_rel_def level_ok_def)
  then show ?case
    using Cons.IH by (cases e; cases e') simp
qed simp

lemma side_orders_abs: "book_abs b A \<Longrightarrow> side_orders s b = Some (aside s A)"
  using walk_levels_rel conc_okD(2) by (fastforce simp: book_abs_def side_orders_def side_ok_def)

section \<open>The book implements its specification\<close>

lemma aplace_cap:
  "aplace s px q A = (i, tr, A') \<Longrightarrow> acap A' = acap A"
  by (auto simp: aplace_def Let_def split: prod.splits if_splits)

interpretation bk: simulation exec aexec book_abs "book_inv cap" cmd_grd acmd_grd for cap
proof
  fix b A c r A'
  assume rel: "book_abs b A" and inv: "book_inv cap A" and grd: "acmd_grd c A"
    and st: "aexec c A = (r, A')"
  show "\<exists>b'. exec c b = Some (r, b') \<and> book_abs b' A' \<and> book_inv cap A'"
  proof (cases c)
    case (Place s px q)
    then obtain i tr where pl: "aplace s px q A = (i, tr, A')" and r: "r = Placed i tr"
      using st by (auto split: prod.splits)
    have "ainv A'"
      using ainv_aplace [OF _ _ _ pl] inv grd Place by (simp add: book_inv_def)
    moreover obtain b' where "place_limit s px q [] b = Some (i, [] @ tr, b')" "book_abs b' A'"
      using place_limit_sim [OF rel _ _ _ pl, of "[]"] inv grd Place by (auto simp: book_inv_def)
    ultimately show ?thesis
      using inv Place r aplace_cap [OF pl] by (simp add: book_inv_def)
  next
    case (Cancel i)
    then obtain hit where ca: "acancel i A = (hit, A')" and r: "r = CancelDone hit"
      using st by (auto split: prod.splits)
    then show ?thesis
      using cancel_sim [OF rel ca] ainv_acancel [OF _ ca] acancel_fields(2) [OF ca] inv Cancel
      by (auto simp: book_inv_def)
  qed
next
  fix b A c
  assume "book_abs b A"
  then have "next_id b = anext_id A"
    by (auto simp: book_abs_def)
  then show "cmd_grd c b = acmd_grd c A"
    by (cases c) auto
qed

lemma book_inv_init: "book_inv cap (abook_init cap)"
  using ainv_init by (simp add: book_inv_def abook_init_def)

lemma book_reach_abs:
  assumes "book_reach cap b"
  obtains A where "book_abs b A" "ainv A" "acap A = cap"
  using bk.reaches_sim [OF _ book_init_abs book_inv_init] assms
  unfolding book_reach_def book_inv_def by metis

lemma book_reach_step:
  assumes "book_reach cap b" "cmd_grd c b" "exec c b = Some (r, b')"
  shows "book_reach cap b'"
  using assms reaches_step unfolding book_reach_def by metis

text \<open>A placement on a reachable book, step by step against the specification.\<close>

lemma reach_place:
  assumes re: "book_reach cap b" and grd: "cmd_grd (Place s px q) b"
  obtains A tr A' b' where "book_abs b A" "ainv A" "acap A = cap"
    "aplace s px q A = (next_id b, tr, A')" "place_limit s px q ts b = Some (next_id b, ts @ tr, b')"
    "book_abs b' A'" "ainv A'"
proof -
  obtain A where A: "book_abs b A" "ainv A" "acap A = cap"
    using book_reach_abs [OF re] .
  have id: "next_id b = anext_id A"
    using A(1) by (auto simp: book_abs_def)
  obtain i tr A' where pl: "aplace s px q A = (i, tr, A')"
    by (metis prod_cases3)
  moreover have "i = next_id b"
    using pl by (auto simp: aplace_def id Let_def split: prod.splits)
  moreover have "is_s64 px" "is_s64 q" "anext_id A + 1 < 2 ^ 64"
    using grd by (simp_all add: id)
  ultimately show ?thesis
    using that A place_limit_sim [OF A(1,2) _ _ pl, of ts] ainv_aplace [OF A(2) _ _ pl] by blast
qed

lemma reach_cancel:
  assumes re: "book_reach cap b"
  obtains A hit A' b' where "book_abs b A" "ainv A" "acap A = cap"
    "acancel i A = (hit, A')" "cancel i b = Some (hit, b')" "book_abs b' A'" "ainv A'"
proof -
  obtain A where A: "book_abs b A" "ainv A" "acap A = cap"
    using book_reach_abs [OF re] .
  obtain hit A' where ca: "acancel i A = (hit, A')"
    by fastforce
  then show ?thesis
    using that A cancel_sim [OF A(1) ca] ainv_acancel [OF A(2) ca] by blast
qed

end
