(* ===== verification/Book_Properties.thy ===== *)
theory Book_Properties
  imports Book_Contract
begin

text \<open>
  What the order book of \<open>order_book.cpp\<close> guarantees to its callers, on every book that placements
  and cancellations can reach from an empty one.  The statements are about the implementation: the
  resting orders of a side are read by \<open>side_orders\<close> along the levels and the links.
\<close>

section \<open>The placement in terms of the orders on the book\<close>

lemma aplace_parts:
  assumes "aplace s px q A = (i, tr, A')"
  obtains r ys where "fill (opposite s) (anext_id A) px q (aside (opposite s) A) = (tr, r, ys)"
    "i = anext_id A" "aside (opposite s) A' = ys"
    "aside s A' = (if r > 0 \<and> length (aside s A) + length ys < acap A
       then insort_key (prio s) \<lparr>oid = i, oside = s, oprice = px, oqty = r, ots = anext_ts A\<rparr> (aside s A)
       else aside s A)"
proof -
  obtain ts r ys where f: "fill (opposite s) (anext_id A) px q (aside (opposite s) A) = (ts, r, ys)"
    by (metis prod_cases3)
  define A1 where "A1 = set_aside (opposite s) ys (A\<lparr>anext_id := anext_id A + 1\<rparr>)"
  note pl = assms [unfolded aplace_eq [OF f A1_def]]
  have "length (resting A1) = length (aside s A) + length ys"
    by (simp add: A1_def length_resting [of _ s])
  then show ?thesis
    using that [of r ys] f pl by (auto simp: A1_def split: if_splits)
qed

lemma reach_place_fill:
  assumes re: "book_reach cap b" and grd: "cmd_grd (Place s px q) b"
    and pl: "place_limit s px q [] b = Some (i, tr, b')"
    and xs: "side_orders s b = Some xs" and os: "side_orders (opposite s) b = Some os"
  obtains r ys t where "fill (opposite s) i px q os = (tr, r, ys)" "i = next_id b"
    "side_orders (opposite s) b' = Some ys" "\<forall>x \<in> set os. 0 < oqty x"
    "side_orders s b' = Some (if r > 0 \<and> length xs + length ys < cap
       then insort_key (prio s) \<lparr>oid = i, oside = s, oprice = px, oqty = r, ots = t\<rparr> xs else xs)"
    "\<forall>x \<in> set (xs @ os). oid x < i" "sorted (map (prio (opposite s)) os)"
proof -
  obtain A tr' A' b1 where A: "book_abs b A" "ainv A" "acap A = cap"
    and ap: "aplace s px q A = (next_id b, tr', A')"
    and pl': "place_limit s px q [] b = Some (next_id b, [] @ tr', b1)" and A': "book_abs b1 A'"
    by (rule reach_place [OF re grd])
  have eq: "i = next_id b" "tr' = tr" "b1 = b'"
    using pl pl' by auto
  have sides: "xs = aside s A" "os = aside (opposite s) A"
    using xs os side_orders_abs [OF A(1)] by auto
  have id: "next_id b = anext_id A"
    using A(1) by (auto simp: book_abs_def)
  have ids: "\<forall>x \<in> set (xs @ os). oid x < i"
    using ainv_orderD [OF A(2)] by (auto simp: sides eq(1) id order_ok_def)
  obtain r ys where f: "fill (opposite s) (anext_id A) px q (aside (opposite s) A) = (tr', r, ys)"
    "aside (opposite s) A' = ys"
    and own: "aside s A' = (if r > 0 \<and> length (aside s A) + length ys < acap A
       then insort_key (prio s) \<lparr>oid = next_id b, oside = s, oprice = px, oqty = r, ots = anext_ts A\<rparr> (aside s A)
       else aside s A)"
    by (rule aplace_parts [OF ap])
  show ?thesis
  proof (rule that)
    show "fill (opposite s) i px q os = (tr, r, ys)"
      using f(1) by (simp add: eq id sides)
    show "side_orders (opposite s) b' = Some ys"
      using side_orders_abs [OF A'] f(2) by (simp add: eq)
    show "side_orders s b' = Some (if r > 0 \<and> length xs + length ys < cap
       then insort_key (prio s) \<lparr>oid = i, oside = s, oprice = px, oqty = r, ots = anext_ts A\<rparr> xs else xs)"
      using side_orders_abs [OF A', of s] by (simp add: own eq(3) sides A(3)) (simp add: eq(1))
    show "\<forall>x \<in> set os. 0 < oqty x" "sorted (map (prio (opposite s)) os)"
      using ainv_pos [OF A(2)] ainv_sorted [OF A(2)] by (simp_all add: sides)
  qed (use ids eq(1) in auto)
qed

lemma fill_full:
  assumes "fill s t lim q xs = (ts, r, ys)" "Suc k < length ts"
  shows "trade_qty (ts ! k) = oqty (xs ! k)"
  using assms
proof (induction xs arbitrary: q ts k)
  case (Cons x xs)
  then show ?case by (cases k) (auto split: if_splits prod.splits)
qed simp

section \<open>A book for the witnesses\<close>

text \<open>Two asks at 101 and one at 103 (oldest first per price) over a bid at 99, in a pool of eight.\<close>

definition demo_cmds :: "command list" where
  "demo_cmds = [Place Sell 101 5, Place Sell 103 4, Place Sell 101 7, Place Buy 99 10]"

definition demo_book :: order_book where
  "demo_book = the (run_guarded exec cmd_grd demo_cmds (book_init 8))"

lemma demo_run: "run_guarded exec cmd_grd demo_cmds (book_init 8) \<noteq> None"
  by code_simp

lemma demo_reach: "book_reach 8 demo_book"
proof -
  have "run_guarded exec cmd_grd demo_cmds (book_init 8) = Some demo_book"
    using demo_run by (simp add: demo_book_def)
  then show ?thesis
    using run_guarded_reaches unfolding book_reach_def by fastforce
qed

section \<open>Refinement and safety\<close>

text \<open>
  C1.  \<open>place_limit\<close> implements the specification: on a book that represents \<open>A\<close> it returns (no
  access to a dead node, no endless loop) the identifier and the trades of \<open>aplace\<close>, appended to the
  caller's vector, and leaves a book that represents the resulting abstract book, which again
  satisfies the invariant.
\<close>

theorem place_limit_refines:
  assumes "book_abs b A" "ainv A" "is_s64 px" "is_s64 q" "anext_id A + 1 < 2 ^ 64"
    and "aplace s px q A = (i, tr, A')"
  shows "\<exists>b'. place_limit s px q ts b = Some (i, ts @ tr, b') \<and> book_abs b' A' \<and> ainv A'"
  using place_limit_sim [OF assms(1,2,4,5,6)] ainv_aplace [OF assms(2,3,4,6)] by blast

theorem place_limit_refines_witness:
  "\<exists>b'. place_limit Buy 100 5 [] (book_init 4) = Some (1, [] @ [], b') \<and>
     book_abs b' (snd (snd (aplace Buy 100 5 (abook_init 4)))) \<and>
     ainv (snd (snd (aplace Buy 100 5 (abook_init 4))))"
proof -
  have "aplace Buy 100 5 (abook_init 4) = (1, [], snd (snd (aplace Buy 100 5 (abook_init 4))))"
    by code_simp
  then show ?thesis
    by (rule place_limit_refines [OF book_init_abs ainv_init, rotated -1])
      (simp_all add: abook_init_def is_s64_def int64_min_def int64_max_def)
qed

text \<open>
  C2.  \<open>cancel\<close> implements the specification: it returns whether the order rests on the book and
  leaves a book that represents the abstract book without it.
\<close>

theorem cancel_refines:
  assumes "book_abs b A" "ainv A" "acancel i A = (hit, A')"
  shows "\<exists>b'. cancel i b = Some (hit, b') \<and> book_abs b' A' \<and> ainv A'"
  using cancel_sim [OF assms(1,3)] ainv_acancel [OF assms(2,3)] by blast

theorem cancel_refines_witness:
  "\<exists>b'. cancel 7 (book_init 4) = Some (False, b') \<and> book_abs b' (abook_init 4) \<and> ainv (abook_init 4)"
  by (rule cancel_refines [OF book_init_abs ainv_init]) (simp_all add: acancel_def abook_init_def resting_def)

text \<open>
  C3.  Memory safety and termination: on every reachable book every placement and every
  cancellation returns and leads to a reachable book, and \<open>qty_at\<close> returns for every price.
\<close>

theorem reachable_operations_return:
  assumes "book_reach cap b" "cmd_grd c b"
  shows "(\<exists>r b'. exec c b = Some (r, b') \<and> book_reach cap b') \<and> (\<exists>v. qty_at s px b = Some v)"
proof -
  obtain A where A: "book_abs b A" "ainv A" "acap A = cap"
    using book_reach_abs [OF assms(1)] .
  obtain r b' where "exec c b = Some (r, b')"
    by (rule bk.step_returns [of b A cap c]) (use A assms(2) in \<open>simp_all add: book_inv_def\<close>)
  then show ?thesis
    using book_reach_step [OF assms] qty_at_abs [OF A(1)] by blast
qed

theorem reachable_operations_return_witness:
  "(\<exists>r b'. exec (Place Buy 102 20) demo_book = Some (r, b') \<and> book_reach 8 b') \<and>
   (\<exists>v. qty_at Sell 101 demo_book = Some v)"
  by (rule reachable_operations_return [OF demo_reach]) code_simp

text \<open>
  C4.  Any sequence of commands on a new book returns, with exactly the replies (identifiers,
  trades, cancel results) of the specification.
\<close>

theorem book_traces_agree:
  assumes "cap < 2 ^ 64" "guarded acmd_grd aexec cs (abook_init cap)"
    "arun_with aexec cs (abook_init cap) = (rs, A)"
  shows "\<exists>b. run_with exec cs (book_init cap) = Some (rs, b) \<and> book_abs b A"
  using bk.run_sim [OF book_init_abs [OF assms(1)] book_inv_init assms(2,3)] by blast

theorem book_traces_agree_witness:
  "\<exists>b. run_with exec demo_cmds (book_init 8) =
     Some (fst (arun_with aexec demo_cmds (abook_init 8)), b) \<and>
     book_abs b (snd (arun_with aexec demo_cmds (abook_init 8)))"
proof (rule book_traces_agree)
  show "guarded acmd_grd aexec demo_cmds (abook_init 8)"
    by code_simp
qed simp_all

section \<open>Matching\<close>

definition demo_trades :: "trade list" where
  "demo_trades =
     [\<lparr>taker_id = 5, maker_id = 1, trade_price = 101, trade_qty = 5\<rparr>,
      \<lparr>taker_id = 5, maker_id = 3, trade_price = 101, trade_qty = 3\<rparr>]"

definition demo_next :: order_book where
  "demo_next = snd (snd (the (place_limit Buy 101 8 [] demo_book)))"

lemma demo_place: "place_limit Buy 101 8 [] demo_book = Some (5, demo_trades, demo_next)"
proof -
  have "map_option (\<lambda>(i, tr, b). (i, tr)) (place_limit Buy 101 8 [] demo_book) = Some (5, demo_trades)"
    by code_simp
  then show ?thesis
    by (auto simp: demo_next_def)
qed

lemma demo_sides:
  "side_orders Buy demo_book = Some [\<lparr>oid = 4, oside = Buy, oprice = 99, oqty = 10, ots = 4\<rparr>]"
  "side_orders Sell demo_book =
     Some [\<lparr>oid = 1, oside = Sell, oprice = 101, oqty = 5, ots = 1\<rparr>,
           \<lparr>oid = 3, oside = Sell, oprice = 101, oqty = 7, ots = 3\<rparr>,
           \<lparr>oid = 2, oside = Sell, oprice = 103, oqty = 4, ots = 2\<rparr>]"
  by code_simp+

lemma demo_grd: "cmd_grd (Place Buy 101 8) demo_book"
  by code_simp



text \<open>
  Every trade respects the limit of the taker, has a positive quantity, names the new order
  as taker and an older order as maker.
\<close>

theorem trades_within_limit:
  assumes "book_reach cap b" "cmd_grd (Place s px q) b"
    "place_limit s px q [] b = Some (i, tr, b')" "t \<in> set tr"
  shows "crosses (opposite s) px (trade_price t) \<and> 0 < trade_qty t \<and> taker_id t = i \<and> maker_id t < i"
proof -
  obtain xs os where xs: "side_orders s b = Some xs" "side_orders (opposite s) b = Some os"
    using book_reach_abs [OF assms(1)] side_orders_abs by metis
  obtain r ys where f: "fill (opposite s) i px q os = (tr, r, ys)" "\<forall>x \<in> set os. 0 < oqty x"
    "\<forall>x \<in> set (xs @ os). oid x < i"
    using reach_place_fill [OF assms(1-3) xs] by metis
  have "maker_id t \<in> set (map oid (take (length tr) os))"
    using assms(4) fill_prefix(2) [OF f(1)] by (metis image_eqI list.set_map)
  then have "maker_id t < i"
    using f(3) by (auto dest: in_set_takeD)
  then show ?thesis
    using fill_trades [OF f(1,2) assms(4)] by simp
qed

theorem trades_within_limit_witness:
  "crosses (opposite Buy) 101 (trade_price (hd demo_trades)) \<and> 0 < trade_qty (hd demo_trades) \<and>
   taker_id (hd demo_trades) = 5 \<and> maker_id (hd demo_trades) < 5"
  by (rule trades_within_limit [OF demo_reach demo_grd demo_place]) (simp add: demo_trades_def)

text \<open>
  C6.  Conservation of quantity: what is traded leaves the opposite side, and the remainder is
  never negative.  The remainder, if positive, rests on the own side under the new identifier with
  the limit price when the pool has a free node, and every other order of that side is untouched.
\<close>

theorem quantity_conserved:
  assumes "book_reach cap b" "cmd_grd (Place s px q) b" "0 \<le> q"
    "place_limit s px q [] b = Some (i, tr, b')"
    "side_orders s b = Some xs" "side_orders (opposite s) b = Some os"
  shows "\<exists>ys xs'. side_orders (opposite s) b' = Some ys \<and> side_orders s b' = Some xs' \<and>
    sum_list (map oqty os) = sum_list (map oqty ys) + sum_list (map trade_qty tr) \<and>
    sum_list (map trade_qty tr) \<le> q \<and> filter (\<lambda>x. oid x \<noteq> i) xs' = xs \<and>
    map (\<lambda>x. (oprice x, oqty x)) (filter (\<lambda>x. oid x = i) xs') =
      (if sum_list (map trade_qty tr) < q \<and> length xs + length ys < cap
       then [(px, q - sum_list (map trade_qty tr))] else [])"
proof -
  obtain r ys t where f: "fill (opposite s) i px q os = (tr, r, ys)" "\<forall>x \<in> set os. 0 < oqty x"
    and opp: "side_orders (opposite s) b' = Some ys" and ids: "\<forall>x \<in> set (xs @ os). oid x < i"
    and own: "side_orders s b' = Some (if r > 0 \<and> length xs + length ys < cap
       then insort_key (prio s) \<lparr>oid = i, oside = s, oprice = px, oqty = r, ots = t\<rparr> xs else xs)"
    by (rule reach_place_fill [OF assms(1,2,4,5,6)])
  have new: "filter (\<lambda>x. oid x \<noteq> i) xs = xs" "filter (\<lambda>x. oid x = i) xs = []"
    using ids by (auto intro!: filter_True simp: filter_empty_conv)
  have ins: "filter (\<lambda>x. oid x \<noteq> i) (insort_key (prio s) z xs) = xs"
    "filter (\<lambda>x. oid x = i) (insort_key (prio s) z xs) = [z]" if "oid z = i" for z
  proof -
    obtain us vs where "xs = us @ vs" "insort_key (prio s) z xs = us @ z # vs"
      by (metis insort_key_split)
    then show "filter (\<lambda>x. oid x \<noteq> i) (insort_key (prio s) z xs) = xs"
      "filter (\<lambda>x. oid x = i) (insort_key (prio s) z xs) = [z]"
      using new that by auto
  qed
  have r: "r = q - sum_list (map trade_qty tr)" "0 \<le> r"
    using fill_traded(1) [OF f(1)] fill_remaining(1) [OF f(1) assms(3) f(2)] by auto
  show ?thesis
    using fill_traded(2) [OF f(1)] r opp own new ins by auto
qed

theorem quantity_conserved_witness:
  "\<exists>ys xs'. side_orders (opposite Buy) demo_next = Some ys \<and> side_orders Buy demo_next = Some xs' \<and>
    16 = sum_list (map oqty ys) + sum_list (map trade_qty demo_trades)"
  using quantity_conserved [OF demo_reach demo_grd _ demo_place demo_sides(1)] demo_sides(2) by force

text \<open>
  C7.  Maximal execution: when a placement leaves a remainder, no order left on the opposite side
  would have traded with it.
\<close>

theorem maximal_execution:
  assumes "book_reach cap b" "cmd_grd (Place s px q) b"
    "place_limit s px q [] b = Some (i, tr, b')" "sum_list (map trade_qty tr) < q"
    "side_orders (opposite s) b' = Some ys" "y \<in> set ys"
  shows "\<not> crosses (opposite s) px (oprice y)"
proof -
  obtain xs os where xs: "side_orders s b = Some xs" "side_orders (opposite s) b = Some os"
    using book_reach_abs [OF assms(1)] side_orders_abs by metis
  obtain r where f: "fill (opposite s) i px q os = (tr, r, ys)" "sorted (map (prio (opposite s)) os)"
    using reach_place_fill [OF assms(1-3) xs] assms(5) by (metis option.inject)
  then show ?thesis
    using fill_exhausts [OF f(1) _ f(2) assms(6)] fill_traded(1) [OF f(1)] assms(4) by simp
qed

lemma demo_sweep:
  obtains b' where "place_limit Buy 102 20 [] demo_book =
      Some (5, [\<lparr>taker_id = 5, maker_id = 1, trade_price = 101, trade_qty = 5\<rparr>,
                \<lparr>taker_id = 5, maker_id = 3, trade_price = 101, trade_qty = 7\<rparr>], b')"
    "side_orders Sell b' = Some [\<lparr>oid = 2, oside = Sell, oprice = 103, oqty = 4, ots = 2\<rparr>]"
proof -
  have "map_option (\<lambda>(i, tr, b'). (i, tr, side_orders Sell b')) (place_limit Buy 102 20 [] demo_book) =
    Some (5, [\<lparr>taker_id = 5, maker_id = 1, trade_price = 101, trade_qty = 5\<rparr>,
              \<lparr>taker_id = 5, maker_id = 3, trade_price = 101, trade_qty = 7\<rparr>],
          Some [\<lparr>oid = 2, oside = Sell, oprice = 103, oqty = 4, ots = 2\<rparr>])"
    by code_simp
  then show ?thesis using that by auto
qed

theorem maximal_execution_witness: "\<not> crosses (opposite Buy) 102 103"
proof -
  have grd: "cmd_grd (Place Buy 102 20) demo_book"
    by code_simp
  obtain b' where b': "place_limit Buy 102 20 [] demo_book =
      Some (5, [\<lparr>taker_id = 5, maker_id = 1, trade_price = 101, trade_qty = 5\<rparr>,
                \<lparr>taker_id = 5, maker_id = 3, trade_price = 101, trade_qty = 7\<rparr>], b')"
    "side_orders Sell b' = Some [\<lparr>oid = 2, oside = Sell, oprice = 103, oqty = 4, ots = 2\<rparr>]"
    by (rule demo_sweep)
  then show ?thesis
    using maximal_execution [OF demo_reach grd b'(1)] by simp
qed

section \<open>The state of a reachable book\<close>

text \<open>C8.  A reachable book is never crossed: the best bid is below the best ask.\<close>

theorem never_crossed:
  assumes "book_reach cap b" "bids b \<noteq> []" "asks b \<noteq> []"
  shows "best_bid b < best_ask b"
proof -
  obtain A g where A: "book_abs b A" "ainv A" and g: "conc_ok g b" "nonempty g" "A = abs_of g b"
    using book_reach_abs [OF assms(1)] unfolding book_abs_def by metis
  obtain x xs y ys where "abids A = x # xs" "aasks A = y # ys"
    using best_level [OF g(1,2), of Buy] best_level [OF g(1,2), of Sell] assms(2,3) g(3)
    by (cases "abids A"; cases "aasks A"; cases "bids b"; cases "asks b") (auto simp: abs_of_def)
  moreover have "\<forall>x \<in> set (abids A). \<forall>y \<in> set (aasks A). oprice x < oprice y"
    using A(2) unfolding ainv_def by blast
  ultimately show ?thesis
    using best_bid_abs [OF A(1)] best_ask_abs [OF A(1)] by simp
qed

theorem never_crossed_witness: "best_bid demo_book < best_ask demo_book"
  by (rule never_crossed [OF demo_reach]) code_simp+

lemma first_is_best:
  assumes "ainv A" "aside s A = x # zs" "z \<in> set zs"
  shows "rank s (oprice x) \<le> rank s (oprice z)"
  using ainv_sorted [OF assms(1), of s] assms(2,3) prio_le_rank by auto

lemma first_bid_max: "ainv A \<Longrightarrow> abids A = x # zs \<Longrightarrow> oprice x = Max (oprice ` set (abids A))"
  using first_is_best [of A Buy] by (fastforce intro!: Max_eqI [symmetric])

lemma first_ask_min: "ainv A \<Longrightarrow> aasks A = x # zs \<Longrightarrow> oprice x = Min (oprice ` set (aasks A))"
  using first_is_best [of A Sell] by (fastforce intro!: Min_eqI [symmetric])

text \<open>
  \<open>best_bid\<close> and \<open>best_ask\<close> are the highest and the lowest resting price; an empty side
  reports the sentinel 0 or \<open>INT64_MAX\<close>.
\<close>

theorem best_prices:
  assumes "book_reach cap b" "side_orders Buy b = Some xs" "side_orders Sell b = Some ys"
  shows "best_bid b = (if xs = [] then 0 else Max (oprice ` set xs)) \<and>
    best_ask b = (if ys = [] then int64_max else Min (oprice ` set ys))"
proof -
  obtain A where A: "book_abs b A" "ainv A"
    using book_reach_abs [OF assms(1)] by metis
  have "xs = abids A" "ys = aasks A"
    using side_orders_abs [OF A(1), of Buy] side_orders_abs [OF A(1), of Sell] assms(2,3) by auto
  then show ?thesis
    unfolding best_bid_abs [OF A(1)] best_ask_abs [OF A(1)]
    using first_bid_max [OF A(2)] first_ask_min [OF A(2)] by (simp split: list.splits)
qed

theorem best_prices_witness: "best_bid demo_book = 99 \<and> best_ask demo_book = 101"
  using best_prices [OF demo_reach demo_sides] by simp

text \<open>
  Order on the book: the orders of a side are sorted by price and, at one price, by time of
  arrival (both the identifier and the time stamp), and no identifier rests twice.
\<close>

theorem book_order:
  assumes "book_reach cap b" "side_orders s b = Some xs" "side_orders (opposite s) b = Some os"
  shows "sorted_wrt (\<lambda>x y. before s (oprice x) (oprice y) \<or>
      oprice x = oprice y \<and> oid x < oid y \<and> ots x < ots y) xs \<and> distinct (map oid (xs @ os))"
proof -
  obtain A where A: "book_abs b A" "ainv A"
    using book_reach_abs [OF assms(1)] by metis
  have sides: "xs = aside s A" "os = aside (opposite s) A"
    using side_orders_abs [OF A(1)] assms(2,3) by auto
  have dist: "distinct (map oid (xs @ os))"
    using A(2) unfolding sides ainv_def distinct_resting [of A s] by simp
  have ts: "\<forall>x \<in> set (resting A). \<forall>y \<in> set (resting A). oid x < oid y \<longrightarrow> ots x < ots y"
    using A(2) unfolding ainv_def by blast
  have "sorted_wrt (\<lambda>x y. prio s x < prio s y) xs"
  proof -
    have "distinct (map (prio s) xs)"
      using dist by (auto simp: distinct_map prio_def inj_on_def)
    then show ?thesis
      using ainv_sorted [OF A(2), of s] strict_sorted_iff [of "map (prio s) xs"]
      by (simp add: sides sorted_wrt_map)
  qed
  then have "sorted_wrt (\<lambda>x y. before s (oprice x) (oprice y) \<or>
      oprice x = oprice y \<and> oid x < oid y \<and> ots x < ots y) xs"
    by (rule sorted_wrt_mono_rel [rotated])
      (use ts set_resting [of A s] sides in \<open>auto simp: prio_less before_rank\<close>)
  with dist show ?thesis by simp
qed

theorem book_order_witness:
  "sorted_wrt (\<lambda>x y. before Sell (oprice x) (oprice y) \<or>
      oprice x = oprice y \<and> oid x < oid y \<and> ots x < ots y) (the (side_orders Sell demo_book))"
  using book_order [OF demo_reach demo_sides(2)] demo_sides by simp

text \<open>
  C9.  No leak: the pool nodes in use are exactly the resting orders, which \<open>size\<close> counts, and
  never exceed the capacity; the free nodes are the rest.
\<close>

theorem no_leak:
  assumes "book_reach cap b" "side_orders Buy b = Some xs" "side_orders Sell b = Some ys"
  shows "in_use (pool b) = book_size b \<and> book_size b = length xs + length ys \<and>
    book_size b \<le> cap \<and> free_count (pool b) = cap - book_size b"
proof -
  obtain A where A: "book_abs b A" "ainv A" "acap A = cap"
    using book_reach_abs [OF assms(1)] by metis
  have "xs = abids A" "ys = aasks A"
    using side_orders_abs [OF A(1), of Buy] side_orders_abs [OF A(1), of Sell] assms(2,3) by auto
  moreover have "length (resting A) \<le> cap"
    using A(2,3) unfolding ainv_def by blast
  moreover have "pool_ok (pool b)" "capacity (pool b) = cap"
    using A(1,3) conc_okD(1) by (auto simp: book_abs_def)
  ultimately show ?thesis
    using in_use_abs [OF A(1)] book_size_abs [OF A(1)] pool_in_use_card(3) [of "pool b"]
    by (simp add: resting_def)
qed

theorem no_leak_witness: "in_use (pool demo_book) = 4 \<and> free_count (pool demo_book) = 4"
  using no_leak [OF demo_reach demo_sides] by simp

text \<open>
  The destructor returns every node: afterwards the pool is well formed, no node is in use
  and the whole capacity is free.
\<close>

theorem destructor_frees_all:
  assumes "book_reach cap b"
  shows "pool_ok (book_destroy b) \<and> in_use (book_destroy b) = 0 \<and> free_count (book_destroy b) = cap"
  using book_reach_abs [OF assms] book_destroy_abs by metis

theorem destructor_frees_all_witness:
  "pool_ok (book_destroy demo_book) \<and> in_use (book_destroy demo_book) = 0 \<and>
   free_count (book_destroy demo_book) = 8"
  by (rule destructor_frees_all [OF demo_reach])

text \<open>
  \<open>qty_at\<close> returns the sum of the quantities resting at a price, as a 64-bit signed sum.
\<close>

theorem qty_at_sums:
  assumes "book_reach cap b" "side_orders s b = Some xs"
  shows "qty_at s px b = Some (s64 (\<Sum>x \<leftarrow> filter (\<lambda>x. oprice x = px) xs. oqty x))"
  using book_reach_abs [OF assms(1)] qty_at_abs side_orders_abs assms(2) by (metis option.inject)

theorem qty_at_sums_witness: "qty_at Sell 101 demo_book = Some (s64 12)"
  using qty_at_sums [OF demo_reach demo_sides(2), of 101] by simp

section \<open>Cancellation and exhaustion\<close>

text \<open>
  A cancellation succeeds exactly on a resting identifier, removes that order and keeps every
  other order in place; a second cancellation of the same identifier reports failure.
\<close>

theorem cancel_removes_one:
  assumes "book_reach cap b" "side_orders Buy b = Some xs" "side_orders Sell b = Some ys"
  shows "\<exists>b'. cancel i b = Some (i \<in> oid ` set (xs @ ys), b') \<and>
    side_orders Buy b' = Some (filter (\<lambda>x. oid x \<noteq> i) xs) \<and>
    side_orders Sell b' = Some (filter (\<lambda>x. oid x \<noteq> i) ys) \<and>
    book_reach cap b' \<and> (\<exists>b''. cancel i b' = Some (False, b''))"
proof -
  obtain A hit A' b' where A: "book_abs b A" and c: "acancel i A = (hit, A')"
    and run: "cancel i b = Some (hit, b')" and A': "book_abs b' A'"
    by (rule reach_cancel [OF assms(1), of i])
  have sides: "xs = abids A" "ys = aasks A"
    using side_orders_abs [OF A, of Buy] side_orders_abs [OF A, of Sell] assms(2,3) by auto
  note f = acancel_fields [OF c]
  have after: "side_orders Buy b' = Some (filter (\<lambda>x. oid x \<noteq> i) xs)"
    "side_orders Sell b' = Some (filter (\<lambda>x. oid x \<noteq> i) ys)"
    using side_orders_abs [OF A'] f(1) [of Buy] f(1) [of Sell] by (simp_all add: sides)
  have re: "book_reach cap b'"
    using book_reach_step [OF assms(1), of "Cancel i"] run by simp
  have "fst (acancel i A') = False"
    using f(1) [of Buy] f(1) [of Sell] by (auto simp: acancel_def resting_def)
  then have "\<exists>b''. cancel i b' = Some (False, b'')"
    using cancel_sim [OF A'] by (metis prod.collapse)
  moreover have "hit \<longleftrightarrow> i \<in> oid ` set (xs @ ys)"
    using f(5) by (simp add: sides resting_def)
  ultimately show ?thesis
    using run after re by blast
qed

theorem cancel_removes_one_witness:
  "\<exists>b'. cancel 3 demo_book = Some (True, b') \<and>
     map_option (map oid) (side_orders Sell b') = Some [1, 2] \<and> (\<exists>b''. cancel 3 b' = Some (False, b''))"
  using cancel_removes_one [OF demo_reach demo_sides, of 3] by auto


definition full_book :: order_book where
  "full_book = the (run_guarded exec cmd_grd [Place Sell 101 5] (book_init 1))"

lemma full_reach: "book_reach 1 full_book"
proof -
  have "run_guarded exec cmd_grd [Place Sell 101 5] (book_init 1) \<noteq> None"
    by code_simp
  then have "run_guarded exec cmd_grd [Place Sell 101 5] (book_init 1) = Some full_book"
    by (simp add: full_book_def)
  then show ?thesis
    using run_guarded_reaches unfolding book_reach_def by fastforce
qed


end
