(* ===== verification/Engine.thy ===== *)
theory Engine
  imports Book_Properties
begin

text \<open>
  The engine of \<open>src/mvp/src/engine.h\<close>: an order book with a scratch vector and the trades of the
  last placement.
\<close>

record engine =
  book :: order_book
  trades_scratch :: "trade list"
  last_trades :: "trade list"

definition engine_init :: engine where
  "engine_init = \<lparr>book = book_init kDefaultPoolCapacity, trades_scratch = [], last_trades = []\<rparr>"

definition engine_place_limit ::
  "side \<Rightarrow> price \<Rightarrow> quantity \<Rightarrow> engine \<Rightarrow> (order_id \<times> engine) option" where
  "engine_place_limit s px q e = do {
     let e0 = e\<lparr>trades_scratch := []\<rparr>;
     (i, ts, b) \<leftarrow> place_limit s px q (trades_scratch e0) (book e0);
     Some (i, e0\<lparr>book := b, trades_scratch := ts, last_trades := ts\<rparr>) }"

definition engine_cancel :: "order_id \<Rightarrow> engine \<Rightarrow> (bool \<times> engine) option" where
  "engine_cancel i e = do { (hit, b) \<leftarrow> cancel i (book e); Some (hit, e\<lparr>book := b\<rparr>) }"

definition engine_match :: "engine \<Rightarrow> nat" where
  "engine_match e = length (last_trades e)"

lemma engine_init_reach: "book_reach kDefaultPoolCapacity (book engine_init)"
  by (simp add: book_reach_def engine_init_def kDefaultPoolCapacity_def reaches_init)

text \<open>A placement and a cancellation on a reachable book, with what they leave in the engine.\<close>

lemma engine_place_cases:
  assumes re: "book_reach cap (book e)" and grd: "cmd_grd (Place s px q) (book e)"
  obtains A tr A' e' where "book_abs (book e) A" "ainv A" "acap A = cap"
    "aplace s px q A = (next_id (book e), tr, A')"
    "engine_place_limit s px q e = Some (next_id (book e), e')"
    "place_limit s px q [] (book e) = Some (next_id (book e), tr, book e')"
    "last_trades e' = tr" "book_abs (book e') A'" "ainv A'" "book_reach cap (book e')"
    "next_id (book e') = Suc (next_id (book e))"
proof -
  obtain A tr A' b' where A: "book_abs (book e) A" "ainv A" "acap A = cap"
    and ap: "aplace s px q A = (next_id (book e), tr, A')"
    and pl: "place_limit s px q [] (book e) = Some (next_id (book e), [] @ tr, b')"
    and A': "book_abs b' A'" "ainv A'"
    by (rule reach_place [OF re grd])
  have "book_reach cap b'"
    using book_reach_step [OF re grd] pl by simp
  moreover have "next_id b' = Suc (next_id (book e))"
  proof -
    have "anext_id A' = Suc (anext_id A)"
      using ap by (auto simp: aplace_def Let_def split: prod.splits if_splits)
    then show ?thesis
      using A(1) A'(1) by (auto simp: book_abs_def)
  qed
  ultimately show ?thesis
    using that [of A tr A' "e\<lparr>book := b', trades_scratch := tr, last_trades := tr\<rparr>"] A ap pl A'
    by (simp add: engine_place_limit_def)
qed

lemma engine_cancel_cases:
  assumes re: "book_reach cap (book e)"
  obtains A hit A' e' where "book_abs (book e) A" "ainv A" "acancel i A = (hit, A')"
    "engine_cancel i e = Some (hit, e')" "cancel i (book e) = Some (hit, book e')"
    "book_abs (book e') A'" "ainv A'" "book_reach cap (book e')"
    "next_id (book e') = next_id (book e)" "last_trades e' = last_trades e"
proof -
  obtain A hit A' b' where A: "book_abs (book e) A" "ainv A" "acap A = cap"
    and ca: "acancel i A = (hit, A')" "cancel i (book e) = Some (hit, b')" and A': "book_abs b' A'" "ainv A'"
    by (rule reach_cancel [OF re])
  have "book_reach cap b'"
    using book_reach_step [OF re, of "Cancel i"] ca by simp
  moreover have "next_id b' = next_id (book e)"
    using A(1) A'(1) acancel_fields(3) [OF ca(1)] by (auto simp: book_abs_def)
  ultimately show ?thesis
    using that [of A hit A' "e\<lparr>book := b'\<rparr>"] A ca A' by (simp add: engine_cancel_def)
qed

text \<open>
  A placement through the engine returns on every reachable book and keeps it reachable;
  \<open>last_trades\<close> holds exactly the trades of this placement, whatever it held before, and \<open>match\<close>
  is their number.
\<close>

theorem engine_place_reports_own_trades:
  assumes "book_reach cap (book e)" "cmd_grd (Place s px q) (book e)"
  shows "\<exists>e' tr b'. engine_place_limit s px q e = Some (next_id (book e), e') \<and>
    place_limit s px q [] (book e) = Some (next_id (book e), tr, b') \<and>
    book e' = b' \<and> book_reach cap (book e') \<and> last_trades e' = tr \<and> engine_match e' = length tr \<and>
    (\<forall>t \<in> set (last_trades e'). taker_id t = next_id (book e))"
proof -
  obtain A tr A' e' where A: "book_abs (book e) A" "ainv A"
    and f: "aplace s px q A = (next_id (book e), tr, A')"
    and run: "engine_place_limit s px q e = Some (next_id (book e), e')"
      "place_limit s px q [] (book e) = Some (next_id (book e), tr, book e')"
      "last_trades e' = tr" "book_reach cap (book e')"
    by (rule engine_place_cases [OF assms])
  have "\<forall>t \<in> set tr. taker_id t = next_id (book e)"
  proof -
    obtain r ys where "fill (opposite s) (anext_id A) px q (aside (opposite s) A) = (tr, r, ys)"
      "next_id (book e) = anext_id A"
      using aplace_parts [OF f] by metis
    then show ?thesis
      using fill_trades ainv_pos [OF A(2)] by metis
  qed
  then show ?thesis
    using run by (simp add: engine_match_def)
qed

theorem engine_place_reports_own_trades_witness:
  "\<exists>e'. engine_place_limit Buy 101 8 \<lparr>book = demo_book, trades_scratch = [], last_trades = []\<rparr> =
     Some (5, e') \<and> last_trades e' = demo_trades \<and> engine_match e' = 2"
proof -
  let ?e = "\<lparr>book = demo_book, trades_scratch = [], last_trades = []\<rparr>"
  have "next_id demo_book = 5"
    by code_simp
  then show ?thesis
    using engine_place_reports_own_trades [of 8 ?e Buy 101 8] demo_reach demo_grd demo_place
    by (auto simp: demo_trades_def)
qed

end
