(* ===== verification/Spsc_Ring.thy ===== *)
theory Spsc_Ring
  imports Simulation "HOL-Library.Word" "HOL-Library.Sublist"
begin

text \<open>
  The single-producer single-consumer ring of \<open>src/mvp/src/spsc_ring.h\<close>.  The indices are 64-bit
  words that run freely and wrap around; a slot is addressed by masking an index.  The first part
  treats \<open>try_push\<close> and \<open>try_pop\<close> as sequential operations and shows that they implement a
  bounded FIFO queue.  The second part splits them at their atomic accesses and lets one producer
  and one consumer interleave: no element is lost, duplicated or reordered, and the two sides never
  touch the same slot at the same time.
\<close>

unbundle bit_operations_syntax

section \<open>Capacity\<close>

fun bit_ceil :: "nat \<Rightarrow> nat" where
  "bit_ceil n = (if n \<le> 1 then 1 else 2 * bit_ceil ((n + 1) div 2))"

declare bit_ceil.simps [simp del]

definition round_up_pow2 :: "nat \<Rightarrow> nat" where
  "round_up_pow2 n = (if n < 2 then 2 else bit_ceil n)"

lemma bit_ceil_pow2: "\<exists>k. bit_ceil n = 2 ^ k"
proof (induction n rule: bit_ceil.induct)
  case (1 n)
  show ?case
  proof (cases "n \<le> 1")
    case True
    then show ?thesis by (subst bit_ceil.simps) (auto intro: exI [of _ 0])
  next
    case False
    then obtain k where "bit_ceil ((n + 1) div 2) = 2 ^ k"
      using 1 by blast
    with False show ?thesis by (subst bit_ceil.simps) (auto intro: exI [of _ "Suc k"])
  qed
qed

lemma bit_ceil_even: "2 \<le> n \<Longrightarrow> even (bit_ceil n)"
  by (subst bit_ceil.simps) simp

lemma bit_ceil_bounds: "n \<le> bit_ceil n \<and> (0 < n \<longrightarrow> bit_ceil n < 2 * n)"
proof (induction n rule: bit_ceil.induct)
  case (1 n)
  show ?case
  proof (cases "n \<le> 1")
    case True
    then show ?thesis by (subst (1 2) bit_ceil.simps) auto
  next
    case False
    let ?m = "(n + 1) div 2"
    have "bit_ceil ?m < n"
    proof (cases "n = 2")
      case True
      then show ?thesis by (simp add: bit_ceil.simps [of 1] flip: One_nat_def)
    next
      case ne: False
      then have "even (bit_ceil ?m)"
        using False by (intro bit_ceil_even) linarith
      moreover have "bit_ceil ?m < 2 * ?m"
        using 1 [OF False] False by simp
      moreover have "c < n" if "even c" "c < 2 * ?m" for c :: nat
        using that by presburger
      ultimately show ?thesis by blast
    qed
    then show ?thesis using 1 [OF False] False by (subst (1 2) bit_ceil.simps) auto
  qed
qed

section \<open>State and operations\<close>

record 'a ring =
  kCap :: "64 word"
  head :: "64 word"
  tail :: "64 word"
  buf :: "nat \<Rightarrow> 'a option"

definition ring_init :: "nat \<Rightarrow> 'a ring" where
  "ring_init n = \<lparr>kCap = of_nat (round_up_pow2 n), head = 0, tail = 0, buf = (\<lambda>_. None)\<rparr>"

text \<open>The slot \<open>buf_[i & kMask]\<close>; a slot that was never written holds no value.\<close>

definition kMask :: "'a ring \<Rightarrow> 64 word" where
  "kMask r = kCap r - 1"

definition slot_of :: "'a ring \<Rightarrow> 64 word \<Rightarrow> nat" where
  "slot_of r i = unat (i AND kMask r)"

definition try_push :: "'a \<Rightarrow> 'a ring \<Rightarrow> bool \<times> 'a ring" where
  "try_push v r =
     (let h = head r; nxt = h + 1
      in if nxt - tail r > kCap r then (False, r)
         else (True, r\<lparr>buf := (buf r)(slot_of r h \<mapsto> v), head := nxt\<rparr>))"

text \<open>\<^term>\<open>None\<close> as a result is the read of a slot that holds no value.\<close>

definition try_pop :: "'a ring \<Rightarrow> ('a option \<times> 'a ring) option" where
  "try_pop r =
     (let t = tail r
      in if t = head r then Some (None, r)
         else do { v \<leftarrow> buf r (slot_of r t); Some (Some v, r\<lparr>tail := t + 1\<rparr>) })"

definition size_approx :: "'a ring \<Rightarrow> 64 word" where
  "size_approx r = head r - tail r"

section \<open>Index arithmetic\<close>

lemma mask_slot:
  assumes "kCap r = 2 ^ k" "k \<le> 63"
  shows "slot_of r (of_nat i) = i mod 2 ^ k"
proof -
  have "kMask r = mask k"
    by (simp add: kMask_def assms(1) mask_eq_exp_minus_1)
  then have "slot_of r (of_nat i) = unat (take_bit k (of_nat i :: 64 word))"
    by (simp add: slot_of_def take_bit_eq_mask)
  also have "\<dots> = take_bit k (take_bit 64 i)"
    by (simp add: unsigned_take_bit_eq unsigned_of_nat)
  also have "\<dots> = i mod 2 ^ k"
    using assms(2) by (simp add: take_bit_take_bit min_absorb1) (simp add: take_bit_eq_mod)
  finally show ?thesis .
qed

lemma mod_window_inj:
  assumes "i mod m = j mod m" "t \<le> i" "i < t + m" "t \<le> j" "j < t + (m :: nat)"
  shows "i = j"
proof -
  have aux: "i = j" if "i mod m = j mod m" "i \<le> j" "j < i + m" for i j :: nat
    using that by (metis add_diff_inverse_nat add_le_cancel_left leD le_add1 le_iff_add mod_eq_dvd_iff_nat
        nat_dvd_not_less not_gr_zero add.right_neutral diff_add_inverse less_diff_conv2 nat_add_left_cancel_less)
  show ?thesis
  proof (cases "i \<le> j")
    case True
    then show ?thesis using aux [of i j] assms by simp
  next
    case False
    then show ?thesis using aux [of j i] assms by simp
  qed
qed

section \<open>The ring is a bounded queue\<close>

text \<open>
  The contents of a ring: \<open>q\<close> starts at the consumer's index, and the number of elements is the
  distance of the indices.  The numbers \<open>n\<close> of past pops are unbounded; the indices hold them
  modulo \<open>2\<^sup>6\<^sup>4\<close>.
\<close>

definition ring_rel :: "'a ring \<Rightarrow> nat \<Rightarrow> nat \<Rightarrow> 'a list \<Rightarrow> bool" where
  "ring_rel r k n q \<longleftrightarrow>
     k \<le> 62 \<and> kCap r = 2 ^ k \<and> tail r = of_nat n \<and> head r = of_nat (n + length q) \<and>
     length q \<le> 2 ^ k \<and> (\<forall>i < length q. buf r (slot_of r (of_nat (n + i))) = Some (q ! i))"

definition ring_abs :: "'a ring \<Rightarrow> nat \<times> 'a list \<Rightarrow> bool" where
  "ring_abs r A \<longleftrightarrow> (\<exists>k n. fst A = 2 ^ k \<and> ring_rel r k n (snd A))"

datatype 'a ring_op = Push 'a | Pop

datatype 'a ring_reply = PushDone bool | PopDone "'a option"

fun ring_exec :: "'a ring_op \<Rightarrow> 'a ring \<Rightarrow> ('a ring_reply \<times> 'a ring) option" where
  "ring_exec (Push v) r = (let (done, r') = try_push v r in Some (PushDone done, r'))"
| "ring_exec Pop r = do { (v, r') \<leftarrow> try_pop r; Some (PopDone v, r') }"

text \<open>The specification: a queue of at most \<open>cap\<close> elements.\<close>

fun queue_exec :: "'a ring_op \<Rightarrow> nat \<times> 'a list \<Rightarrow> 'a ring_reply \<times> nat \<times> 'a list" where
  "queue_exec (Push v) (cap, q) =
     (if length q < cap then (PushDone True, cap, q @ [v]) else (PushDone False, cap, q))"
| "queue_exec Pop (cap, q) =
     (case q of [] \<Rightarrow> (PopDone None, cap, []) | v # vs \<Rightarrow> (PopDone (Some v), cap, vs))"

lemma of_nat_word_less:
  assumes "a < 2 ^ 64" "b < 2 ^ 64"
  shows "(of_nat a :: 64 word) < of_nat b \<longleftrightarrow> a < b"
  using assms by (simp add: word_less_nat_alt unat_of_nat)

lemma of_nat_word_eq:
  assumes "a < 2 ^ 64"
  shows "(of_nat a :: 64 word) = 0 \<longleftrightarrow> a = 0"
  using assms by (simp add: word_of_nat_eq_0_iff nat_dvd_not_less) (use nat_dvd_not_less in blast)

lemma ring_distance:
  assumes "ring_rel r k n q"
  shows "head r - tail r = of_nat (length q)" "head r + 1 - tail r = of_nat (length q + 1)"
  using assms by (simp_all add: ring_rel_def)

lemma pow2_bound: "k \<le> 62 \<Longrightarrow> (2 :: nat) ^ k < 2 ^ 63"
  by (rule power_strict_increasing) simp_all

lemma ring_full_iff:
  assumes "ring_rel r k n q"
  shows "kCap r < head r + 1 - tail r \<longleftrightarrow> length q = 2 ^ k"
proof -
  have k: "(2 :: nat) ^ k < 2 ^ 63" and len: "length q \<le> 2 ^ k"
    using assms pow2_bound by (auto simp: ring_rel_def)
  have "kCap r = of_nat (2 ^ k)"
    using assms by (simp add: ring_rel_def)
  then show ?thesis
    using k len by (simp only: ring_distance [OF assms]) (subst of_nat_word_less, auto)
qed

lemma ring_empty_iff:
  assumes "ring_rel r k n q"
  shows "tail r = head r \<longleftrightarrow> q = []"
proof -
  have "length q < 2 ^ 64"
    using assms pow2_bound [of k] by (auto simp: ring_rel_def)
  then have "head r - tail r = 0 \<longleftrightarrow> length q = 0"
    unfolding ring_distance [OF assms] by (rule of_nat_word_eq)
  then show ?thesis by auto
qed

lemma slot_of_upd [simp]:
  "slot_of (r\<lparr>buf := f\<rparr>) = slot_of r" "slot_of (r\<lparr>head := h\<rparr>) = slot_of r"
  "slot_of (r\<lparr>tail := t\<rparr>) = slot_of r"
  by (simp_all add: slot_of_def kMask_def fun_eq_iff)

lemma slot_of_inj:
  assumes "kCap r = 2 ^ k" "k \<le> 62" "slot_of r (of_nat i) = slot_of r (of_nat j)"
    "n \<le> i" "i < n + 2 ^ k" "n \<le> j" "j < n + 2 ^ k"
  shows "i = j"
  using assms mask_slot [of r k] by (intro mod_window_inj [of i "2 ^ k" j n]) auto

text \<open>The three effects on the ring: a write behind the head, its publication, a pop.\<close>

lemma ring_rel_write:
  assumes rel: "ring_rel r k n q" and "length q < 2 ^ k"
  shows "ring_rel (r\<lparr>buf := (buf r)(slot_of r (head r) \<mapsto> v)\<rparr>) k n q"
proof -
  have r: "k \<le> 62" "kCap r = 2 ^ k" "head r = of_nat (n + length q)"
    using rel by (auto simp: ring_rel_def)
  have "slot_of r (of_nat (n + i)) \<noteq> slot_of r (head r)" if "i < length q" for i
    using slot_of_inj [OF r(2,1), of "n + i" "n + length q" n] that r(3) assms(2) by auto
  then show ?thesis
    using rel by (simp add: ring_rel_def)
qed

lemma ring_rel_publish:
  assumes "ring_rel r k n q" "length q < 2 ^ k" "buf r (slot_of r (head r)) = Some v"
  shows "ring_rel (r\<lparr>head := head r + 1\<rparr>) k n (q @ [v])"
  using assms by (auto simp: ring_rel_def nth_append less_Suc_eq)

lemma ring_rel_advance:
  assumes "ring_rel r k n (v # vs)"
  shows "ring_rel (r\<lparr>tail := tail r + 1\<rparr>) k (Suc n) vs"
  using assms unfolding ring_rel_def by (auto simp: algebra_simps)

lemma ring_rel_first:
  "ring_rel r k n (v # vs) \<Longrightarrow> buf r (slot_of r (tail r)) = Some v"
  by (auto simp: ring_rel_def)

lemma try_push_sim:
  assumes rel: "ring_rel r k n q"
  shows "\<exists>r'. try_push v r = (length q < 2 ^ k, r') \<and>
    ring_rel r' k n (if length q < 2 ^ k then q @ [v] else q)"
proof (cases "length q = 2 ^ k")
  case True
  then show ?thesis
    using rel ring_full_iff [OF rel] by (simp add: try_push_def)
next
  case False
  then have len: "length q < 2 ^ k"
    using rel by (auto simp: ring_rel_def)
  show ?thesis
    using ring_rel_publish [OF ring_rel_write [OF rel len, of v] len] len ring_full_iff [OF rel]
    by (simp add: try_push_def Let_def)
qed

lemma try_pop_sim:
  assumes rel: "ring_rel r k n q"
  shows "\<exists>r' n'. try_pop r = Some (case q of [] \<Rightarrow> None | v # _ \<Rightarrow> Some v, r') \<and>
    ring_rel r' k n' (tl q)"
proof (cases q)
  case Nil
  then show ?thesis
    using rel ring_empty_iff [OF rel] by (auto simp: try_pop_def)
next
  case (Cons v vs)
  then show ?thesis
    using ring_empty_iff [OF rel] ring_rel_first [of r k n v vs] ring_rel_advance [of r k n v vs] rel
    by (auto simp: try_pop_def Let_def)
qed

interpretation rq: simulation ring_exec queue_exec ring_abs "\<lambda>_. True" "\<lambda>_ _. True" "\<lambda>_ _. True"
proof
  fix r :: "'a ring" and A and c :: "'a ring_op" and x A'
  assume "ring_abs r A" and st: "queue_exec c A = (x, A')"
  then obtain k n q where A: "A = (2 ^ k, q)" and rel: "ring_rel r k n q"
    by (cases A) (auto simp: ring_abs_def)
  show "\<exists>r'. ring_exec c r = Some (x, r') \<and> ring_abs r' A' \<and> True"
  proof (cases c)
    case (Push v)
    then show ?thesis
      using try_push_sim [OF rel, of v] st by (auto simp: A ring_abs_def split: if_splits)
  next
    case Pop
    then show ?thesis
      using try_pop_sim [OF rel] st by (cases q) (auto simp: A ring_abs_def)
  qed
qed simp

lemma ring_init_abs:
  assumes "n \<le> 2 ^ 62"
  shows "ring_abs (ring_init n) (round_up_pow2 n, [])"
proof -
  obtain k where k: "round_up_pow2 n = 2 ^ k"
    using bit_ceil_pow2 [of n] by (metis power_one_right round_up_pow2_def)
  have "round_up_pow2 n < 2 ^ 63"
    using bit_ceil_bounds [of n] assms by (auto simp: round_up_pow2_def)
  then have "k < 63"
    unfolding k by (rule power_less_imp_less_exp [rotated]) simp
  then have "ring_rel (ring_init n) k 0 []"
    by (simp add: ring_rel_def ring_init_def k)
  then show ?thesis
    unfolding ring_abs_def k by auto
qed

section \<open>Producer and consumer interleaved\<close>

text \<open>
  The atomic accesses of the two operations, in program order.  A producer that has passed the
  test for room is about to write its slot (\<open>PWrite\<close>) and then to publish the new \<open>head_\<close>
  (\<open>PStore\<close>); a consumer that has seen an element is about to read its slot (\<open>CRead\<close>) and then to
  publish the new \<open>tail_\<close> (\<open>CStore\<close>).  The acquire and release accesses order the slot accesses
  with the index accesses, so an interleaving of these steps is what the two threads can observe.
  The fields \<open>pushed\<close> and \<open>popped\<close> record the completed operations.
\<close>

datatype 'a prod_pc = PIdle | PWrite 'a "64 word" | PStore 'a "64 word"

datatype 'a cons_pc = CIdle | CRead "64 word" | CStore "64 word" 'a

record 'a spsc =
  ring_of :: "'a ring"
  prod :: "'a prod_pc"
  cons :: "'a cons_pc"
  pushed :: "'a list"
  popped :: "'a list"

inductive spsc_step :: "'a spsc \<Rightarrow> 'a spsc \<Rightarrow> bool" where
  push_full: "prod s = PIdle \<Longrightarrow> kCap (ring_of s) < head (ring_of s) + 1 - tail (ring_of s) \<Longrightarrow>
    spsc_step s s"
| push_room: "prod s = PIdle \<Longrightarrow> \<not> kCap (ring_of s) < head (ring_of s) + 1 - tail (ring_of s) \<Longrightarrow>
    spsc_step s (s\<lparr>prod := PWrite v (head (ring_of s))\<rparr>)"
| push_write: "prod s = PWrite v h \<Longrightarrow>
    spsc_step s (s\<lparr>ring_of := (ring_of s)\<lparr>buf := (buf (ring_of s))(slot_of (ring_of s) h \<mapsto> v)\<rparr>,
                   prod := PStore v h\<rparr>)"
| push_store: "prod s = PStore v h \<Longrightarrow>
    spsc_step s (s\<lparr>ring_of := (ring_of s)\<lparr>head := h + 1\<rparr>, prod := PIdle, pushed := pushed s @ [v]\<rparr>)"
| pop_empty: "cons s = CIdle \<Longrightarrow> tail (ring_of s) = head (ring_of s) \<Longrightarrow> spsc_step s s"
| pop_some: "cons s = CIdle \<Longrightarrow> tail (ring_of s) \<noteq> head (ring_of s) \<Longrightarrow>
    spsc_step s (s\<lparr>cons := CRead (tail (ring_of s))\<rparr>)"
| pop_read: "cons s = CRead t \<Longrightarrow> buf (ring_of s) (slot_of (ring_of s) t) = Some v \<Longrightarrow>
    spsc_step s (s\<lparr>cons := CStore t v\<rparr>)"
| pop_store: "cons s = CStore t v \<Longrightarrow>
    spsc_step s (s\<lparr>ring_of := (ring_of s)\<lparr>tail := t + 1\<rparr>, cons := CIdle, popped := popped s @ [v]\<rparr>)"

definition spsc_init :: "nat \<Rightarrow> 'a spsc" where
  "spsc_init n = \<lparr>ring_of = ring_init n, prod = PIdle, cons = CIdle, pushed = [], popped = []\<rparr>"

definition spsc_reach :: "nat \<Rightarrow> 'a spsc \<Rightarrow> bool" where
  "spsc_reach n s \<longleftrightarrow> spsc_step\<^sup>*\<^sup>* (spsc_init n) s"

fun prod_ok :: "nat \<Rightarrow> 'a spsc \<Rightarrow> 'a prod_pc \<Rightarrow> bool" where
  "prod_ok k s PIdle \<longleftrightarrow> True"
| "prod_ok k s (PWrite v h) \<longleftrightarrow>
     h = head (ring_of s) \<and> length (pushed s) < length (popped s) + 2 ^ k"
| "prod_ok k s (PStore v h) \<longleftrightarrow>
     h = head (ring_of s) \<and> length (pushed s) < length (popped s) + 2 ^ k \<and>
     buf (ring_of s) (slot_of (ring_of s) h) = Some v"

fun cons_ok :: "'a spsc \<Rightarrow> 'a cons_pc \<Rightarrow> bool" where
  "cons_ok s CIdle \<longleftrightarrow> True"
| "cons_ok s (CRead t) \<longleftrightarrow> t = tail (ring_of s) \<and> length (popped s) < length (pushed s)"
| "cons_ok s (CStore t v) \<longleftrightarrow> t = tail (ring_of s) \<and> length (popped s) < length (pushed s) \<and>
     v = pushed s ! length (popped s)"

definition spsc_ok :: "nat \<Rightarrow> 'a spsc \<Rightarrow> bool" where
  "spsc_ok k s \<longleftrightarrow>
     popped s = take (length (popped s)) (pushed s) \<and> length (popped s) \<le> length (pushed s) \<and>
     ring_rel (ring_of s) k (length (popped s)) (drop (length (popped s)) (pushed s)) \<and>
     prod_ok k s (prod s) \<and> cons_ok s (cons s)"

lemma spsc_ok_init:
  assumes "n \<le> 2 ^ 62" "round_up_pow2 n = 2 ^ k"
  shows "spsc_ok k (spsc_init n)"
proof -
  have "ring_rel (ring_init n :: 'a ring) k 0 []"
    using ring_init_abs [OF assms(1), where 'a = 'a] assms(2)
    by (auto simp: ring_abs_def ring_rel_def ring_init_def)
  then show ?thesis
    by (simp add: spsc_ok_def spsc_init_def)
qed

lemma spsc_step_ok:
  assumes "spsc_step s s'" "spsc_ok k s"
  shows "spsc_ok k s'"
  using assms
proof (induction rule: spsc_step.induct)
  case (push_room s v)
  let ?q = "drop (length (popped s)) (pushed s)"
  have rel: "ring_rel (ring_of s) k (length (popped s)) ?q"
    using push_room by (simp add: spsc_ok_def)
  then have "length ?q < 2 ^ k"
    using ring_full_iff [OF rel] push_room by (auto simp: ring_rel_def)
  then show ?case
    using push_room by (auto simp: spsc_ok_def elim: cons_ok.elims)
next
  case (push_write s v h)
  then have *: "ring_rel (ring_of s) k (length (popped s)) (drop (length (popped s)) (pushed s))"
    "length (drop (length (popped s)) (pushed s)) < 2 ^ k" and "h = head (ring_of s)"
    by (auto simp: spsc_ok_def)
  then show ?case
    using push_write ring_rel_write [OF *, of v] by (cases "cons s") (auto simp: spsc_ok_def)
next
  case (push_store s v h)
  let ?q = "drop (length (popped s)) (pushed s)"
  have *: "ring_rel (ring_of s) k (length (popped s)) ?q" "length ?q < 2 ^ k" "h = head (ring_of s)"
    "buf (ring_of s) (slot_of (ring_of s) (head (ring_of s))) = Some v"
    using push_store by (auto simp: spsc_ok_def)
  then show ?case
    using push_store ring_rel_publish [OF *(1,2,4)]
    by (cases "cons s") (auto simp: spsc_ok_def nth_append)
next
  case (pop_some s)
  have "ring_rel (ring_of s) k (length (popped s)) (drop (length (popped s)) (pushed s))"
    using pop_some by (simp add: spsc_ok_def)
  from ring_empty_iff [OF this] show ?case
    using pop_some by (cases "prod s") (auto simp: spsc_ok_def)
next
  case (pop_read s t v)
  then have "ring_rel (ring_of s) k (length (popped s))
      (pushed s ! length (popped s) # drop (Suc (length (popped s))) (pushed s))"
    by (auto simp: spsc_ok_def Cons_nth_drop_Suc)
  from ring_rel_first [OF this] show ?case
    using pop_read by (cases "prod s") (auto simp: spsc_ok_def)
next
  case (pop_store s t v)
  then have "ring_rel (ring_of s) k (length (popped s))
      (v # drop (Suc (length (popped s))) (pushed s))"
    by (auto simp: spsc_ok_def Cons_nth_drop_Suc)
  from ring_rel_advance [OF this] show ?case
    using pop_store by (cases "prod s") (auto simp: spsc_ok_def take_Suc_conv_app_nth)
qed simp_all

lemma spsc_reach_ok:
  assumes "n \<le> 2 ^ 62" "spsc_reach n s"
  obtains k where "round_up_pow2 n = 2 ^ k" "spsc_ok k s"
proof -
  obtain k where k: "round_up_pow2 n = 2 ^ k"
    using bit_ceil_pow2 [of n] by (metis power_one_right round_up_pow2_def)
  have "spsc_step\<^sup>*\<^sup>* (spsc_init n) s"
    using assms(2) by (simp add: spsc_reach_def)
  then have "spsc_ok k s"
    by (induction rule: rtranclp_induct) (auto intro: spsc_ok_init [OF assms(1) k] spsc_step_ok)
  with k show ?thesis using that by blast
qed

section \<open>Properties\<close>

text \<open>
  The capacity of a ring is the smallest power of two (at least two) that holds the requested
  number of elements.
\<close>

theorem capacity_rounding:
  "(\<exists>k. round_up_pow2 n = 2 ^ k) \<and> n \<le> round_up_pow2 n \<and> 2 \<le> round_up_pow2 n \<and>
   (2 \<le> n \<longrightarrow> round_up_pow2 n < 2 * n)"
proof -
  have "\<exists>k. round_up_pow2 n = 2 ^ k"
    using bit_ceil_pow2 [of n] by (metis power_one_right round_up_pow2_def)
  then show ?thesis
    using bit_ceil_bounds [of n] by (auto simp: round_up_pow2_def)
qed

theorem capacity_rounding_witness: "round_up_pow2 1000 < 2 * 1000"
  using capacity_rounding [of 1000] by simp

text \<open>
  C20.  Any sequence of \<open>try_push\<close> and \<open>try_pop\<close> on a new ring returns, never reads an unwritten
  slot, and answers exactly as a FIFO queue of the rounded capacity, also after the 64-bit indices
  have wrapped around.
\<close>

theorem ring_is_bounded_fifo:
  assumes "n \<le> 2 ^ 62"
  shows "\<exists>r. run_with ring_exec ops (ring_init n) =
     Some (fst (arun_with queue_exec ops (round_up_pow2 n, [])), r)"
proof -
  have "guarded (\<lambda>_ _. True) queue_exec ops A" for A
    by (induction ops arbitrary: A) auto
  then show ?thesis
    using rq.run_sim [OF ring_init_abs [OF assms]] by (metis prod.collapse)
qed

definition demo_ops :: "int ring_op list" where
  "demo_ops = [Push 1, Push 2, Push 3, Pop, Push 4, Pop, Pop, Pop]"

theorem ring_is_bounded_fifo_witness:
  "\<exists>r. run_with ring_exec demo_ops (ring_init 2) =
     Some ([PushDone True, PushDone True, PushDone False, PopDone (Some 1), PushDone True,
            PopDone (Some 2), PopDone (Some 4), PopDone None], r)"
proof -
  have "fst (arun_with queue_exec demo_ops (round_up_pow2 2, [])) =
     [PushDone True, PushDone True, PushDone False, PopDone (Some 1), PushDone True,
      PopDone (Some 2), PopDone (Some 4), PopDone None]"
    by code_simp
  then show ?thesis
    using ring_is_bounded_fifo [of 2 demo_ops] by simp
qed

text \<open>
  C21.  With one producer and one consumer interleaved at their atomic accesses, what has been
  popped is at every moment a prefix of what has been pushed, at most the capacity is in between,
  and the distance of the indices is exactly the number of elements in the ring.
\<close>

theorem spsc_fifo:
  assumes "n \<le> 2 ^ 62" "spsc_reach n s"
  shows "prefix (popped s) (pushed s) \<and> length (pushed s) \<le> length (popped s) + round_up_pow2 n \<and>
    unat (size_approx (ring_of s)) = length (pushed s) - length (popped s)"
proof -
  obtain k where k: "round_up_pow2 n = 2 ^ k" "spsc_ok k s"
    by (rule spsc_reach_ok [OF assms])
  then have rel: "ring_rel (ring_of s) k (length (popped s)) (drop (length (popped s)) (pushed s))"
    by (simp add: spsc_ok_def)
  then have len: "length (pushed s) - length (popped s) \<le> 2 ^ k" "k \<le> 62"
    by (auto simp: ring_rel_def)
  have "size_approx (ring_of s) = of_nat (length (pushed s) - length (popped s))"
    using ring_distance(1) [OF rel] by (simp add: size_approx_def)
  then have "unat (size_approx (ring_of s)) = length (pushed s) - length (popped s)"
    using len pow2_bound [of k] by (simp add: unat_of_nat)
  then show ?thesis
    using k len(1) take_is_prefix [of "length (popped s)" "pushed s"] by (auto simp: spsc_ok_def)
qed

text \<open>
  C22.  The two sides never access the same slot: while the producer is about to write a slot and
  the consumer is about to read one, the slots differ, and the consumer's slot holds a value.
\<close>

theorem spsc_no_race:
  assumes "n \<le> 2 ^ 62" "spsc_reach n s" "cons s = CRead t"
  shows "(\<exists>v. buf (ring_of s) (slot_of (ring_of s) t) = Some v) \<and>
    (\<forall>v h. prod s = PWrite v h \<longrightarrow> slot_of (ring_of s) h \<noteq> slot_of (ring_of s) t)"
proof -
  obtain k where k: "spsc_ok k s"
    by (rule spsc_reach_ok [OF assms(1,2)])
  let ?n = "length (popped s)" and ?m = "length (pushed s)"
  have rel: "ring_rel (ring_of s) k ?n (drop ?n (pushed s))" and t: "t = tail (ring_of s)" "?n < ?m"
    using k assms(3) by (auto simp: spsc_ok_def)
  then have r: "k \<le> 62" "kCap (ring_of s) = 2 ^ k" "tail (ring_of s) = of_nat ?n"
    "head (ring_of s) = of_nat ?m"
    by (auto simp: ring_rel_def)
  have "slot_of (ring_of s) h \<noteq> slot_of (ring_of s) t" if "prod s = PWrite v h" for v h
  proof -
    have "h = of_nat ?m" "?m < ?n + 2 ^ k"
      using k that r(4) by (auto simp: spsc_ok_def)
    then show ?thesis
      using slot_of_inj [OF r(2,1), of ?m ?n ?n] t r(3) by auto
  qed
  moreover have "\<exists>v. buf (ring_of s) (slot_of (ring_of s) t) = Some v"
    using ring_rel_first rel t by (metis Cons_nth_drop_Suc)
  ultimately show ?thesis by blast
qed

lemma demo_spsc:
  obtains s :: "int spsc" where "spsc_reach 2 s" "prod s = PWrite 8 1" "cons s = CRead 0"
    "pushed s = [7]" "popped s = []" "slot_of (ring_of s) 0 = 0" "slot_of (ring_of s) 1 = 1"
proof -
  have cap: "round_up_pow2 2 = 2"
    by code_simp
  let ?s0 = "spsc_init 2 :: int spsc"
  let ?s1 = "?s0\<lparr>prod := PWrite 7 0\<rparr>"
  let ?s2 = "?s1\<lparr>ring_of := (ring_of ?s1)\<lparr>buf := (buf (ring_of ?s1))(slot_of (ring_of ?s1) 0 \<mapsto> 7)\<rparr>, prod := PStore 7 0\<rparr>"
  let ?s3 = "?s2\<lparr>ring_of := (ring_of ?s2)\<lparr>head := 0 + 1\<rparr>, prod := PIdle, pushed := pushed ?s2 @ [7]\<rparr>"
  let ?s4 = "?s3\<lparr>prod := PWrite 8 (head (ring_of ?s3))\<rparr>"
  let ?s5 = "?s4\<lparr>cons := CRead (tail (ring_of ?s4))\<rparr>"
  have "spsc_step ?s0 ?s1"
    using push_room [of ?s0 7] by (simp add: spsc_init_def ring_init_def cap)
  moreover have "spsc_step ?s1 ?s2"
    by (rule push_write) simp
  moreover have "spsc_step ?s2 ?s3"
    by (rule push_store) simp
  moreover have "spsc_step ?s3 ?s4"
    by (rule push_room) (simp_all add: spsc_init_def ring_init_def cap)
  moreover have "spsc_step ?s4 ?s5"
    by (rule pop_some) (simp_all add: spsc_init_def ring_init_def cap)
  ultimately have "spsc_step\<^sup>*\<^sup>* ?s0 ?s5"
    by (meson converse_rtranclp_into_rtranclp r_into_rtranclp)
  then show ?thesis
    using that [of ?s5]
    by (simp add: spsc_reach_def spsc_init_def ring_init_def slot_of_def kMask_def cap)
qed

theorem spsc_fifo_witness:
  "\<exists>s :: int spsc. pushed s = [7] \<and> prefix (popped s) (pushed s) \<and> unat (size_approx (ring_of s)) = 1"
proof -
  obtain s :: "int spsc" where s: "spsc_reach 2 s" "pushed s = [7]" "popped s = []"
    using demo_spsc by metis
  then show ?thesis
    using spsc_fifo [of 2 s] by auto
qed

theorem spsc_no_race_witness:
  "\<exists>s :: int spsc. prod s = PWrite 8 1 \<and> cons s = CRead 0 \<and> slot_of (ring_of s) 1 \<noteq> slot_of (ring_of s) 0"
proof -
  obtain s :: "int spsc" where s: "spsc_reach 2 s" "prod s = PWrite 8 1" "cons s = CRead 0"
    using demo_spsc by metis
  then show ?thesis
    using spsc_no_race [of 2 s 0] by auto
qed

end
