(* ===== verification/Doubles.thy ===== *)
theory Doubles
  imports Hft_Prelude Complex_Main "HOL-Library.Log_Nat"
begin

text \<open>
  The C++ type \<open>double\<close> as the code uses it: IEEE 754 binary64 with rounding to nearest, ties to
  even.  A finite value is its sign and its exact magnitude; every operation rounds the exact result.
  An infinity and a NaN carry a sign, because printing shows it.
\<close>

section \<open>Rounding\<close>

text \<open>The exponent of the leading binary digit of a positive rational.\<close>

definition flog2 :: "rat \<Rightarrow> int" where
  "flog2 x =
     (let (a, b) = quotient_of x; k = bitlen a - bitlen b in if 2 powi k \<le> x then k else k - 1)"

text \<open>The nearest integer, ties to the even one.\<close>

definition rne :: "rat \<Rightarrow> int" where
  "rne y =
     (let f = \<lfloor>y\<rfloor>; r = y - of_int f
      in if r < 1 / 2 then f else if r > 1 / 2 then f + 1 else if even f then f else f + 1)"

text \<open>The exponent of the last of the 53 significant digits, bounded below by the subnormals.\<close>

definition ulp_exp :: "rat \<Rightarrow> int" where
  "ulp_exp x = (if x \<le> 0 then - 1074 else max (- 1074) (flog2 x - 52))"

definition round_mag :: "rat \<Rightarrow> rat" where
  "round_mag x = of_int (rne (x / 2 powi ulp_exp x)) * 2 powi ulp_exp x"

datatype double = Fin bool rat | Infty bool | NaN bool

definition round64 :: "bool \<Rightarrow> rat \<Rightarrow> double" where
  "round64 s x = (let r = round_mag x in if 2 ^ 1024 \<le> r then Infty s else Fin s r)"

section \<open>Arithmetic\<close>

definition signed_mag :: "bool \<Rightarrow> rat \<Rightarrow> rat" where
  "signed_mag s m = (if s then - m else m)"

fun fneg :: "double \<Rightarrow> double" where
  "fneg (Fin s m) = Fin (\<not> s) m"
| "fneg (Infty s) = Infty (\<not> s)"
| "fneg (NaN s) = NaN (\<not> s)"

fun fadd :: "double \<Rightarrow> double \<Rightarrow> double" where
  "fadd (NaN s) y = NaN s"
| "fadd x (NaN t) = NaN t"
| "fadd (Infty s) (Infty t) = (if s = t then Infty s else NaN False)"
| "fadd (Infty s) (Fin t n) = Infty s"
| "fadd (Fin s m) (Infty t) = Infty t"
| "fadd (Fin s m) (Fin t n) =
     (let v = signed_mag s m + signed_mag t n
      in if v = 0 then Fin (s \<and> t) 0 else round64 (v < 0) \<bar>v\<bar>)"

definition fsub :: "double \<Rightarrow> double \<Rightarrow> double" where
  "fsub x y = fadd x (fneg y)"

fun fmul :: "double \<Rightarrow> double \<Rightarrow> double" where
  "fmul (NaN s) y = NaN s"
| "fmul x (NaN t) = NaN t"
| "fmul (Infty s) (Infty t) = Infty (s \<noteq> t)"
| "fmul (Infty s) (Fin t n) = (if n = 0 then NaN False else Infty (s \<noteq> t))"
| "fmul (Fin s m) (Infty t) = (if m = 0 then NaN False else Infty (s \<noteq> t))"
| "fmul (Fin s m) (Fin t n) = round64 (s \<noteq> t) (m * n)"

fun fdiv :: "double \<Rightarrow> double \<Rightarrow> double" where
  "fdiv (NaN s) y = NaN s"
| "fdiv x (NaN t) = NaN t"
| "fdiv (Infty s) (Infty t) = NaN False"
| "fdiv (Infty s) (Fin t n) = Infty (s \<noteq> t)"
| "fdiv (Fin s m) (Infty t) = Fin (s \<noteq> t) 0"
| "fdiv (Fin s m) (Fin t n) =
     (if n = 0 then (if m = 0 then NaN False else Infty (s \<noteq> t)) else round64 (s \<noteq> t) (m / n))"

text \<open>Conversions from and to integers; a value that does not fit the integer type is undefined.\<close>

definition double_of :: "int \<Rightarrow> double" where
  "double_of k = round64 (k < 0) (of_int \<bar>k\<bar>)"

fun truncate :: "int \<Rightarrow> int \<Rightarrow> double \<Rightarrow> int option" where
  "truncate lo hi (Fin s m) =
     (let v = (if s then - \<lfloor>m\<rfloor> else \<lfloor>m\<rfloor>) in if lo \<le> v \<and> v \<le> hi then Some v else None)"
| "truncate lo hi (Infty s) = None"
| "truncate lo hi (NaN s) = None"

definition to_int64 :: "double \<Rightarrow> int option" where
  "to_int64 d = truncate int64_min int64_max d"

definition to_uint64 :: "double \<Rightarrow> nat option" where
  "to_uint64 d = map_option nat (truncate 0 (2 ^ 64 - 1) d)"

text \<open>The comparison \<open>d <= 0\<close>, false on NaN.\<close>

fun le_zero :: "double \<Rightarrow> bool" where
  "le_zero (Fin s m) \<longleftrightarrow> s \<or> m = 0"
| "le_zero (Infty s) \<longleftrightarrow> s"
| "le_zero (NaN s) \<longleftrightarrow> False"

section \<open>The leading digit\<close>

lemma powi_pos [simp]: "0 < (2 :: rat) powi e"
  by simp

lemma powi_split: "(2 :: rat) powi (a + b) = 2 powi a * 2 powi b"
  by (simp add: power_int_add)

lemma powi_diff: "(2 :: rat) powi (a - b) = 2 powi a / 2 powi b"
  by (simp add: power_int_diff)

lemma powi_nat: "0 \<le> e \<Longrightarrow> (2 :: rat) powi e = of_int (2 ^ nat e)"
  by (simp add: power_int_def)

lemma flog2_bounds:
  assumes "0 < x"
  shows "2 powi flog2 x \<le> x" "x < 2 powi (flog2 x + 1)"
proof -
  obtain a b where q: "quotient_of x = (a, b)" by (cases "quotient_of x")
  then have x: "x = of_int a / of_int b" and b: "0 < b"
    by (auto simp: quotient_of_div quotient_of_denom_pos)
  then have a: "0 < a"
    using assms by (simp add: zero_less_divide_iff)
  let ?i = "bitlen a" and ?j = "bitlen b"
  have pos: "0 < ?i" "0 < ?j"
    using a b by (simp_all add: bitlen_nonneg order.strict_iff_order bitlen_eq_zero_iff)
  have "(of_int (2 ^ nat (?i - 1)) :: rat) \<le> of_int a" "(of_int a :: rat) < of_int (2 ^ nat ?i)"
    "(of_int (2 ^ nat (?j - 1)) :: rat) \<le> of_int b" "(of_int b :: rat) < of_int (2 ^ nat ?j)"
    using bitlen_bounds [OF a] bitlen_bounds [OF b] by (simp_all only: of_int_le_iff of_int_less_iff)
  then have A: "2 powi (?i - 1) \<le> (of_int a :: rat)" "(of_int a :: rat) < 2 powi ?i"
    and B: "2 powi (?j - 1) \<le> (of_int b :: rat)" "(of_int b :: rat) < 2 powi ?j"
    using pos by (simp_all add: powi_nat)
  have b': "0 < (of_int b :: rat)" using b by simp
  have "x * 2 powi (?j - 1) \<le> x * of_int b"
    using B(1) assms by (intro mult_left_mono) auto
  also have "x * of_int b = of_int a"
    using b by (simp add: x)
  finally have up: "x < 2 powi (?i - ?j + 1)"
    using A(2) by (simp add: powi_diff powi_split field_simps)
  have "of_int a \<le> x * 2 powi ?j"
    using B(2) a b by (simp add: x pos_le_divide_eq mult_left_mono less_imp_le)
  then have "2 powi (?i - 1) \<le> x * 2 powi ?j"
    using A(1) by (rule order_trans [rotated])
  then have "2 powi (?i - 1) / 2 powi ?j \<le> x"
    by (simp add: pos_divide_le_eq)
  then have lo: "2 powi (?i - ?j - 1) \<le> x"
    using powi_diff [of "?i - 1" ?j] by (simp add: algebra_simps)
  show "2 powi flog2 x \<le> x" "x < 2 powi (flog2 x + 1)"
    using up lo by (auto simp: flog2_def q Let_def)
qed

lemma powi_le_iff: "(2 :: rat) powi a \<le> 2 powi b \<longleftrightarrow> a \<le> b"
  using power_int_strict_increasing [of b a "2 :: rat"] power_int_increasing [of a b "2 :: rat"]
  by (cases "a \<le> b") auto

lemma powi_less_iff: "(2 :: rat) powi a < 2 powi b \<longleftrightarrow> a < b"
  using powi_le_iff [of b a] by linarith

lemma flog2_less:
  assumes "0 < x" "x < 2 powi m"
  shows "flog2 x < m"
  using flog2_bounds(1) [OF assms(1)] assms(2) powi_less_iff order_le_less_trans by blast

lemma flog2_ge:
  assumes "2 powi m \<le> x"
  shows "m \<le> flog2 x"
proof -
  have "0 < x" using assms powi_pos [of m] by linarith
  then have "(2 :: rat) powi m < 2 powi (flog2 x + 1)"
    using flog2_bounds(2) [of x] assms by linarith
  then show ?thesis by (simp add: powi_less_iff)
qed

text \<open>Overflow is decided on the exponent when the definitions are evaluated.\<close>

lemma round64_code [code]:
  "round64 s x = (let r = round_mag x in if 0 < r \<and> 1024 \<le> flog2 r then Infty s else Fin s r)"
proof -
  have pow: "(2 :: rat) ^ 1024 = 2 powi 1024"
    by (simp only: power_int_def) simp
  have "2 ^ 1024 \<le> r \<longleftrightarrow> 0 < r \<and> 1024 \<le> flog2 r" for r
  proof (cases "0 < r")
    case True
    then show ?thesis
      unfolding pow using flog2_ge flog2_bounds(1) [of r] powi_le_iff [of 1024 "flog2 r"] order_trans by blast
  next
    case False
    then have "\<not> (2 :: rat) powi 1024 \<le> r"
      using powi_pos [of 1024] by linarith
    then show ?thesis
      unfolding pow using False by blast
  qed
  then show ?thesis by (simp only: round64_def)
qed

section \<open>The nearest integer\<close>

lemma rne_cases: "rne y = \<lfloor>y\<rfloor> \<and> y - of_int \<lfloor>y\<rfloor> \<le> 1 / 2 \<or> rne y = \<lfloor>y\<rfloor> + 1 \<and> 1 / 2 \<le> y - of_int \<lfloor>y\<rfloor>"
  by (auto simp: rne_def Let_def)

lemma rne_error: "\<bar>of_int (rne y) - y\<bar> \<le> 1 / 2"
  using rne_cases [of y] floor_correct [of y] by (auto simp: abs_le_iff)

lemma rne_int [simp]: "rne (of_int n) = n"
  by (simp add: rne_def)

lemma rne_unique:
  assumes "\<bar>y - of_int n\<bar> < 1 / 2"
  shows "rne y = n"
proof -
  have "\<bar>of_int (rne y) - of_int n :: rat\<bar> < 1"
    using rne_error [of y] assms by linarith
  then have "\<bar>rne y - n\<bar> < 1" by linarith
  then show ?thesis by simp
qed

text \<open>No integer is closer.\<close>

lemma rne_nearest: "\<bar>of_int (rne y) - y\<bar> \<le> \<bar>of_int z - y\<bar>"
proof (cases "z = rne y")
  case False
  then have "1 \<le> \<bar>of_int z - of_int (rne y) :: rat\<bar>"
    by linarith
  then show ?thesis using rne_error [of y] by linarith
qed simp

lemma rne_le: "y \<le> of_int n \<Longrightarrow> rne y \<le> n"
  using rne_cases [of y] floor_correct [of y] by (auto simp: floor_le_iff le_floor_iff)

lemma rne_ge: "of_int n \<le> y \<Longrightarrow> n \<le> rne y"
  using rne_cases [of y] le_floor_iff [of n y] by auto

section \<open>Correct rounding\<close>

text \<open>The magnitudes that binary64 can represent, without and with the bound on the exponent.\<close>

definition dyadic :: "rat \<Rightarrow> bool" where
  "dyadic r \<longleftrightarrow> (\<exists>n e. 0 \<le> n \<and> n < 2 ^ 53 \<and> - 1074 \<le> e \<and> r = of_int n * 2 powi e)"

definition binary64 :: "rat \<Rightarrow> bool" where
  "binary64 r \<longleftrightarrow> (\<exists>n e. 0 \<le> n \<and> n < 2 ^ 53 \<and> - 1074 \<le> e \<and> e \<le> 971 \<and> r = of_int n * 2 powi e)"

fun double_ok :: "double \<Rightarrow> bool" where
  "double_ok (Fin s m) \<longleftrightarrow> binary64 m"
| "double_ok (Infty s) \<longleftrightarrow> True"
| "double_ok (NaN s) \<longleftrightarrow> True"

lemma dyadicI: "0 \<le> n \<Longrightarrow> n < 2 ^ 53 \<Longrightarrow> - 1074 \<le> e \<Longrightarrow> r = of_int n * 2 powi e \<Longrightarrow> dyadic r"
  unfolding dyadic_def by blast

lemma binary64I:
  "0 \<le> n \<Longrightarrow> n < 2 ^ 53 \<Longrightarrow> - 1074 \<le> e \<Longrightarrow> e \<le> 971 \<Longrightarrow> r = of_int n * 2 powi e \<Longrightarrow> binary64 r"
  unfolding binary64_def by blast

lemma ulp_exp_ge: "- 1074 \<le> ulp_exp x"
  by (simp add: ulp_exp_def)

lemma scaled_less:
  assumes "0 < x"
  shows "x / 2 powi ulp_exp x < 2 ^ 53"
proof -
  have "flog2 x + 1 \<le> ulp_exp x + 53"
    using assms by (simp add: ulp_exp_def)
  then have "x < 2 powi (ulp_exp x + 53)"
    using flog2_bounds(2) [OF assms] powi_le_iff order_less_le_trans by blast
  then show ?thesis
    by (simp add: powi_split field_simps)
qed

lemma rne_scaled:
  assumes "0 \<le> x"
  shows "0 \<le> rne (x / 2 powi ulp_exp x)" "rne (x / 2 powi ulp_exp x) \<le> 2 ^ 53"
proof -
  show "0 \<le> rne (x / 2 powi ulp_exp x)"
    using assms by (intro rne_ge) simp
  show "rne (x / 2 powi ulp_exp x) \<le> 2 ^ 53"
    using scaled_less [of x] assms by (intro rne_le) (cases "x = 0"; simp)
qed

lemma round_mag_nonneg: "0 \<le> x \<Longrightarrow> 0 \<le> round_mag x"
  using rne_scaled(1) by (simp add: round_mag_def)

lemma round_mag_dyadic:
  assumes "0 \<le> x"
  shows "dyadic (round_mag x)"
proof -
  define n where "n = rne (x / 2 powi ulp_exp x)"
  have n: "0 \<le> n" "n \<le> 2 ^ 53"
    using rne_scaled [OF assms] by (auto simp: n_def)
  show ?thesis
  proof (cases "n = 2 ^ 53")
    case True
    then have two: "(of_int n :: rat) = of_int (2 ^ 52) * 2"
      by simp
    have "round_mag x = of_int (2 ^ 52) * 2 powi (ulp_exp x + 1)"
      unfolding round_mag_def n_def [symmetric] powi_split two by (simp only: power_int_1_right ac_simps)
    then show ?thesis
      using ulp_exp_ge [of x] by (intro dyadicI [of "2 ^ 52" "ulp_exp x + 1"]) simp_all
  next
    case False
    then have "n < 2 ^ 53" using n(2) by linarith
    then show ?thesis
      using n(1) ulp_exp_ge [of x] by (intro dyadicI [of n "ulp_exp x"]) (simp_all add: round_mag_def n_def)
  qed
qed

text \<open>A representable magnitude is a multiple of the last digit of every smaller magnitude.\<close>

lemma round_mag_multiple:
  assumes "x = of_int z * 2 powi ulp_exp x"
  shows "round_mag x = x"
proof -
  have "x / 2 powi ulp_exp x = of_int z"
    using assms by (metis nonzero_mult_div_cancel_right power_int_not_zero zero_neq_numeral)
  then show ?thesis
    unfolding round_mag_def using assms by simp
qed

lemma dyadic_multiple:
  fixes r :: rat
  assumes "of_int n * 2 powi e = r" "e' \<le> e"
  shows "\<exists>z. r = of_int z * 2 powi e'"
proof
  have "(2 :: rat) powi e = 2 powi e' * of_int (2 ^ nat (e - e'))"
    using powi_split [of e' "e - e'"] powi_nat [of "e - e'"] assms(2) by simp
  then show "r = of_int (n * 2 ^ nat (e - e')) * 2 powi e'"
    using assms(1) by (simp add: mult.commute mult.left_commute)
qed

lemma ulp_exp_dyadic:
  assumes "n < 2 ^ 53" "- 1074 \<le> e" "r = of_int n * 2 powi e"
  shows "ulp_exp r \<le> e"
proof (cases "0 < r")
  case True
  have "(of_int n :: rat) < of_int (2 ^ 53)"
    using assms(1) by (simp only: of_int_less_iff)
  then have "r < 2 powi (e + 53)"
    by (simp add: assms(3) powi_split mult.commute)
  then show ?thesis
    using flog2_less [OF True, of "e + 53"] assms(2) by (simp add: ulp_exp_def)
qed (use assms in \<open>simp add: ulp_exp_def\<close>)

lemma round_mag_exact:
  assumes "dyadic r"
  shows "round_mag r = r"
proof -
  obtain n e where r: "n < 2 ^ 53" "- 1074 \<le> e" "r = of_int n * 2 powi e"
    using assms by (auto simp: dyadic_def)
  obtain z where "r = of_int z * 2 powi ulp_exp r"
    using dyadic_multiple [OF r(3) [symmetric] ulp_exp_dyadic [OF r]] by blast
  then show ?thesis by (rule round_mag_multiple)
qed

lemma round_mag_error:
  assumes "0 \<le> x" "x < 2 powi m" "- 1021 \<le> m"
  shows "\<bar>round_mag x - x\<bar> \<le> 2 powi (m - 54)"
proof -
  let ?u = "2 powi ulp_exp x :: rat"
  have "round_mag x - x = (of_int (rne (x / ?u)) - x / ?u) * ?u"
    by (simp add: round_mag_def field_simps)
  then have "\<bar>round_mag x - x\<bar> = \<bar>of_int (rne (x / ?u)) - x / ?u\<bar> * ?u"
    by (simp add: abs_mult)
  also have "\<dots> \<le> 1 / 2 * ?u"
    using rne_error by (intro mult_right_mono) auto
  also have "\<dots> = 2 powi (ulp_exp x - 1)"
    by (simp add: powi_diff)
  also have "\<dots> \<le> 2 powi (m - 54)"
  proof -
    have "ulp_exp x \<le> m - 53"
      using flog2_less [OF _ assms(2)] assms(3) by (auto simp: ulp_exp_def)
    then show ?thesis by (simp add: powi_le_iff)
  qed
  finally show ?thesis .
qed

text \<open>Rounding is correct: no representable magnitude is closer to the exact result.\<close>

lemma round_mag_nearest:
  assumes "0 \<le> x" "dyadic r"
  shows "\<bar>round_mag x - x\<bar> \<le> \<bar>r - x\<bar>"
proof -
  let ?u = "2 powi ulp_exp x :: rat"
  have multiple: "\<bar>round_mag x - x\<bar> \<le> \<bar>of_int z * ?u - x\<bar>" for z
  proof -
    have "\<bar>of_int (rne (x / ?u)) - x / ?u\<bar> * ?u \<le> \<bar>of_int z - x / ?u\<bar> * ?u"
      using rne_nearest [of "x / ?u" z] by (intro mult_right_mono) auto
    then have "\<bar>(of_int (rne (x / ?u)) - x / ?u) * ?u\<bar> \<le> \<bar>(of_int z - x / ?u) * ?u\<bar>"
      by (simp add: abs_mult)
    then show ?thesis
      by (simp add: round_mag_def left_diff_distrib)
  qed
  obtain n e where r: "0 \<le> n" "n < 2 ^ 53" "- 1074 \<le> e" "r = of_int n * 2 powi e"
    using assms(2) by (auto simp: dyadic_def)
  show ?thesis
  proof (cases "ulp_exp x \<le> e")
    case True
    then show ?thesis
      using dyadic_multiple [OF r(4) [symmetric] True] multiple by metis
  next
    case False
    then have big: "0 < x" "ulp_exp x = flog2 x - 52"
      using r(3) by (auto simp: ulp_exp_def split: if_splits)
    have "(of_int n :: rat) < of_int (2 ^ 53)"
      using r(2) by (simp only: of_int_less_iff)
    then have "r < 2 powi (e + 53)"
      by (simp add: r(4) powi_split mult.commute)
    also have "\<dots> \<le> 2 powi flog2 x"
      using False big by (simp add: powi_le_iff)
    finally have below: "r < 2 powi flog2 x" .
    have "of_int (2 ^ 52) * ?u = 2 powi flog2 x"
      using powi_split [of 52 "ulp_exp x"] big by simp
    then show ?thesis
      using multiple [of "2 ^ 52"] below flog2_bounds(1) [OF big(1)] by simp
  qed
qed

lemma round64_ok:
  assumes "0 \<le> x"
  shows "double_ok (round64 s x)"
proof (cases "2 ^ 1024 \<le> round_mag x")
  case False
  obtain n e where r: "0 \<le> n" "n < 2 ^ 53" "- 1074 \<le> e" "round_mag x = of_int n * 2 powi e"
    using round_mag_dyadic [OF assms] by (auto simp: dyadic_def)
  have "binary64 (round_mag x)"
  proof (cases "e \<le> 971")
    case True
    then show ?thesis using r by (auto simp: binary64_def)
  next
    case big: False
    obtain z where z: "round_mag x = of_int z * 2 powi 971"
      using dyadic_multiple [OF r(4) [symmetric], of 971] big by auto
    have two: "(2 :: rat) ^ 1024 = of_int (2 ^ 53) * 2 powi 971"
      using powi_split [of 53 971] by simp
    have "0 \<le> (of_int z :: rat)"
      using round_mag_nonneg [OF assms] z by (simp add: zero_le_mult_iff)
    moreover have "(of_int z :: rat) < of_int (2 ^ 53)"
      using False unfolding z two by (simp add: not_le)
    ultimately have "0 \<le> z" "z < 2 ^ 53"
      by (simp_all only: of_int_less_iff of_int_0_le_iff)
    then show ?thesis
      using z by (intro binary64I [of z 971]) simp_all
  qed
  then show ?thesis using False by (simp add: round64_def Let_def)
qed (simp add: round64_def Let_def)

lemma binary64_nonneg: "binary64 m \<Longrightarrow> 0 \<le> m"
  by (auto simp: binary64_def)

lemma binary64_0 [simp]: "binary64 0"
  by (rule binary64I [of 0 0]) simp_all

section \<open>Results that are exact or close\<close>

lemma round64_Fin:
  assumes "0 \<le> x" "x < 2 powi m" "- 1021 \<le> m" "m \<le> 1023"
  shows "round64 s x = Fin s (round_mag x)"
proof -
  have "round_mag x \<le> x + 2 powi (m - 54)"
    using round_mag_error [OF assms(1-3)] by linarith
  also have "\<dots> < 2 powi m + 2 powi m"
    using assms(2) powi_less_iff [of "m - 54" m] by linarith
  also have "2 powi m + 2 powi m = (2 :: rat) powi (m + 1)"
    by (simp add: powi_split)
  also have "\<dots> \<le> 2 powi 1024"
    using assms(4) by (simp only: powi_le_iff)
  also have "(2 :: rat) powi 1024 = 2 ^ 1024"
    by (simp only: power_int_def) simp
  finally show ?thesis by (simp add: round64_def Let_def)
qed

lemma dyadic_int:
  assumes "0 \<le> k" "k \<le> 2 ^ 53"
  shows "dyadic (of_int k)"
proof (cases "k = 2 ^ 53")
  case True
  then have "of_int k = of_int (2 ^ 52) * (2 :: rat) powi 1"
    by simp
  then show ?thesis by (rule dyadicI [rotated 3]) simp_all
qed (use assms in \<open>intro dyadicI [of k 0], auto\<close>)

lemma double_of_exact:
  assumes "\<bar>k\<bar> \<le> 2 ^ 53"
  shows "double_of k = Fin (k < 0) (of_int \<bar>k\<bar>)"
proof -
  have "(of_int \<bar>k\<bar> :: rat) \<le> of_int (2 ^ 53)"
    using assms by (simp only: of_int_le_iff)
  then have "(of_int \<bar>k\<bar> :: rat) < 2 powi 54"
    by simp
  from round64_Fin [OF _ this] round_mag_exact [OF dyadic_int [OF abs_ge_zero assms]]
  show ?thesis by (simp add: double_of_def)
qed

lemma to_int64_double_of:
  assumes "\<bar>k\<bar> \<le> 2 ^ 53"
  shows "to_int64 (double_of k) = Some k"
  using assms by (auto simp: double_of_exact to_int64_def int64_min_def int64_max_def Let_def)

lemma to_int64_between:
  assumes "of_int k \<le> m" "m < of_int k + 1" "0 \<le> k" "k \<le> int64_max"
  shows "to_int64 (Fin False m) = Some k"
proof -
  have "\<lfloor>m\<rfloor> = k"
    using assms(1,2) by (simp add: floor_eq_iff)
  then show ?thesis
    using assms(3,4) by (simp add: to_int64_def int64_min_def)
qed

section \<open>Bounds\<close>

text \<open>A representable bound on an exact result also bounds the rounded one.\<close>

lemma round_mag_le:
  assumes "0 \<le> x" "x \<le> r" "dyadic r"
  shows "round_mag x \<le> r"
  using round_mag_nearest [OF assms(1,3)] assms(2) by linarith

lemma round_mag_ge:
  assumes "r \<le> x" "0 \<le> x" "dyadic r"
  shows "r \<le> round_mag x"
  using round_mag_nearest [OF assms(2,3)] assms(1) by linarith

definition fin_le :: "double \<Rightarrow> rat \<Rightarrow> bool" where
  "fin_le d B \<longleftrightarrow> (\<exists>s m. d = Fin s m \<and> 0 \<le> m \<and> m \<le> B)"

lemma round64_le:
  assumes "0 \<le> x" "x \<le> r" "dyadic r" "r < 2 ^ 1024"
  shows "fin_le (round64 s x) r"
proof -
  have "round_mag x \<le> r"
    by (rule round_mag_le [OF assms(1-3)])
  then have "\<not> 2 ^ 1024 \<le> round_mag x"
    using assms(4) by (meson leD order_trans)
  then have "round64 s x = Fin s (round_mag x)"
    unfolding round64_def Let_def by (rule if_not_P)
  then show ?thesis
    using \<open>round_mag x \<le> r\<close> round_mag_nonneg [OF assms(1)] by (simp add: fin_le_def)
qed

lemma fin_le_mono: "fin_le d a \<Longrightarrow> a \<le> b \<Longrightarrow> fin_le d b"
  by (auto simp: fin_le_def)

lemma fin_le_0: "0 \<le> b \<Longrightarrow> fin_le (Fin s 0) b"
  by (simp add: fin_le_def)

lemma fin_le_add:
  assumes "fin_le x a" "fin_le y b" "dyadic (a + b)" "a + b < 2 ^ 1024"
  shows "fin_le (fadd x y) (a + b)"
proof -
  obtain s m t n where x: "x = Fin s m" "0 \<le> m" "m \<le> a" and y: "y = Fin t n" "0 \<le> n" "n \<le> b"
    using assms(1,2) by (auto simp: fin_le_def)
  define v where "v = signed_mag s m + signed_mag t n"
  have v: "\<bar>v\<bar> \<le> a + b"
    using x y by (auto simp: v_def signed_mag_def)
  have "fadd x y = (if v = 0 then Fin (s \<and> t) 0 else round64 (v < 0) \<bar>v\<bar>)"
    by (simp add: x y v_def Let_def)
  then show ?thesis
    using round64_le [OF abs_ge_zero v assms(3,4), of "v < 0"] fin_le_0 [of "a + b" "s \<and> t"] x y by auto
qed

lemma fin_le_mul:
  assumes "fin_le x a" "fin_le y b" "dyadic (a * b)" "a * b < 2 ^ 1024"
  shows "fin_le (fmul x y) (a * b)"
proof -
  obtain s m t n where x: "x = Fin s m" "0 \<le> m" "m \<le> a" and y: "y = Fin t n" "0 \<le> n" "n \<le> b"
    using assms(1,2) by (auto simp: fin_le_def)
  have "m * n \<le> a * b"
    using x y by (intro mult_mono) auto
  from round64_le [OF _ this assms(3,4), of "s \<noteq> t"] show ?thesis
    using x y by simp
qed

lemma fin_le_div:
  assumes "fin_le x a" "0 < n" "a / n \<le> r" "dyadic r" "r < 2 ^ 1024"
  shows "fin_le (fdiv x (Fin t n)) r"
proof -
  obtain s m where x: "x = Fin s m" "0 \<le> m" "m \<le> a"
    using assms(1) by (auto simp: fin_le_def)
  have "m / n \<le> r"
    using x(3) assms(2,3) divide_right_mono [of m a n] by simp
  from round64_le [OF _ this assms(4,5), of "s \<noteq> t"] show ?thesis
    using x assms(2) by simp
qed

lemma dyadic_scaled:
  assumes "0 \<le> n" "n \<le> 2 ^ 53" "- 1074 \<le> e"
  shows "dyadic (of_int n * 2 powi e)"
proof (cases "n = 2 ^ 53")
  case True
  then have two: "(of_int n :: rat) = of_int (2 ^ 52) * 2"
    by simp
  have "of_int n * 2 powi e = of_int (2 ^ 52) * (2 :: rat) powi (e + 1)"
    unfolding two powi_split by (simp only: power_int_1_right ac_simps)
  then show ?thesis
    using assms(3) by (intro dyadicI [of "2 ^ 52" "e + 1"]) simp_all
next
  case False
  then show ?thesis
    using assms by (intro dyadicI [of n e]) simp_all
qed

lemma dyadic_pow: "dyadic (2 ^ k)"
  using dyadic_scaled [of 1 "int k"] by (simp add: power_int_def)

lemma fin_le_int:
  assumes "is_s64 k"
  shows "fin_le (double_of k) (2 ^ 63)"
proof -
  have "\<bar>k\<bar> \<le> 2 ^ 63"
    using assms by (auto simp: is_s64_def int64_min_def int64_max_def)
  then have "(of_int \<bar>k\<bar> :: rat) \<le> of_int (2 ^ 63)"
    by (simp only: of_int_le_iff)
  then have "(of_int \<bar>k\<bar> :: rat) \<le> 2 ^ 63"
    by simp
  moreover have "(2 :: rat) ^ 63 < 2 ^ 1024"
    by (rule power_strict_increasing) simp_all
  ultimately show ?thesis
    unfolding double_of_def by (intro round64_le [OF _ _ dyadic_pow]) simp_all
qed

lemma double_of_pos:
  assumes "0 < k" "is_s64 k"
  obtains n where "double_of k = Fin False n" "1 \<le> n"
proof -
  obtain s m where d: "double_of k = Fin s m"
    using fin_le_int [OF assms(2)] by (auto simp: fin_le_def)
  then have s: "s = False" "m = round_mag (of_int \<bar>k\<bar>)"
    using assms(1) by (auto simp: double_of_def round64_def Let_def split: if_splits)
  have "(1 :: rat) \<le> of_int \<bar>k\<bar>"
    using assms(1) by simp
  then have "1 \<le> round_mag (of_int \<bar>k\<bar>)"
    using dyadic_pow [of 0] by (intro round_mag_ge) simp_all
  then show ?thesis
    using that d s by simp
qed

end
