(* ===== verification/C_Text.thy ===== *)
theory C_Text
  imports Doubles
begin

text \<open>
  The conversions between text and numbers of the C and C++ library that the components share:
  decimal output (\<open>std::to_chars\<close>, \<open>printf\<close>), the directives of \<open>sscanf\<close>, and \<open>strtod\<close>.  Bytes are
  characters with codes 0 to 255.
\<close>

section \<open>Bytes and digits\<close>

definition byte :: "char \<Rightarrow> nat" where
  "byte c = of_char c"

definition is_digit :: "char \<Rightarrow> bool" where
  "is_digit c \<longleftrightarrow> 48 \<le> byte c \<and> byte c \<le> 57"

definition digit_val :: "char \<Rightarrow> int" where
  "digit_val c = int (byte c) - 48"

definition dec_val :: "string \<Rightarrow> int" where
  "dec_val ds = foldl (\<lambda>v c. 10 * v + digit_val c) 0 ds"

definition nl :: char where "nl = CHR 0x0A"

section \<open>Decimal output\<close>

definition digit_char :: "nat \<Rightarrow> char" where
  "digit_char d = char_of (48 + d)"

fun dec :: "nat \<Rightarrow> string" where
  "dec n = (if n < 10 then [digit_char n] else dec (n div 10) @ [digit_char (n mod 10)])"

declare dec.simps [simp del]

text \<open>\<open>std::to_chars\<close>, and the formats \<open>%06zu\<close> and \<open>%03u\<close>.\<close>

definition to_chars :: "int \<Rightarrow> string" where
  "to_chars v = (if v < 0 then CHR ''-'' # dec (nat (- v)) else dec (nat v))"

definition pad0 :: "nat \<Rightarrow> string \<Rightarrow> string" where
  "pad0 w s = replicate (w - length s) (CHR ''0'') @ s"

lemma byte_digit: "d < 10 \<Longrightarrow> byte (digit_char d) = 48 + d"
  by (simp add: byte_def digit_char_def)

lemma is_digit_char: "d < 10 \<Longrightarrow> is_digit (digit_char d)"
  by (simp add: is_digit_def byte_digit)

lemma digit_val_char: "d < 10 \<Longrightarrow> digit_val (digit_char d) = int d"
  by (simp add: digit_val_def byte_digit)

lemma dec_val_snoc: "dec_val (ds @ [c]) = 10 * dec_val ds + digit_val c"
  by (simp add: dec_val_def)

lemma div_mod_10: "10 * int (n div 10) + int (n mod 10) = int n"
  using mult_div_mod_eq [of 10 n] by linarith

lemma dec_props: "dec n \<noteq> [] \<and> (\<forall>c \<in> set (dec n). is_digit c) \<and> dec_val (dec n) = int n"
proof (induction n rule: dec.induct)
  case (1 n)
  show ?case
  proof (cases "n < 10")
    case True
    then show ?thesis
      by (subst (1 2 3) dec.simps) (simp add: is_digit_char digit_val_char dec_val_def)
  next
    case False
    then show ?thesis
      using 1
      by (subst (1 2 3) dec.simps) (auto simp: is_digit_char dec_val_snoc digit_val_char div_mod_10)
  qed
qed

lemma dec_length: "n < 10 ^ k \<Longrightarrow> 0 < k \<Longrightarrow> length (dec n) \<le> k"
proof (induction k arbitrary: n)
  case (Suc k)
  show ?case
  proof (cases "n < 10")
    case True
    then show ?thesis by (subst dec.simps) simp
  next
    case False
    then have "0 < k" "n div 10 < 10 ^ k"
      using Suc.prems(1) by (cases k; simp)+ 
    then show ?thesis
      using Suc.IH [of "n div 10"] False by (subst dec.simps) simp
  qed
qed simp

lemma dec_val_zeros: "dec_val (replicate k (CHR ''0'') @ s) = dec_val s"
proof -
  have "foldl (\<lambda>v c. 10 * v + digit_val c) 0 (replicate k (CHR ''0'')) = 0"
    by (induction k) (simp_all add: digit_val_def byte_def)
  then show ?thesis by (simp add: dec_val_def)
qed

lemma pad0_props:
  assumes "length (dec n) \<le> w"
  shows "length (pad0 w (dec n)) = w" "\<forall>c \<in> set (pad0 w (dec n)). is_digit c"
    "dec_val (pad0 w (dec n)) = int n" "pad0 w (dec n) \<noteq> []"
  using assms dec_props [of n] by (auto simp: pad0_def dec_val_zeros is_digit_def byte_def)

lemma to_chars_digits:
  assumes "0 \<le> t"
  shows "\<forall>c \<in> set (to_chars t). is_digit c" "to_chars t \<noteq> []" "dec_val (to_chars t) = t"
  using dec_props [of "nat t"] assms by (simp_all add: to_chars_def)

section \<open>Scanning numbers\<close>

text \<open>
  The directives of \<open>sscanf\<close>.  A scanner gives \<^term>\<open>Some None\<close> when the input does not match,
  otherwise the value and the rest of the input.
\<close>

type_synonym 'a scanner = "string \<Rightarrow> ('a \<times> string) option option"

definition then_scan :: "'a scanner \<Rightarrow> ('a \<Rightarrow> 'b scanner) \<Rightarrow> 'b scanner" where
  "then_scan f g s =
     (case f s of None \<Rightarrow> None | Some None \<Rightarrow> Some None | Some (Some (a, r)) \<Rightarrow> g a r)"

definition is_space :: "char \<Rightarrow> bool" where
  "is_space c \<longleftrightarrow> byte c = 32 \<or> 9 \<le> byte c \<and> byte c \<le> 13"

text \<open>An optional sign and at least one digit, after white space.\<close>

definition scan_number :: "string \<Rightarrow> (bool \<times> int \<times> string) option" where
  "scan_number s =
     (let s1 = dropWhile is_space s;
          neg = (s1 \<noteq> [] \<and> hd s1 = CHR ''-'');
          s2 = (if s1 \<noteq> [] \<and> (hd s1 = CHR ''-'' \<or> hd s1 = CHR ''+'') then tl s1 else s1);
          ds = takeWhile is_digit s2
      in if ds = [] then None else Some (neg, dec_val ds, drop (length ds) s2))"

definition scan_unsigned :: "int \<Rightarrow> nat scanner" where
  "scan_unsigned limit s =
     (case scan_number s of
        None \<Rightarrow> Some None
      | Some (neg, v, r) \<Rightarrow>
          if v \<ge> limit then None else Some (Some (nat ((if neg then - v else v) mod limit), r)))"

definition scan_signed :: "int scanner" where
  "scan_signed s =
     (case scan_number s of
        None \<Rightarrow> Some None
      | Some (neg, v, r) \<Rightarrow>
          let x = (if neg then - v else v)
          in if is_s64 x then Some (Some (x, r)) else None)"

definition number_stops :: "string \<Rightarrow> bool" where
  "number_stops r \<longleftrightarrow> r = [] \<or> \<not> is_digit (hd r)"

lemma takeWhile_digits:
  "\<forall>c \<in> set ds. is_digit c \<Longrightarrow> number_stops r \<Longrightarrow> takeWhile is_digit (ds @ r) = ds"
  by (induction ds) (auto simp: number_stops_def takeWhile_eq_Nil_iff)

lemma digit_plain: "is_digit c \<Longrightarrow> \<not> is_space c \<and> c \<noteq> CHR ''-'' \<and> c \<noteq> CHR ''+'' \<and> c \<noteq> nl \<and> c \<noteq> CHR 0x00"
  by (auto simp: is_digit_def is_space_def byte_def nl_def)

lemma scan_number_dec:
  assumes "number_stops r"
  shows "scan_number (dec n @ r) = Some (False, int n, r)"
proof -
  obtain d ds where d: "dec n = d # ds"
    using dec_props [of n] by (cases "dec n") auto
  have plain: "\<not> is_space d" "d \<noteq> CHR ''-''" "d \<noteq> CHR ''+''"
    using dec_props [of n] digit_plain [of d] by (auto simp: d)
  have tw: "takeWhile is_digit (dec n @ r) = dec n"
    using takeWhile_digits [OF _ assms] dec_props [of n] by blast
  have "dropWhile is_space (dec n @ r) = dec n @ r" "hd (dec n @ r) = d"
    using plain(1) by (simp_all add: d)
  then show ?thesis
    unfolding scan_number_def Let_def using plain dec_props [of n] by (simp add: tw)
qed

lemma scan_number_to_chars:
  assumes "number_stops r"
  shows "scan_number (to_chars v @ r) = Some (v < 0, \<bar>v\<bar>, r)"
proof (cases "v < 0")
  case False
  then show ?thesis using scan_number_dec [OF assms, of "nat v"] by (simp add: to_chars_def)
next
  case True
  have tw: "takeWhile is_digit (dec (nat (- v)) @ r) = dec (nat (- v))"
    using takeWhile_digits [OF _ assms] dec_props [of "nat (- v)"] by blast
  have "\<not> is_space (CHR ''-'')"
    by (simp add: is_space_def byte_def)
  then have "dropWhile is_space (CHR ''-'' # dec (nat (- v)) @ r) = CHR ''-'' # dec (nat (- v)) @ r"
    by simp
  then show ?thesis
    using True dec_props [of "nat (- v)"] unfolding scan_number_def to_chars_def Let_def by (simp add: tw)
qed

lemma scan_fields:
  "number_stops r \<Longrightarrow> int n < limit \<Longrightarrow> scan_unsigned limit (dec n @ r) = Some (Some (n, r))"
  "number_stops r \<Longrightarrow> is_s64 v \<Longrightarrow> scan_signed (to_chars v @ r) = Some (Some (v, r))"
  by (simp_all add: scan_unsigned_def scan_signed_def scan_number_dec scan_number_to_chars)

section \<open>Reading doubles\<close>

text \<open>
  \<open>strtod\<close> in the default locale: white space, a sign, then an infinity, a NaN, a hexadecimal or a
  decimal number; the result is the correctly rounded value.  \<^term>\<open>None\<close> when no conversion is possible.
\<close>

definition lower :: "char \<Rightarrow> char" where
  "lower c = (if 65 \<le> byte c \<and> byte c \<le> 90 then char_of (byte c + 32) else c)"

definition starts_ci :: "string \<Rightarrow> string \<Rightarrow> bool" where
  "starts_ci p s \<longleftrightarrow> map lower (take (length p) s) = p"

definition is_hex :: "char \<Rightarrow> bool" where
  "is_hex c \<longleftrightarrow> is_digit c \<or> 97 \<le> byte (lower c) \<and> byte (lower c) \<le> 102"

definition hex_val :: "string \<Rightarrow> int" where
  "hex_val ds = foldl (\<lambda>v c. 16 * v + (if is_digit c then digit_val c else int (byte (lower c)) - 87)) 0 ds"

text \<open>The digits before and after the point, and what follows.\<close>

definition mantissa :: "(char \<Rightarrow> bool) \<Rightarrow> string \<Rightarrow> string \<times> string \<times> string" where
  "mantissa P s =
     (let ip = takeWhile P s; r = drop (length ip) s
      in if r \<noteq> [] \<and> hd r = CHR ''.''
         then (let fp = takeWhile P (tl r) in (ip, fp, drop (length fp) (tl r))) else (ip, [], r))"

text \<open>An exponent counts only when it has a digit.\<close>

definition exponent_of :: "char \<Rightarrow> string \<Rightarrow> int" where
  "exponent_of mark s =
     (if s = [] \<or> lower (hd s) \<noteq> mark then 0
      else let r = tl s;
               neg = (r \<noteq> [] \<and> hd r = CHR ''-'');
               r' = (if r \<noteq> [] \<and> (hd r = CHR ''-'' \<or> hd r = CHR ''+'') then tl r else r);
               v = dec_val (takeWhile is_digit r')
           in if neg then - v else v)"

definition strtod :: "string \<Rightarrow> double option" where
  "strtod s =
     (let s1 = dropWhile is_space s;
          neg = (s1 \<noteq> [] \<and> hd s1 = CHR ''-'');
          s2 = (if s1 \<noteq> [] \<and> (hd s1 = CHR ''-'' \<or> hd s1 = CHR ''+'') then tl s1 else s1);
          (hi, hf, hr) = mantissa is_hex (drop 2 s2);
          (di, df, dr) = mantissa is_digit s2
      in if starts_ci ''inf'' s2 then Some (Infty neg)
         else if starts_ci ''nan'' s2 then Some (NaN neg)
         else if starts_ci ''0x'' s2 \<and> hi @ hf \<noteq> [] then
           Some (round64 neg (of_int (hex_val (hi @ hf)) * 2 powi (exponent_of (CHR ''p'') hr - 4 * int (length hf))))
         else if di @ df \<noteq> [] then
           Some (round64 neg (of_int (dec_val (di @ df)) * 10 powi (exponent_of (CHR ''e'') dr - int (length df))))
         else None)"

section \<open>Printing doubles\<close>

text \<open>
  The format \<open>%.Nf\<close>: the exact decimal expansion, rounded to \<open>N\<close> places with ties to even.
\<close>

definition fixed_mag :: "nat \<Rightarrow> rat \<Rightarrow> string" where
  "fixed_mag N m =
     (let ds = pad0 (N + 1) (dec (nat (rne (m * 10 ^ N)))); k = length ds - N
      in if N = 0 then ds else take k ds @ ''.'' @ drop k ds)"

fun print_f :: "nat \<Rightarrow> double \<Rightarrow> string" where
  "print_f N (Fin s m) = (if s then ''-'' else []) @ fixed_mag N m"
| "print_f N (Infty s) = (if s then ''-'' else []) @ ''inf''"
| "print_f N (NaN s) = (if s then ''-'' else []) @ ''nan''"

section \<open>Numbers that survive the round trip\<close>

text \<open>An amount of \<open>k\<close> hundredths, in the notation with two decimals.\<close>

definition cents :: "nat \<Rightarrow> string" where
  "cents k = dec (k div 100) @ ''.'' @ pad0 2 (dec (k mod 100))"

lemma digit_char_0 [simp]: "digit_char 0 = CHR ''0''"
  by code_simp

lemma dec_small: "n < 10 \<Longrightarrow> dec n = [digit_char n]"
  by (subst dec.simps) simp

lemma dec_large: "\<not> n < 10 \<Longrightarrow> dec n = dec (n div 10) @ [digit_char (n mod 10)]"
  by (subst dec.simps) simp

lemma dec_split:
  assumes "100 \<le> n"
  shows "dec n = dec (n div 100) @ [digit_char (n div 10 mod 10), digit_char (n mod 10)]"
proof -
  have "\<not> n < 10" "\<not> n div 10 < 10"
    using assms by auto
  then show ?thesis
    using dec_large [of n] dec_large [of "n div 10"] by (simp add: div_mult2_eq [symmetric])
qed

lemma pad0_two: "n < 100 \<Longrightarrow> pad0 2 (dec n) = [digit_char (n div 10), digit_char (n mod 10)]"
  by (cases "n < 10") (simp_all add: dec_small dec_large [of n] pad0_def)

lemma pad0_three: "n < 100 \<Longrightarrow> pad0 3 (dec n) = CHR ''0'' # pad0 2 (dec n)"
  using dec_length [of n 2] by (simp add: pad0_def Suc_diff_le numeral_3_eq_3 numeral_2_eq_2)

lemma pad0_dec3:
  "pad0 3 (dec n) = dec (n div 100) @ pad0 2 (dec (n mod 100))"
proof (cases "n < 100")
  case True
  then show ?thesis
    by (simp add: pad0_three dec_small)
next
  case False
  have "1 \<le> length (dec (n div 100))"
    using dec_props [of "n div 100"] by (cases "dec (n div 100)") auto
  then have "pad0 3 (dec n) = dec n"
    using False dec_split [of n] by (simp add: pad0_def)
  moreover have "n mod 100 div 10 = n div 10 mod 10" "n mod 100 mod 10 = n mod 10"
    using mod_mult2_eq [of n 10 10] by simp_all
  ultimately show ?thesis
    using dec_split [of n] pad0_two [of "n mod 100"] False by simp
qed

lemma fixed_mag_cents:
  assumes "\<bar>m * 100 - of_nat n\<bar> < 1 / 2"
  shows "fixed_mag 2 m = cents n"
proof -
  have "rne (m * 10 ^ 2) = int n"
    using assms by (intro rne_unique) simp
  moreover have "length (pad0 2 (dec (n mod 100))) = 2"
    by (simp add: pad0_two)
  ultimately show ?thesis
    using pad0_dec3 [of n] by (simp add: fixed_mag_def cents_def Let_def)
qed

lemma print_f_int:
  assumes "\<bar>k\<bar> \<le> 2 ^ 53"
  shows "print_f 0 (double_of k) = to_chars k"
proof -
  have pad: "pad0 1 (dec n) = dec n" for n
    using dec_props [of n] by (simp add: pad0_def Suc_le_eq)
  have "rne (of_int \<bar>k\<bar>) = \<bar>k\<bar>"
    by (rule rne_int)
  then show ?thesis
    using double_of_exact [OF assms] pad by (simp add: fixed_mag_def Let_def to_chars_def)
qed

text \<open>The double next to \<open>n / 100\<close>.\<close>

lemma cents_close:
  assumes "n < 2 ^ 49"
  shows "round64 s (of_nat n / 100) = Fin s (round_mag (of_nat n / 100))"
    "\<bar>round_mag (of_nat n / 100) - of_nat n / 100\<bar> \<le> 1 / 2048"
proof -
  have "(of_nat n :: rat) < of_nat (2 ^ 49)"
    using assms by (simp only: of_nat_less_iff)
  then have x: "(of_nat n / 100 :: rat) < 2 powi 43"
    by simp
  show "round64 s (of_nat n / 100) = Fin s (round_mag (of_nat n / 100))"
    by (rule round64_Fin [OF _ x]) simp_all
  show "\<bar>round_mag (of_nat n / 100) - of_nat n / 100\<bar> \<le> 1 / 2048"
    using round_mag_error [OF _ x] by simp
qed

lemma print_cents:
  assumes "n < 2 ^ 49"
  shows "print_f 2 (round64 False (of_nat n / 100)) = cents n"
proof -
  have "\<bar>round_mag (of_nat n / 100) * 100 - of_nat n\<bar> < (1 / 2 :: rat)"
    using cents_close(2) [OF assms] by linarith
  then show ?thesis
    by (simp add: cents_close(1) [OF assms] fixed_mag_cents)
qed

lemma dec_val_append: "dec_val (a @ b) = dec_val a * 10 ^ length b + dec_val b"
proof (induction b rule: rev_induct)
  case (snoc c b)
  have "dec_val (a @ b @ [c]) = 10 * dec_val (a @ b) + digit_val c"
    using dec_val_snoc [of "a @ b" c] by simp
  then show ?case
    by (simp add: snoc dec_val_snoc algebra_simps)
qed (simp add: dec_val_def)

text \<open>A decimal numeral is read as its value.\<close>

lemma digit_lower: "is_digit c \<Longrightarrow> lower c = c"
  by (auto simp: is_digit_def lower_def)

lemma not_inf_nan:
  assumes "is_digit c"
  shows "\<not> starts_ci ''inf'' (c # s)" "\<not> starts_ci ''nan'' (c # s)"
  using assms digit_lower [OF assms] by (auto simp: starts_ci_def is_digit_def byte_def)

lemma not_hex:
  assumes "is_digit c" "s = [] \<or> hd s = CHR ''.'' \<or> is_digit (hd s)"
  shows "\<not> starts_ci ''0x'' (c # s)"
  using assms digit_lower [of "hd s"]
  by (cases s) (auto simp: starts_ci_def is_digit_def byte_def lower_def)

lemma strtod_decimal:
  assumes "\<forall>c \<in> set ds. is_digit c" "ds \<noteq> []" "\<forall>c \<in> set fs. is_digit c"
  shows "strtod (ds @ (if fs = [] then [] else CHR ''.'' # fs)) =
    Some (round64 False (of_int (dec_val (ds @ fs)) * 10 powi (- int (length fs))))"
proof -
  let ?s = "ds @ (if fs = [] then [] else CHR ''.'' # fs)"
  obtain c cs where c: "ds = c # cs"
    using assms(2) by (cases ds) auto
  have c1: "is_digit c" using assms(1) c by simp
  note plain = digit_plain [OF c1]
  have point: "\<not> is_digit (CHR ''.'')"
    by (simp add: is_digit_def byte_def)
  have tw: "takeWhile is_digit ?s = ds" "takeWhile is_digit fs = fs"
    using assms point by (auto simp: takeWhile_eq_all_conv intro!: takeWhile_digits simp: number_stops_def)
  have mant: "mantissa is_digit ?s = (ds, fs, [])"
    unfolding mantissa_def Let_def tw by (simp add: tw(2))
  have "dropWhile is_space ?s = ?s" "?s \<noteq> []" "hd ?s = c"
    using plain by (simp_all add: c)
  moreover have "\<not> starts_ci ''inf'' ?s" "\<not> starts_ci ''nan'' ?s"
    using not_inf_nan [OF c1] by (simp_all add: c)
  moreover have "\<not> starts_ci ''0x'' ?s"
    using not_hex [OF c1, of "cs @ (if fs = [] then [] else CHR ''.'' # fs)"] assms(1)
    by (cases cs) (auto simp: c)
  ultimately show ?thesis
    unfolding strtod_def Let_def using plain assms(2)
    by (simp add: mant exponent_of_def split: prod.splits)
qed

text \<open>The length of a printed double.\<close>

lemma print_f_length:
  assumes "fin_le d (10 ^ k)"
  shows "length (print_f N d) \<le> k + N + 3"
proof -
  obtain s m where d: "d = Fin s m" "0 \<le> m" "m \<le> 10 ^ k"
    using assms by (auto simp: fin_le_def)
  have "m * 10 ^ N \<le> of_int (10 ^ (k + N))"
    using d(3) by (simp add: power_add mult_right_mono)
  then have "rne (m * 10 ^ N) \<le> 10 ^ (k + N)"
    by (rule rne_le)
  then have "nat (rne (m * 10 ^ N)) \<le> 10 ^ (k + N)"
    by (simp add: nat_le_iff)
  also have "(10 :: nat) ^ (k + N) < 10 ^ (k + N + 1)"
    by simp
  finally have "length (dec (nat (rne (m * 10 ^ N)))) \<le> k + N + 1"
    by (intro dec_length) simp_all
  then have "length (pad0 (N + 1) (dec (nat (rne (m * 10 ^ N))))) \<le> k + N + 1"
    by (simp add: pad0_def)
  then have "length (fixed_mag N m) \<le> k + N + 2"
    by (cases "N = 0") (simp_all add: fixed_mag_def Let_def)
  then show ?thesis
    by (simp add: d(1))
qed

lemma print_f_plain:
  assumes "c \<in> set (print_f N d)"
  shows "is_digit c \<or> c \<in> set ''-.infa''"
proof -
  have zero: "is_digit (CHR ''0'')"
    by (simp add: is_digit_def byte_def)
  have "is_digit c \<or> c = CHR ''.''" if c: "c \<in> set (fixed_mag N m)" for m
  proof -
    let ?ds = "pad0 (N + 1) (dec (nat (rne (m * 10 ^ N))))"
    have "\<forall>c \<in> set ?ds. is_digit c"
      using dec_props [of "nat (rne (m * 10 ^ N))"] zero by (auto simp: pad0_def)
    moreover have "c \<in> set ?ds \<or> c = CHR ''.''"
      using c by (auto simp: fixed_mag_def Let_def split: if_splits dest: in_set_takeD in_set_dropD)
    ultimately show ?thesis by blast
  qed
  then show ?thesis
    using assms by (cases d) (auto split: if_splits)
qed

end
