(* ===== verification/Fix_Parser.thy ===== *)
theory Fix_Parser
  imports C_Text
begin

text \<open>
  The FIX 4.4 parser of \<open>src/mvp/src/fix/parser.h\<close> and \<open>parser.cpp\<close>: the accessors of a parsed
  message, the checksum, the extraction of one frame from a byte stream (\<open>split_frame\<close>) and the
  split of a frame into fields (\<open>parse_frame\<close>).
\<close>

section \<open>Bytes and numbers\<close>

definition SOH :: char where
  "SOH = CHR 0x01"

text \<open>
  \<open>std::from_chars\<close> for an unsigned and a signed type: the longest prefix of digits, after an
  optional minus sign for the signed type; \<^term>\<open>None\<close> is an error code (no digits, or out of range).
\<close>

definition from_chars_unsigned :: "int \<Rightarrow> string \<Rightarrow> int option" where
  "from_chars_unsigned hi s =
     (let ds = takeWhile is_digit s
      in if ds = [] \<or> dec_val ds > hi then None else Some (dec_val ds))"

definition from_chars_signed :: "int \<Rightarrow> int \<Rightarrow> string \<Rightarrow> int option" where
  "from_chars_signed lo hi s =
     (case s of
        [] \<Rightarrow> None
      | c # cs \<Rightarrow>
          if c = CHR ''-'' then
            (let ds = takeWhile is_digit cs
             in if ds = [] \<or> - dec_val ds < lo then None else Some (- dec_val ds))
          else from_chars_unsigned hi s)"

definition int32_max :: int where
  "int32_max = 2147483647"

definition int32_min :: int where
  "int32_min = - 2147483648"

definition size_max :: int where
  "size_max = 18446744073709551615"

section \<open>Messages\<close>

record field =
  ftag :: int
  fvalue :: string

record message =
  msg_fields :: "field list"

definition MsgType :: int where "MsgType = 35"
definition SenderCompID :: int where "SenderCompID = 49"
definition TargetCompID :: int where "TargetCompID = 56"
definition MsgSeqNum :: int where "MsgSeqNum = 34"
definition ClOrdID :: int where "ClOrdID = 11"
definition OrigClOrdID :: int where "OrigClOrdID = 41"
definition OrderID :: int where "OrderID = 37"
definition ExecID :: int where "ExecID = 17"
definition ExecType :: int where "ExecType = 150"
definition OrdStatus :: int where "OrdStatus = 39"
definition Symbol :: int where "Symbol = 55"
definition SideTag :: int where "SideTag = 54"
definition OrderQty :: int where "OrderQty = 38"
definition CumQty :: int where "CumQty = 14"
definition LeavesQty :: int where "LeavesQty = 151"
definition LastQty :: int where "LastQty = 32"
definition LastPx :: int where "LastPx = 31"
definition PriceTag :: int where "PriceTag = 44"
definition AvgPx :: int where "AvgPx = 6"
definition MDReqID :: int where "MDReqID = 262"
definition NoMDEntries :: int where "NoMDEntries = 268"
definition MDEntryType :: int where "MDEntryType = 269"
definition MDEntryPx :: int where "MDEntryPx = 270"
definition MDEntrySize :: int where "MDEntrySize = 271"
definition EncryptMethod :: int where "EncryptMethod = 98"
definition HeartBtInt :: int where "HeartBtInt = 108"
definition Text :: int where "Text = 58"

fun get_from :: "int \<Rightarrow> field list \<Rightarrow> string" where
  "get_from tag [] = []"
| "get_from tag (f # fs) = (if ftag f = tag then fvalue f else get_from tag fs)"

definition msg_get :: "int \<Rightarrow> message \<Rightarrow> string" where
  "msg_get tag m = get_from tag (msg_fields m)"

fun has_in :: "int \<Rightarrow> field list \<Rightarrow> bool" where
  "has_in tag [] = False"
| "has_in tag (f # fs) = (if ftag f = tag then True else has_in tag fs)"

definition msg_has :: "int \<Rightarrow> message \<Rightarrow> bool" where
  "msg_has tag m = has_in tag (msg_fields m)"

definition msg_get_int :: "int \<Rightarrow> int \<Rightarrow> message \<Rightarrow> int" where
  "msg_get_int tag def m =
     (let v = msg_get tag m
      in if v = [] then def
         else (case from_chars_signed int64_min int64_max v of None \<Rightarrow> def | Some n \<Rightarrow> n))"

text \<open>\<open>strtod\<close> on a copy of at most 63 bytes; the copy ends at the first NUL.\<close>

definition msg_get_double :: "int \<Rightarrow> double \<Rightarrow> message \<Rightarrow> double" where
  "msg_get_double tag def m =
     (let v = msg_get tag m
      in if v = [] \<or> length v \<ge> 64 then def
         else (case strtod (takeWhile (\<lambda>c. c \<noteq> CHR 0x00) v) of None \<Rightarrow> def | Some d \<Rightarrow> d))"

definition msg_type :: "message \<Rightarrow> char" where
  "msg_type m = (let v = msg_get MsgType m in if v = [] then CHR 0x00 else hd v)"

section \<open>Framing\<close>

definition checksum :: "string \<Rightarrow> nat" where
  "checksum bytes = nat ((int (sum_list (map byte bytes)) mod 2 ^ 32) mod 256)"

datatype frame_status = FrameOk string nat | Incomplete | Malformed

definition kBegin :: string where
  "kBegin = ''8=FIX.4.4'' @ [SOH]"

text \<open>
  The loop over the digits of the body length: \<^term>\<open>None\<close> when it meets a byte that is neither a
  digit nor SOH, \<^term>\<open>Some None\<close> when the buffer ends first, otherwise the distance to SOH.
\<close>

fun scan_len :: "string \<Rightarrow> nat option option" where
  "scan_len [] = Some None"
| "scan_len (c # cs) =
     (if c = SOH then Some (Some 0)
      else if \<not> is_digit c then None
      else map_option (map_option Suc) (scan_len cs))"

text \<open>The checksum digits are accumulated in a \<open>uint8_t\<close>.\<close>

fun read_checksum :: "nat \<Rightarrow> string \<Rightarrow> nat option" where
  "read_checksum got [] = Some got"
| "read_checksum got (c # cs) =
     (if \<not> is_digit c then None else read_checksum (nat ((int got * 10 + digit_val c) mod 256)) cs)"

text \<open>
  The header: the index one past the body, or the status with which the function returns.
\<close>

definition frame_header :: "string \<Rightarrow> frame_status + nat" where
  "frame_header buf =
     (if length buf < length kBegin then Inl Incomplete
      else if take (length kBegin) buf \<noteq> kBegin then Inl Malformed
      else let pos = length kBegin in
      if length buf < pos + 2 then Inl Incomplete
      else if buf ! pos \<noteq> CHR ''9'' \<or> buf ! (pos + 1) \<noteq> CHR ''='' then Inl Malformed
      else let len_start = pos + 2 in
      (case scan_len (drop len_start buf) of
         None \<Rightarrow> Inl Malformed
       | Some None \<Rightarrow> Inl Incomplete
       | Some (Some n) \<Rightarrow>
           (case from_chars_unsigned size_max (take n (drop len_start buf)) of
              None \<Rightarrow> Inl Malformed
            | Some body_len \<Rightarrow>
                if body_len > 1048576 then Inl Malformed
                else Inr (len_start + n + 1 + nat body_len))))"

text \<open>The trailer \<open>10=NNN\<close> and SOH after the body, and the comparison of the checksum.\<close>

definition frame_trailer :: "string \<Rightarrow> nat \<Rightarrow> frame_status" where
  "frame_trailer buf body_end =
     (let total = body_end + 7 in
      if length buf < total then Incomplete
      else if buf ! body_end \<noteq> CHR ''1'' \<or> buf ! (body_end + 1) \<noteq> CHR ''0'' \<or>
              buf ! (body_end + 2) \<noteq> CHR ''='' \<or> buf ! (total - 1) \<noteq> SOH then Malformed
      else (case read_checksum 0 (take 3 (drop (body_end + 3) buf)) of
              None \<Rightarrow> Malformed
            | Some got \<Rightarrow>
                if got \<noteq> checksum (take body_end buf) then Malformed
                else FrameOk (take total buf) total))"

definition split_frame :: "string \<Rightarrow> frame_status" where
  "split_frame buf =
     (case frame_header buf of Inl st \<Rightarrow> st | Inr body_end \<Rightarrow> frame_trailer buf body_end)"

section \<open>Fields\<close>

fun scan_tag :: "string \<Rightarrow> nat option" where
  "scan_tag [] = None"
| "scan_tag (c # cs) =
     (if c = CHR ''='' then Some 0 else if \<not> is_digit c then None else map_option Suc (scan_tag cs))"

lemma scan_tag_less: "scan_tag s = Some n \<Longrightarrow> n < length s"
  by (induction s arbitrary: n) (auto split: if_splits)

text \<open>The loop of \<open>parse_frame\<close>; the fields pushed before a failure stay in the output.\<close>

function parse_loop :: "string \<Rightarrow> field list \<Rightarrow> bool \<times> field list" where
  "parse_loop s acc =
     (if s = [] then (True, acc)
      else (case scan_tag s of
              None \<Rightarrow> (False, acc)
            | Some n \<Rightarrow>
                (case from_chars_signed int32_min int32_max (take n s) of
                   None \<Rightarrow> (False, acc)
                 | Some tag \<Rightarrow>
                     let rest = drop (n + 1) s; v = takeWhile (\<lambda>c. c \<noteq> SOH) rest
                     in if length v = length rest then (False, acc)
                        else parse_loop (drop (length v + 1) rest)
                               (acc @ [\<lparr>ftag = tag, fvalue = v\<rparr>]))))"
  by pat_completeness auto
termination
  by (relation "measure (\<lambda>(s, acc). length s)") (auto dest: scan_tag_less)

declare parse_loop.simps [simp del]

definition parse_frame :: "string \<Rightarrow> bool \<times> message" where
  "parse_frame frame = (let (ok, fs) = parse_loop frame [] in (ok, \<lparr>msg_fields = fs\<rparr>))"

end
