(* ===== verification/Fix_Builder.thy ===== *)
theory Fix_Builder
  imports Fix_Parser
begin

text \<open>
  The message builder of \<open>src/mvp/src/fix/parser.cpp\<close> and the round trip with the parser: a
  finalized message is extracted by \<open>split_frame\<close> from the front of any stream, every strict prefix
  of it is incomplete, and \<open>parse_frame\<close> gives back the fields that were added.
\<close>

section \<open>The builder\<close>

record builder =
  bbuf :: string
  body_start :: nat
  body_len_slot :: nat

definition builder_init :: builder where
  "builder_init = \<lparr>bbuf = [], body_start = 0, body_len_slot = 0\<rparr>"

definition add_str :: "int \<Rightarrow> string \<Rightarrow> builder \<Rightarrow> builder" where
  "add_str tag v b = b\<lparr>bbuf := bbuf b @ to_chars tag @ ''='' @ v @ [SOH]\<rparr>"

definition add_int :: "int \<Rightarrow> int \<Rightarrow> builder \<Rightarrow> builder" where
  "add_int tag v b = b\<lparr>bbuf := bbuf b @ to_chars tag @ ''='' @ to_chars v @ [SOH]\<rparr>"

text \<open>
  The value is printed into 64 bytes, the last of them NUL, but as many bytes are appended as the
  whole text has: beyond 64 the read is out of bounds (\<^term>\<open>None\<close>).
\<close>

definition add_double :: "int \<Rightarrow> double \<Rightarrow> nat \<Rightarrow> builder \<Rightarrow> builder option" where
  "add_double tag v decimals b =
     (let t = print_f decimals v; n = length t
      in if n > 64 then None
         else Some (b\<lparr>bbuf := bbuf b @ to_chars tag @ ''='' @ take n (take 63 t @ [CHR 0x00]) @ [SOH]\<rparr>))"

definition add_char :: "int \<Rightarrow> char \<Rightarrow> builder \<Rightarrow> builder" where
  "add_char tag c b = b\<lparr>bbuf := bbuf b @ to_chars tag @ ''='' @ [c] @ [SOH]\<rparr>"

definition begin_header :: "builder \<Rightarrow> builder" where
  "begin_header b =
     (let b0 = b\<lparr>bbuf := []\<rparr>;
          b1 = b0\<lparr>bbuf := bbuf b0 @ ''8=FIX.4.4'' @ [SOH] @ ''9=''\<rparr>;
          b2 = b1\<lparr>body_len_slot := length (bbuf b1)\<rparr>;
          b3 = b2\<lparr>bbuf := bbuf b2 @ ''000000'' @ [SOH]\<rparr>
      in b3\<lparr>body_start := length (bbuf b3)\<rparr>)"

definition begin_msg :: "char \<Rightarrow> string \<Rightarrow> string \<Rightarrow> int \<Rightarrow> builder \<Rightarrow> builder" where
  "begin_msg mtype sender_comp target_comp seq_num b =
     add_int MsgSeqNum seq_num (add_str TargetCompID target_comp
       (add_str SenderCompID sender_comp (add_char MsgType mtype (begin_header b))))"

text \<open>The length is printed into a buffer of seven bytes, so at most six characters survive.\<close>

definition finalize :: "builder \<Rightarrow> builder" where
  "finalize b =
     (let body_len = length (bbuf b) - body_start b;
          lenbuf = take 6 (pad0 6 (dec body_len));
          buf1 = take (body_len_slot b) (bbuf b) @ lenbuf @ drop (body_len_slot b + 6) (bbuf b);
          cs = checksum buf1
      in b\<lparr>bbuf := buf1 @ ''10='' @ pad0 3 (dec cs) @ [SOH]\<rparr>)"

section \<open>Numbers\<close>

lemma digit_not_special:
  "is_digit c \<Longrightarrow> c \<noteq> SOH" "is_digit c \<Longrightarrow> c \<noteq> CHR ''=''" "is_digit c \<Longrightarrow> c \<noteq> CHR ''-''"
  by (auto simp: is_digit_def byte_def SOH_def)

lemma from_chars_digits:
  assumes "\<forall>c \<in> set ds. is_digit c" "ds \<noteq> []" "dec_val ds \<le> hi"
  shows "from_chars_unsigned hi ds = Some (dec_val ds)" "from_chars_signed lo hi ds = Some (dec_val ds)"
proof -
  have tw: "takeWhile is_digit ds = ds"
    using assms(1) by (simp add: takeWhile_eq_all_conv)
  show u: "from_chars_unsigned hi ds = Some (dec_val ds)"
    unfolding from_chars_unsigned_def tw using assms by simp
  show "from_chars_signed lo hi ds = Some (dec_val ds)"
    using assms u digit_not_special(3) [of "hd ds"] by (cases ds) (auto simp: from_chars_signed_def)
qed

lemma scan_len_digits:
  "\<forall>c \<in> set ds. is_digit c \<Longrightarrow> scan_len (ds @ SOH # r) = Some (Some (length ds))"
  "\<forall>c \<in> set ds. is_digit c \<Longrightarrow> scan_len ds = Some None"
  by (induction ds) (auto dest: digit_not_special)

lemma scan_tag_digits:
  "\<forall>c \<in> set ds. is_digit c \<Longrightarrow> scan_tag (ds @ CHR ''='' # r) = Some (length ds)"
  by (induction ds) (auto dest: digit_not_special)

lemma read_checksum_digits:
  "\<forall>c \<in> set ds. is_digit c \<Longrightarrow> got < 256 \<Longrightarrow>
   read_checksum got ds = Some (nat (foldl (\<lambda>v c. 10 * v + digit_val c) (int got) ds mod 256))"
proof (induction ds arbitrary: got)
  case (Cons c ds)
  have *: "foldl (\<lambda>v c. 10 * v + digit_val c) (x mod 256) ds mod 256 =
      foldl (\<lambda>v c. 10 * v + digit_val c) x ds mod 256" for x
  proof (induction ds arbitrary: x)
    case (Cons c ds)
    have "foldl (\<lambda>v c. 10 * v + digit_val c) (10 * (x mod 256) + digit_val c) ds mod 256 =
        foldl (\<lambda>v c. 10 * v + digit_val c) ((10 * (x mod 256) + digit_val c) mod 256) ds mod 256"
      by (rule Cons.IH [symmetric])
    also have "(10 * (x mod 256) + digit_val c) mod 256 = (10 * x + digit_val c) mod 256"
      by (metis mod_add_left_eq mod_mult_right_eq)
    finally show ?case
      using Cons.IH [of "10 * x + digit_val c"] by simp
  qed simp
  show ?case
    using Cons * [of "int got * 10 + digit_val c"] by (simp add: nat_less_iff mult.commute)
qed simp

section \<open>Framing of a built message\<close>

definition header :: "string \<Rightarrow> string" where
  "header ds = kBegin @ ''9='' @ ds @ [SOH]"

lemma kBegin_length [simp]: "length kBegin = 10"
  by (simp add: kBegin_def)

lemma nth_header:
  "(kBegin @ CHR ''9'' # CHR ''='' # s) ! 10 = CHR ''9''"
  "(kBegin @ CHR ''9'' # CHR ''='' # s) ! 11 = CHR ''=''"
  "drop 12 (kBegin @ CHR ''9'' # CHR ''='' # s) = s"
  by (simp_all add: nth_append)

text \<open>After a well-formed header the outcome depends on the rest \<open>r\<close> of the buffer alone.\<close>

lemma split_frame_body:
  assumes ds: "\<forall>c \<in> set ds. is_digit c" "ds \<noteq> []" "dec_val ds = int L" "L \<le> 1048576"
  shows "split_frame (header ds @ r) =
    (if length r < L + 7 then Incomplete
     else if take 3 (drop L r) \<noteq> ''10='' \<or> r ! (L + 6) \<noteq> SOH then Malformed
     else (case read_checksum 0 (take 3 (drop (L + 3) r)) of
             None \<Rightarrow> Malformed
           | Some got \<Rightarrow> if got \<noteq> checksum (header ds @ take L r) then Malformed
               else FrameOk (header ds @ take (L + 7) r) (length (header ds) + L + 7)))"
proof -
  let ?H = "header ds" and ?n = "length ds"
  have buf: "?H @ r = kBegin @ CHR ''9'' # CHR ''='' # ds @ SOH # r"
    by (simp add: header_def)
  have front: "take (length kBegin) (?H @ r) = kBegin" "(?H @ r) ! 10 = CHR ''9''"
    "(?H @ r) ! (10 + 1) = CHR ''=''" "drop (10 + 2) (?H @ r) = ds @ SOH # r"
    unfolding buf using nth_header by simp_all
  have len: "length ?H = 10 + 2 + ?n + 1"
    by (simp add: header_def)
  have size: "\<not> length (?H @ r) < length kBegin" "\<not> length (?H @ r) < 10 + 2"
    by (simp_all add: len)
  have num: "from_chars_unsigned size_max ds = Some (int L)"
    using from_chars_digits(1) [OF ds(1,2), of size_max] ds(3,4) by (simp add: size_max_def)
  have ends: "(?H @ r) ! (length ?H + k) = r ! k" "drop (length ?H + k) (?H @ r) = drop k r"
    "take (length ?H + k) (?H @ r) = ?H @ take k r" for k
    by (simp_all add: nth_append)
  have trailer: "take 3 (drop L r) = ''10='' \<longleftrightarrow>
      r ! L = CHR ''1'' \<and> r ! (L + 1) = CHR ''0'' \<and> r ! (L + 2) = CHR ''=''" if "L + 7 \<le> length r"
  proof -
    have "take 3 (drop L r) = [r ! L, r ! (L + 1), r ! (L + 2)]"
      using that by (simp add: take_Suc_conv_app_nth numeral_3_eq_3)
    then show ?thesis by auto
  qed
  define B where "B = ?H @ r"
  note front = front [folded B_def] and size = size [folded B_def] and ends = ends [folded B_def]
  have "frame_header B = Inr (length ?H + L)"
    using ds(4) size front
    by (simp add: frame_header_def Let_def scan_len_digits(1) [OF ds(1)] num len add.assoc)
  then have "split_frame B = frame_trailer B (length ?H + L)"
    by (simp add: split_frame_def)
  also have "\<dots> =
    (if length B < length ?H + (L + 7) then Incomplete
     else if B ! (length ?H + L) \<noteq> CHR ''1'' \<or> B ! (length ?H + (L + 1)) \<noteq> CHR ''0'' \<or>
             B ! (length ?H + (L + 2)) \<noteq> CHR ''='' \<or> B ! (length ?H + (L + 6)) \<noteq> SOH
     then Malformed
     else (case read_checksum 0 (take 3 (drop (length ?H + (L + 3)) B)) of
             None \<Rightarrow> Malformed
           | Some got \<Rightarrow> if got \<noteq> checksum (take (length ?H + L) B) then Malformed
               else FrameOk (take (length ?H + (L + 7)) B) (length ?H + L + 7)))"
  proof -
    have "length ?H + L + 7 - 1 = length ?H + (L + 6)" by simp
    then show ?thesis by (simp add: frame_trailer_def Let_def ac_simps cong: option.case_cong if_cong)
  qed
  finally show ?thesis
    unfolding ends B_def [symmetric] using trailer by (auto simp: B_def split: option.splits)
qed

definition frame_of :: "string \<Rightarrow> string" where
  "frame_of body =
     (let h = header (pad0 6 (dec (length body)))
      in h @ body @ ''10='' @ pad0 3 (dec (checksum (h @ body))) @ [SOH])"

lemma checksum_less: "checksum s < 256"
  by (simp add: checksum_def nat_less_iff)

lemma len_digits:
  assumes "n < 1000000"
  shows "length (pad0 6 (dec n)) = 6" "\<forall>c \<in> set (pad0 6 (dec n)). is_digit c"
    "dec_val (pad0 6 (dec n)) = int n" "pad0 6 (dec n) \<noteq> []"
  using pad0_props [of n 6] dec_length [of n 6] assms by auto

lemma cs_digits:
  assumes "n < 256"
  shows "length (pad0 3 (dec n)) = 3" "\<forall>c \<in> set (pad0 3 (dec n)). is_digit c"
    "dec_val (pad0 3 (dec n)) = int n" "read_checksum 0 (pad0 3 (dec n)) = Some n"
proof -
  show *: "length (pad0 3 (dec n)) = 3" "\<forall>c \<in> set (pad0 3 (dec n)). is_digit c"
    "dec_val (pad0 3 (dec n)) = int n"
    using pad0_props [of n 3] dec_length [of n 3] assms by auto
  show "read_checksum 0 (pad0 3 (dec n)) = Some n"
    using read_checksum_digits [OF *(2), of 0] *(3) assms by (simp add: dec_val_def)
qed

lemma frame_of_length:
  "length body < 1000000 \<Longrightarrow> length (frame_of body) = length body + 26"
  using checksum_less by (simp add: frame_of_def Let_def header_def len_digits cs_digits)

lemma split_frame_of:
  assumes "length body < 1000000"
  shows "split_frame (frame_of body @ rest) = FrameOk (frame_of body) (length (frame_of body))"
proof -
  let ?ds = "pad0 6 (dec (length body))"
  define cs where "cs = checksum (header ?ds @ body)"
  let ?t = "''10='' @ pad0 3 (dec cs) @ [SOH]"
  have cs: "cs < 256"
    by (simp add: cs_def checksum_less)
  have f: "frame_of body = header ?ds @ body @ ?t"
    by (simp add: frame_of_def cs_def Let_def)
  have r: "take 3 (drop (length body) (body @ ?t @ rest)) = ''10=''"
    "take 3 (drop (length body + 3) (body @ ?t @ rest)) = pad0 3 (dec cs)"
    "(body @ ?t @ rest) ! (length body + 6) = SOH"
    "take (length body + 7) (body @ ?t @ rest) = body @ ?t"
    using cs_digits(1) [OF cs] by (simp_all add: nth_append numeral_3_eq_3)
  have "split_frame (header ?ds @ (body @ ?t @ rest)) =
      FrameOk (header ?ds @ body @ ?t) (length (header ?ds) + length body + 7)"
    using assms cs_digits [OF cs] r
    by (subst split_frame_body [OF len_digits(2,4,3) [OF assms]]) (auto simp: cs_def)
  then show ?thesis
    using cs_digits(1) [OF cs] by (simp add: f)
qed

lemma split_frame_no_soh:
  assumes "\<forall>c \<in> set ds. is_digit c"
  shows "split_frame (kBegin @ CHR ''9'' # CHR ''='' # ds) = Incomplete"
proof -
  define B where "B = kBegin @ CHR ''9'' # CHR ''='' # ds"
  have "take 10 B = kBegin" "B ! 10 = CHR ''9''" "B ! 11 = CHR ''=''" "drop 12 B = ds" "\<not> length B < 12"
    unfolding B_def using nth_header [of ds] by simp_all
  then have "split_frame B = Incomplete"
    by (simp add: split_frame_def frame_header_def Let_def scan_len_digits(2) [OF assms])
  then show ?thesis by (simp add: B_def)
qed

lemma split_frame_prefix:
  assumes "length body < 1000000" "n < length (frame_of body)"
  shows "split_frame (take n (frame_of body)) = Incomplete"
proof -
  let ?ds = "pad0 6 (dec (length body))"
  obtain r where f: "frame_of body = header ?ds @ r"
    by (simp add: frame_of_def Let_def)
  then have r: "length r = length body + 7"
    using frame_of_length [OF assms(1)] len_digits(1) [OF assms(1)] by (simp add: header_def)
  note ds = len_digits [OF assms(1)]
  have full: "frame_of body = kBegin @ CHR ''9'' # CHR ''='' # ?ds @ SOH # r"
    by (simp add: f header_def)
  consider "n < 10" | "n = 10 \<or> n = 11" | m where "n = 12 + m" "m \<le> 6" | m where "n = 19 + m"
  proof -
    have "n < 10 \<or> (n = 10 \<or> n = 11) \<or> (n = 12 + (n - 12) \<and> n - 12 \<le> 6) \<or> n = 19 + (n - 19)"
      by arith
    then show ?thesis using that by blast
  qed
  then show ?thesis
  proof cases
    case 1
    then have "length (take n (frame_of body)) < length kBegin"
      by (simp add: min.strict_coboundedI2)
    then show ?thesis by (simp only: split_frame_def frame_header_def if_True sum.case)
  next
    case 2
    then have "take 10 (take n (frame_of body)) = kBegin" "length (take n (frame_of body)) < 12"
      "10 \<le> length (take n (frame_of body))"
      by (auto simp: full)
    then show ?thesis by (simp add: split_frame_def frame_header_def Let_def)
  next
    case (3 m)
    then have "take n (frame_of body) = kBegin @ CHR ''9'' # CHR ''='' # take m ?ds"
      using ds(1) by (simp add: full)
    then show ?thesis
      using split_frame_no_soh [of "take m ?ds"] ds(2) by (auto dest: in_set_takeD)
  next
    case (4 m)
    moreover have "length (header ?ds) = 19"
      using ds(1) by (simp add: header_def)
    ultimately have "take n (frame_of body) = header ?ds @ take m r"
      by (simp add: f)
    moreover have "length (take m r) < length body + 7"
      using 4 assms(2) r frame_of_length [OF assms(1)] by simp
    ultimately show ?thesis
      using assms(1) by (simp only: split_frame_body [OF ds(2,4,3)]) simp
  qed
qed

section \<open>Fields of a built message\<close>

definition enc_field :: "int \<times> string \<Rightarrow> string" where
  "enc_field f = to_chars (fst f) @ ''='' @ snd f @ [SOH]"

definition enc_fields :: "(int \<times> string) list \<Rightarrow> string" where
  "enc_fields fs = concat (map enc_field fs)"

definition field_ok :: "int \<times> string \<Rightarrow> bool" where
  "field_ok f \<longleftrightarrow> 0 \<le> fst f \<and> fst f \<le> int32_max \<and> SOH \<notin> set (snd f)"

definition to_field :: "int \<times> string \<Rightarrow> field" where
  "to_field f = \<lparr>ftag = fst f, fvalue = snd f\<rparr>"

text \<open>A builder between \<open>begin\<close> and \<open>finalize\<close> holds the header and the fields added so far.\<close>

definition builder_has :: "builder \<Rightarrow> (int \<times> string) list \<Rightarrow> bool" where
  "builder_has b fs \<longleftrightarrow>
     bbuf b = header ''000000'' @ enc_fields fs \<and> body_start b = 19 \<and> body_len_slot b = 12"

lemma enc_fields_simps [simp]:
  "enc_fields [] = []" "enc_fields (fs @ gs) = enc_fields fs @ enc_fields gs"
  "enc_fields (f # fs) = enc_field f @ enc_fields fs"
  by (simp_all add: enc_fields_def)

lemma builder_adds:
  assumes "builder_has b fs"
  shows "builder_has (add_str t v b) (fs @ [(t, v)])"
    "builder_has (add_int t n b) (fs @ [(t, to_chars n)])"
    "builder_has (add_char t c b) (fs @ [(t, [c])])"
  using assms by (simp_all add: builder_has_def add_str_def add_int_def add_char_def enc_field_def)

lemma add_double_text:
  "length (print_f N v) \<le> 63 \<Longrightarrow> add_double t v N b = Some (add_str t (print_f N v) b)"
  by (simp add: add_double_def add_str_def Let_def)

lemma builder_begin:
  "builder_has (begin_msg ty sender target seq b)
     [(MsgType, [ty]), (SenderCompID, sender), (TargetCompID, target), (MsgSeqNum, to_chars seq)]"
proof -
  have "builder_has (begin_header b) []"
    by (simp add: begin_header_def Let_def builder_has_def header_def kBegin_def)
  from builder_adds(2) [OF builder_adds(1) [OF builder_adds(1) [OF builder_adds(3) [OF this]]]]
  show ?thesis by (simp add: begin_msg_def)
qed

lemma finalize_frame:
  assumes "builder_has b fs" "length (enc_fields fs) < 1000000"
  shows "bbuf (finalize b) = frame_of (enc_fields fs)"
proof -
  let ?body = "enc_fields fs" and ?ds = "pad0 6 (dec (length (enc_fields fs)))"
  have b: "bbuf b = header ''000000'' @ ?body" "body_start b = 19" "body_len_slot b = 12"
    using assms(1) by (auto simp: builder_has_def)
  have "length (bbuf b) - body_start b = length ?body"
    by (simp add: b header_def)
  moreover have "take 6 ?ds = ?ds"
    using len_digits(1) [OF assms(2)] by simp
  moreover have "take 12 (bbuf b) @ ?ds @ drop (12 + 6) (bbuf b) = header ?ds @ ?body"
    by (simp add: b header_def kBegin_def numeral_eq_Suc)
  ultimately show ?thesis
    by (simp add: finalize_def frame_of_def Let_def b(3))
qed

lemma parse_loop_field:
  assumes "field_ok f"
  shows "parse_loop (enc_field f @ rest) acc = parse_loop rest (acc @ [to_field f])"
proof -
  obtain t v where f: "f = (t, v)" by (cases f)
  have t: "0 \<le> t" "t \<le> int32_max" and v: "SOH \<notin> set v"
    using assms by (auto simp: field_ok_def f)
  note ds = to_chars_digits [OF t(1)]
  let ?s = "to_chars t @ CHR ''='' # v @ SOH # rest"
  have tw: "takeWhile (\<lambda>c. c \<noteq> SOH) (v @ SOH # rest) = v"
    using v by (induction v) auto
  have "scan_tag ?s = Some (length (to_chars t))"
    by (rule scan_tag_digits [OF ds(1)])
  moreover have "from_chars_signed int32_min int32_max (to_chars t) = Some t"
    using from_chars_digits(2) [OF ds(1,2)] t(2) ds(3) by simp
  ultimately have "parse_loop ?s acc = parse_loop rest (acc @ [\<lparr>ftag = t, fvalue = v\<rparr>])"
    using ds(2) by (subst parse_loop.simps) (simp add: tw Let_def)
  then show ?thesis
    by (simp add: f enc_field_def to_field_def)
qed

lemma parse_loop_fields:
  assumes "\<forall>f \<in> set fs. field_ok f"
  shows "parse_loop (enc_fields fs) acc = (True, acc @ map to_field fs)"
  using assms
proof (induction fs arbitrary: acc)
  case Nil
  then show ?case by (subst parse_loop.simps) simp
next
  case (Cons f fs)
  then show ?case by (simp add: parse_loop_field)
qed

text \<open>A frame is itself a sequence of fields: the header fields, the body and the trailer.\<close>

definition frame_fields :: "(int \<times> string) list \<Rightarrow> (int \<times> string) list" where
  "frame_fields fs =
     (let ds = pad0 6 (dec (length (enc_fields fs)))
      in [(8, ''FIX.4.4''), (9, ds)] @ fs @
         [(10, pad0 3 (dec (checksum (header ds @ enc_fields fs))))])"

lemma frame_of_fields: "frame_of (enc_fields fs) = enc_fields (frame_fields fs)"
proof -
  have "to_chars 8 = ''8''" "to_chars 9 = ''9''" "to_chars 10 = ''10''"
    by code_simp+
  then show ?thesis
    by (simp add: frame_of_def frame_fields_def Let_def enc_field_def header_def kBegin_def)
qed

lemma digits_no_soh: "\<forall>c \<in> set s. is_digit c \<Longrightarrow> SOH \<notin> set s"
  using digit_not_special(1) by blast

lemma parse_built:
  assumes "\<forall>f \<in> set fs. field_ok f" "length (enc_fields fs) < 1000000"
  shows "parse_frame (frame_of (enc_fields fs)) = (True, \<lparr>msg_fields = map to_field (frame_fields fs)\<rparr>)"
proof -
  have "\<forall>f \<in> set (frame_fields fs). field_ok f"
    using assms(1) digits_no_soh [OF len_digits(2) [OF assms(2)]]
      digits_no_soh [OF cs_digits(2) [OF checksum_less]]
    by (auto simp: frame_fields_def Let_def field_ok_def int32_max_def SOH_def)
  then show ?thesis
    by (simp add: parse_frame_def frame_of_fields parse_loop_fields)
qed

end
