(* ===== verification/Fix_Framing.thy ===== *)
theory Fix_Framing
  imports Fix_Builder
begin

text \<open>
  Framing of the byte stream: what \<open>split_frame\<close> guarantees on arbitrary input, the loop of
  \<open>session_loop\<close> (\<open>gateway.cpp\<close>) that drains complete frames from the receive buffer, and its
  independence of how the network cuts the stream into chunks.
\<close>

section \<open>The outcome of \<open>split_frame\<close>\<close>

text \<open>
  A decision of the header or of the trailer is taken on bytes that are already there; more bytes at
  the end of the buffer do not change it.
\<close>

lemma scan_len_append:
  "scan_len s = None \<Longrightarrow> scan_len (s @ t) = None"
  "scan_len s = Some (Some n) \<Longrightarrow> scan_len (s @ t) = Some (Some n) \<and> n < length s"
  by (induction s arbitrary: n) (auto split: if_splits)

lemma frame_header_append:
  assumes "frame_header buf = h" "h \<noteq> Inl Incomplete"
  shows "frame_header (buf @ ext) = h"
proof -
  have a: "\<not> length buf < length kBegin"
    using assms by (auto simp: frame_header_def)
  show ?thesis
  proof (cases "take (length kBegin) buf = kBegin")
    case False
    then show ?thesis using a assms by (auto simp: frame_header_def)
  next
    case True
    have b: "\<not> length buf < 12"
      using assms a True by (auto simp: frame_header_def)
    have app: "take (length kBegin) (buf @ ext) = kBegin" "\<not> length (buf @ ext) < length kBegin"
      "\<not> length (buf @ ext) < 12" "(buf @ ext) ! 10 = buf ! 10" "(buf @ ext) ! 11 = buf ! 11"
      "drop 12 (buf @ ext) = drop 12 buf @ ext"
      using a b True by (auto simp: nth_append)
    show ?thesis
    proof (cases "scan_len (drop 12 buf)")
      case None
      then show ?thesis
        using assms a b True app scan_len_append(1) [OF None, of ext]
        by (auto simp: frame_header_def Let_def)
    next
      case (Some m)
      then show ?thesis
        using assms a b True app scan_len_append(2) [of "drop 12 buf" _ ext]
        by (cases m) (auto simp: frame_header_def Let_def split: if_splits)
    qed
  qed
qed

lemma frame_trailer_append:
  assumes "frame_trailer buf e = st" "st \<noteq> Incomplete"
  shows "frame_trailer (buf @ ext) e = st"
proof -
  have a: "e + 7 \<le> length buf"
    using assms by (auto simp: frame_trailer_def Let_def split: if_splits)
  then have same: "(buf @ ext) ! e = buf ! e" "(buf @ ext) ! (e + 1) = buf ! (e + 1)"
    "(buf @ ext) ! (e + 2) = buf ! (e + 2)" "(buf @ ext) ! (e + 7 - 1) = buf ! (e + 7 - 1)"
    "take 3 (drop (e + 3) (buf @ ext)) = take 3 (drop (e + 3) buf)"
    "take e (buf @ ext) = take e buf" "take (e + 7) (buf @ ext) = take (e + 7) buf"
    by (simp_all add: nth_append)
  have len: "\<not> length (buf @ ext) < e + 7" "\<not> length buf < e + 7"
    using a by auto
  show ?thesis
    using assms(1) unfolding frame_trailer_def Let_def same if_not_P [OF len(1)] if_not_P [OF len(2)] .
qed

lemma split_frame_append:
  assumes "split_frame buf = st" "st \<noteq> Incomplete"
  shows "split_frame (buf @ ext) = st"
proof (cases "frame_header buf")
  case (Inl a)
  then show ?thesis
    using assms frame_header_append [OF Inl, of ext] by (simp add: split_frame_def)
next
  case (Inr e)
  then show ?thesis
    using assms frame_header_append [OF Inr, of ext] frame_trailer_append [of buf e st ext]
    by (simp add: split_frame_def)
qed

lemma split_frame_ok:
  assumes "split_frame buf = FrameOk f n"
  shows "7 \<le> n" "n \<le> length buf" "f = take n buf"
    "read_checksum 0 (take 3 (drop (n - 4) buf)) = Some (checksum (take (n - 7) buf))"
proof -
  obtain e where "frame_trailer buf e = FrameOk f n"
    using assms by (auto simp: split_frame_def frame_header_def Let_def split: sum.splits if_splits option.splits)
  then show "7 \<le> n" "n \<le> length buf" "f = take n buf"
    "read_checksum 0 (take 3 (drop (n - 4) buf)) = Some (checksum (take (n - 7) buf))"
    by (auto simp: frame_trailer_def Let_def add.commute split: if_splits option.splits)
qed

text \<open>
  An accepted buffer starts with a header whose digits announce the length of the body, so the
  decision was taken on the bytes of the frame alone.
\<close>

lemma scan_len_some:
  "scan_len s = Some (Some n) \<Longrightarrow> s = take n s @ SOH # drop (Suc n) s \<and> (\<forall>c \<in> set (take n s). is_digit c)"
  by (induction s arbitrary: n) (auto split: if_splits)

lemma frame_header_shape:
  assumes "frame_header buf = Inr e"
  obtains ds L r where "buf = header ds @ r" "\<forall>c \<in> set ds. is_digit c" "ds \<noteq> []"
    "dec_val ds = int L" "L \<le> 1048576" "e = length (header ds) + L"
proof -
  obtain n v where a: "\<not> length buf < 12" "take 10 buf = kBegin" "buf ! 10 = CHR ''9''" "buf ! 11 = CHR ''=''"
    and scan: "scan_len (drop 12 buf) = Some (Some n)"
    and num: "from_chars_unsigned size_max (take n (drop 12 buf)) = Some v" "v \<le> 1048576"
    and e: "e = 12 + n + 1 + nat v"
    using assms
    by (auto simp: frame_header_def Let_def not_less add.commute split: if_splits option.splits)
  define ds where "ds = take n (drop 12 buf)"
  note sc = scan_len_some [OF scan]
  have digits: "\<forall>c \<in> set ds. is_digit c"
    using sc by (simp add: ds_def)
  then have tw: "takeWhile is_digit ds = ds"
    by (simp add: takeWhile_eq_all_conv)
  have ds: "ds \<noteq> []" "dec_val ds = v"
    using num(1) unfolding from_chars_unsigned_def ds_def [symmetric] Let_def tw by (auto split: if_splits)
  have "0 \<le> foldl (\<lambda>v c. 10 * v + digit_val c) x s" if "\<forall>c \<in> set s. is_digit c" "0 \<le> x" for x s
    using that by (induction s arbitrary: x) (auto simp: is_digit_def digit_val_def)
  then have "0 \<le> v"
    using ds(2) digits by (auto simp: dec_val_def)
  moreover have "buf = header ds @ drop (12 + Suc n) buf"
  proof -
    have "buf = take 10 buf @ buf ! 10 # buf ! 11 # drop 12 buf"
      using a(1) Cons_nth_drop_Suc [of 10 buf] Cons_nth_drop_Suc [of 11 buf]
        append_take_drop_id [of 10 buf] by simp
    also have "drop 12 buf = ds @ SOH # drop (12 + Suc n) buf"
      using sc by (simp add: ds_def add.commute)
    finally show ?thesis
      using a(2-4) by (simp add: header_def)
  qed
  moreover have "length ds = n"
    using scan_len_append(2) [OF scan, of "[]"] by (simp add: ds_def)
  ultimately show ?thesis
    using that [of ds "drop (12 + Suc n) buf" "nat v"] digits ds num(2) e by (simp add: header_def)
qed

lemma split_frame_take:
  assumes "split_frame buf = FrameOk f n"
  shows "split_frame (take n buf) = FrameOk f n"
proof -
  obtain e where h: "frame_header buf = Inr e" and t: "frame_trailer buf e = FrameOk f n"
    using assms by (auto simp: split_frame_def frame_header_def Let_def split: sum.splits if_splits option.splits)
  then have n: "n = e + 7" "n \<le> length buf"
    by (auto simp: frame_trailer_def Let_def split: if_splits option.splits)
  obtain ds L r where buf: "buf = header ds @ r" and ds: "\<forall>c \<in> set ds. is_digit c" "ds \<noteq> []"
    "dec_val ds = int L" "L \<le> 1048576" and e: "e = length (header ds) + L"
    by (rule frame_header_shape [OF h])
  have len: "L + 7 \<le> length r" "take n buf = header ds @ take (L + 7) r"
    using n by (simp_all add: buf e)
  note accepted = assms [unfolded buf split_frame_body [OF ds]]
  have cut: "take 3 (drop L (take (L + 7) r)) = take 3 (drop L r)" "take (L + 7) r ! (L + 6) = r ! (L + 6)"
    "take 3 (drop (L + 3) (take (L + 7) r)) = take 3 (drop (L + 3) r)" "take L (take (L + 7) r) = take L r"
    by (simp_all add: drop_take)
  show ?thesis
    using accepted len(1) unfolding len(2) split_frame_body [OF ds] cut
    by (simp split: if_splits option.splits)
qed

section \<open>Draining the receive buffer\<close>

text \<open>
  The inner loop of \<open>session_loop\<close>, as far as it depends on the bytes: the frames in the order they
  are handed on, the status that ends the loop, and what stays in the buffer.
\<close>

function drain :: "string \<Rightarrow> string list \<times> frame_status \<times> string" where
  "drain buf =
     (case split_frame buf of
        FrameOk f n \<Rightarrow> (let (fs, st, r) = drain (drop n buf) in (f # fs, st, r))
      | Incomplete \<Rightarrow> ([], Incomplete, buf)
      | Malformed \<Rightarrow> ([], Malformed, buf))"
  by pat_completeness auto
termination
proof (relation "measure length")
  show "(drop n buf, buf) \<in> measure length" if "split_frame buf = FrameOk f n" for buf f n
    using split_frame_ok(1,2) [OF that] by auto
qed simp

declare drain.simps [simp del]

text \<open>The outer loop: chunks are appended and drained until the stream is malformed.\<close>

fun receive :: "string \<Rightarrow> string list \<Rightarrow> string list \<times> frame_status \<times> string" where
  "receive rx [] = ([], Incomplete, rx)"
| "receive rx (c # cs) =
     (let (fs, st, r) = drain (rx @ c)
      in if st = Malformed then (fs, st, r)
         else (let (fs', st', r') = receive r cs in (fs @ fs', st', r')))"

text \<open>
  The contract between framing and the session: a decision is stable under more input and a frame
  consumes some bytes.
\<close>

locale frame_stream =
  fixes split :: "string \<Rightarrow> frame_status"
    and drn :: "string \<Rightarrow> string list \<times> frame_status \<times> string"
  assumes stable: "split buf = st \<Longrightarrow> st \<noteq> Incomplete \<Longrightarrow> split (buf @ ext) = st"
    and progress: "split buf = FrameOk f n \<Longrightarrow> 0 < n \<and> n \<le> length buf"
    and drn_eq: "drn buf =
      (case split buf of
         FrameOk f n \<Rightarrow> (let (fs, st, r) = drn (drop n buf) in (f # fs, st, r))
       | Incomplete \<Rightarrow> ([], Incomplete, buf)
       | Malformed \<Rightarrow> ([], Malformed, buf))"
begin

lemma drn_append:
  "drn (buf @ ext) =
     (let (fs, st, r) = drn buf
      in if st = Malformed then (fs, st, r @ ext)
         else (let (fs', st', r') = drn (r @ ext) in (fs @ fs', st', r')))"
proof (induction "length buf" arbitrary: buf rule: less_induct)
  case less
  show ?case
  proof (cases "split buf")
    case (FrameOk f n)
    have n: "0 < n" "n \<le> length buf"
      using progress [OF FrameOk] by auto
    have "drn (buf @ ext) = (let (fs, st, r) = drn (drop n buf @ ext) in (f # fs, st, r))"
      using stable [OF FrameOk, of ext] n by (subst drn_eq) simp
    moreover have "drn buf = (let (fs, st, r) = drn (drop n buf) in (f # fs, st, r))"
      by (subst drn_eq) (simp add: FrameOk)
    moreover have "length (drop n buf) < length buf"
      using n by simp
    note less.hyps [OF this]
    ultimately show ?thesis
      by (auto simp: Let_def split: prod.splits)
  next
    case Incomplete
    then have "drn buf = ([], Incomplete, buf)"
      by (subst drn_eq) simp
    then show ?thesis by (auto split: prod.splits)
  next
    case Malformed
    then have "drn buf = ([], Malformed, buf)" "drn (buf @ ext) = ([], Malformed, buf @ ext)"
      using stable [OF Malformed, of ext] by (subst drn_eq; simp)+
    then show ?thesis by simp
  qed
qed

lemma drn_status: "drn buf = (fs, st, r) \<Longrightarrow> st = Incomplete \<or> st = Malformed"
proof (induction "length buf" arbitrary: buf fs rule: less_induct)
  case less
  show ?case
  proof (cases "split buf")
    case (FrameOk f n)
    then have "length (drop n buf) < length buf"
      using progress [OF FrameOk] by auto
    moreover obtain fs' where "drn (drop n buf) = (fs', st, r)"
      using less.prems FrameOk drn_eq [of buf] by (auto split: prod.splits)
    ultimately show ?thesis
      using less.hyps by blast
  qed (use less.prems drn_eq [of buf] in auto)
qed

lemma drn_rest: "drn buf = (fs, Incomplete, r) \<Longrightarrow> drn r = ([], Incomplete, r)"
proof (induction "length buf" arbitrary: buf fs rule: less_induct)
  case less
  show ?case
  proof (cases "split buf")
    case (FrameOk f n)
    then have "length (drop n buf) < length buf"
      using progress [OF FrameOk] by auto
    moreover obtain fs' where "drn (drop n buf) = (fs', Incomplete, r)"
      using less.prems FrameOk drn_eq [of buf] by (auto split: prod.splits)
    ultimately show ?thesis
      using less.hyps by blast
  qed (use less.prems drn_eq [of buf] in auto)
qed

end

interpretation fr: frame_stream split_frame drain
proof
  show "split_frame (buf @ ext) = st" if "split_frame buf = st" "st \<noteq> Incomplete" for buf st ext
    using split_frame_append [OF that] .
  show "0 < n \<and> n \<le> length buf" if "split_frame buf = FrameOk f n" for buf f n
    using split_frame_ok [OF that] by simp
  show "drain buf =
      (case split_frame buf of
         FrameOk f n \<Rightarrow> (let (fs, st, r) = drain (drop n buf) in (f # fs, st, r))
       | Incomplete \<Rightarrow> ([], Incomplete, buf)
       | Malformed \<Rightarrow> ([], Malformed, buf))" for buf
    by (rule drain.simps)
qed

end
