(* ===== verification/Fix_Properties.thy ===== *)
theory Fix_Properties
  imports Fix_Framing
begin

text \<open>
  The properties of the FIX codec: the round trip of a message through the builder and the parser,
  the decisions of \<open>split_frame\<close> on prefixes and extensions of a stream, and the detection of a
  corrupted body by the checksum.
\<close>

section \<open>Messages as sequences of additions\<close>

datatype addition = AddStr int string | AddInt int int | AddChar int char

fun add_field :: "addition \<Rightarrow> builder \<Rightarrow> builder" where
  "add_field (AddStr t v) b = add_str t v b"
| "add_field (AddInt t n) b = add_int t n b"
| "add_field (AddChar t c) b = add_char t c b"

fun added :: "addition \<Rightarrow> int \<times> string" where
  "added (AddStr t v) = (t, v)"
| "added (AddInt t n) = (t, to_chars n)"
| "added (AddChar t c) = (t, [c])"

definition std_header :: "char \<Rightarrow> string \<Rightarrow> string \<Rightarrow> int \<Rightarrow> (int \<times> string) list" where
  "std_header ty sender target seq =
     [(MsgType, [ty]), (SenderCompID, sender), (TargetCompID, target), (MsgSeqNum, to_chars seq)]"

lemma builder_fold:
  "builder_has b fs \<Longrightarrow> builder_has (fold add_field as b) (fs @ map added as)"
proof (induction as arbitrary: b fs)
  case (Cons a as)
  have "builder_has (add_field a b) (fs @ [added a])"
    using builder_adds [OF Cons.prems] by (cases a) simp_all
  from Cons.IH [OF this] show ?case by simp
qed simp

text \<open>The fields between the length and the checksum, and the bytes that are sent.\<close>

definition built_fields :: "char \<Rightarrow> string \<Rightarrow> string \<Rightarrow> int \<Rightarrow> addition list \<Rightarrow> (int \<times> string) list" where
  "built_fields ty sender target seq as = std_header ty sender target seq @ map added as"

definition built_frame ::
  "char \<Rightarrow> string \<Rightarrow> string \<Rightarrow> int \<Rightarrow> addition list \<Rightarrow> builder \<Rightarrow> string" where
  "built_frame ty sender target seq as b =
     bbuf (finalize (fold add_field as (begin_msg ty sender target seq b)))"

lemma built_frame_of:
  assumes "length (enc_fields (built_fields ty sender target seq as)) < 1000000"
  shows "built_frame ty sender target seq as b = frame_of (enc_fields (built_fields ty sender target seq as))"
  using finalize_frame [OF builder_fold [OF builder_begin]
      assms [unfolded built_fields_def std_header_def]]
  by (simp add: std_header_def built_fields_def built_frame_def)

section \<open>Reading back numbers\<close>

lemma from_chars_to_chars:
  assumes "lo \<le> v" "v \<le> hi"
  shows "from_chars_signed lo hi (to_chars v) = Some v"
proof (cases "v < 0")
  case True
  have tw: "takeWhile is_digit (dec (nat (- v))) = dec (nat (- v))"
    using dec_props [of "nat (- v)"] by (simp add: takeWhile_eq_all_conv)
  have "dec (nat (- v)) \<noteq> []" "dec_val (dec (nat (- v))) = - v"
    using dec_props [of "nat (- v)"] True by simp_all
  then show ?thesis
    using True assms unfolding from_chars_signed_def to_chars_def Let_def by (simp add: tw)
next
  case False
  then show ?thesis
    using from_chars_digits(2) [OF to_chars_digits(1,2), of v] to_chars_digits(3) [of v] assms by simp
qed

lemma to_chars_ne: "to_chars v \<noteq> []"
  using dec_props [of "nat v"] by (simp add: to_chars_def)

lemma to_chars_no_soh: "SOH \<notin> set (to_chars v)"
  using dec_props [of "nat v"] dec_props [of "nat (- v)"] digit_not_special(1) [of SOH]
  by (auto simp: to_chars_def SOH_def)

lemma get_from_to_field:
  "get_from t (map to_field fs) = (case map_of fs t of None \<Rightarrow> [] | Some v \<Rightarrow> v)"
  by (induction fs) (auto simp: to_field_def)

lemma get_int_to_field:
  assumes "map_of fs t = Some (to_chars v)" "is_s64 v"
  shows "msg_get_int t d \<lparr>msg_fields = map to_field fs\<rparr> = v"
  using assms from_chars_to_chars [of int64_min v int64_max] to_chars_ne [of v]
  by (simp add: msg_get_int_def msg_get_def get_from_to_field is_s64_def int64_min_def int64_max_def)

section \<open>The checksum of a changed body\<close>

lemma checksum_mod: "int (checksum s) = int (sum_list (map byte s)) mod 256"
proof -
  have "(x :: int) mod 2 ^ 32 mod 256 = x mod 256" for x
    by (rule mod_mod_cancel) simp
  then show ?thesis by (simp add: checksum_def)
qed

lemma byte_less: "byte c < 256"
  unfolding byte_def using of_char_mod_256 [where 'a = nat] by (metis mod_less_divisor zero_less_numeral)

lemma byte_inj: "byte c = byte d \<Longrightarrow> c = d"
  unfolding byte_def by (simp add: inj_eq [OF inj_of_char])

lemma checksum_change:
  assumes "i < length s" "c \<noteq> s ! i"
  shows "checksum (pre @ s[i := c]) \<noteq> checksum (pre @ s)"
proof
  assume eq: "checksum (pre @ s[i := c]) = checksum (pre @ s)"
  have split: "s = take i s @ s ! i # drop (Suc i) s"
    using assms(1) by (simp add: id_take_nth_drop)
  define k where "k = int (sum_list (map byte pre) + sum_list (map byte (take i s)) +
      sum_list (map byte (drop (Suc i) s)))"
  have "int (sum_list (map byte (pre @ s[i := c]))) = k + int (byte c)"
    using assms(1) by (simp add: k_def upd_conv_take_nth_drop)
  moreover have "int (sum_list (map byte (pre @ s))) = k + int (byte (s ! i))"
    by (subst split) (simp add: k_def)
  ultimately have "(k + int (byte c)) mod 256 = (k + int (byte (s ! i))) mod 256"
    using eq checksum_mod by metis
  then have "int (byte c) mod 256 = int (byte (s ! i)) mod 256"
    by (metis add_diff_cancel_left' mod_diff_right_eq mod_diff_left_eq)
  then have "byte c = byte (s ! i)"
    using byte_less [of c] byte_less [of "s ! i"] by simp
  then show False
    using byte_inj assms(2) by blast
qed

section \<open>Parsed values\<close>

text \<open>
  Every parsed value is the part before the first SOH of some rest of the frame, so it contains no SOH
  and is not longer than the frame.
\<close>

lemma parse_loop_all:
  assumes "parse_loop s acc = (ok, fs)" "\<forall>f \<in> set acc. P (fvalue f)"
    and "\<And>r. length r \<le> length s \<Longrightarrow> P (takeWhile (\<lambda>c. c \<noteq> SOH) r)"
  shows "\<forall>f \<in> set fs. P (fvalue f)"
  using assms
proof (induction s acc arbitrary: ok fs rule: parse_loop.induct)
  case (1 s acc)
  show ?case
  proof (cases "scan_tag s")
    case None
    then show ?thesis using 1(2,3) by (subst (asm) parse_loop.simps) (simp split: if_splits)
  next
    case (Some n)
    let ?rest = "drop (n + 1) s"
    show ?thesis
    proof (cases "from_chars_signed int32_min int32_max (take n s)")
      case None
      then show ?thesis
        using 1(2,3) Some by (subst (asm) parse_loop.simps) (simp split: if_splits)
    next
      case (Some t)
      let ?v = "takeWhile (\<lambda>c. c \<noteq> SOH) ?rest"
      have "\<forall>f \<in> set (acc @ [\<lparr>ftag = t, fvalue = ?v\<rparr>]). P (fvalue f)"
        using 1(3) 1(4) [of ?rest] by simp
      moreover have "P (takeWhile (\<lambda>c. c \<noteq> SOH) r)" if "length r \<le> length (drop (length ?v + 1) ?rest)" for r
        using 1(4) [of r] that by simp
      ultimately have "\<forall>f \<in> set fs. P (fvalue f)"
        if "s \<noteq> []" "length ?v \<noteq> length ?rest"
          "parse_loop (drop (length ?v + 1) ?rest) (acc @ [\<lparr>ftag = t, fvalue = ?v\<rparr>]) = (ok, fs)"
        using 1(1) [OF that(1) \<open>scan_tag s = Some n\<close> Some refl refl that(2) that(3)] by blast
      then show ?thesis
        using 1(2,3) \<open>scan_tag s = Some n\<close> Some
        by (subst (asm) parse_loop.simps) (simp add: Let_def split: if_splits)
    qed
  qed
qed

lemma get_from_all: "\<forall>f \<in> set fs. P (fvalue f) \<Longrightarrow> P [] \<Longrightarrow> P (get_from t fs)"
  by (induction fs) auto

lemma parse_frame_value:
  assumes "parse_frame s = (ok, m)"
  shows "SOH \<notin> set (msg_get t m)" "length (msg_get t m) \<le> length s"
proof -
  obtain fs where fs: "parse_loop s [] = (ok, fs)" "m = \<lparr>msg_fields = fs\<rparr>"
    using assms by (auto simp: parse_frame_def split: prod.splits)
  have soh: "SOH \<notin> set (takeWhile (\<lambda>c. c \<noteq> SOH) r)" for r
    using set_takeWhileD by fastforce
  have len: "length (takeWhile (\<lambda>c. c \<noteq> SOH) r) \<le> length s" if "length r \<le> length s" for r
    using length_takeWhile_le [of _ r] that order_trans by blast
  show "SOH \<notin> set (msg_get t m)"
    using get_from_all [OF parse_loop_all [OF fs(1), of "\<lambda>v. SOH \<notin> set v"]] soh
    by (simp add: fs(2) msg_get_def)
  show "length (msg_get t m) \<le> length s"
    using get_from_all [OF parse_loop_all [OF fs(1), of "\<lambda>v. length v \<le> length s"]] len
    by (simp add: fs(2) msg_get_def)
qed

section \<open>Properties\<close>

text \<open>
  C23.  Round trip.  A message begun, extended by any sequence of additions and finalized is taken
  off the front of any stream as one frame, and parsing the frame gives back exactly the header, the
  added fields in order and the trailer; integers added are read back by \<open>get_int\<close>.
\<close>

theorem message_round_trip:
  assumes "\<forall>f \<in> set (built_fields ty sender target seq as). field_ok f"
    and "length (enc_fields (built_fields ty sender target seq as)) < 1000000"
  shows "split_frame (built_frame ty sender target seq as b @ rest) =
      FrameOk (built_frame ty sender target seq as b) (length (built_frame ty sender target seq as b)) \<and>
    (\<exists>m lenv csv. parse_frame (built_frame ty sender target seq as b) = (True, m) \<and>
      msg_fields m =
        map to_field ([(8, ''FIX.4.4''), (9, lenv)] @ built_fields ty sender target seq as @ [(10, csv)]) \<and>
      msg_type m = ty \<and>
      (\<forall>t v d. t \<notin> {8, 9} \<longrightarrow> is_s64 v \<longrightarrow>
         map_of (built_fields ty sender target seq as) t = Some (to_chars v) \<longrightarrow> msg_get_int t d m = v))"
proof -
  let ?body = "built_fields ty sender target seq as"
  let ?m = "\<lparr>msg_fields = map to_field (frame_fields ?body)\<rparr>"
  note f = built_frame_of [OF assms(2), of b]
  have split: "split_frame (built_frame ty sender target seq as b @ rest) =
      FrameOk (built_frame ty sender target seq as b) (length (built_frame ty sender target seq as b))"
    unfolding f by (rule split_frame_of [OF assms(2)])
  obtain lenv csv where ff: "frame_fields ?body = [(8, ''FIX.4.4''), (9, lenv)] @ ?body @ [(10, csv)]"
    by (simp add: frame_fields_def Let_def)
  have "parse_frame (built_frame ty sender target seq as b) = (True, ?m)"
    unfolding f by (rule parse_built [OF assms])
  moreover have "msg_type ?m = ty"
    unfolding ff by (simp add: msg_type_def msg_get_def to_field_def built_fields_def std_header_def MsgType_def)
  moreover have "msg_get_int t d ?m = v"
    if "t \<notin> {8, 9}" "is_s64 v" "map_of ?body t = Some (to_chars v)" for t v d
    using that unfolding ff by (intro get_int_to_field) (simp_all add: map_add_def)
  ultimately show ?thesis
    using split ff by (intro conjI exI [of _ ?m] exI [of _ lenv] exI [of _ csv]) simp_all
qed

definition demo_adds :: "addition list" where
  "demo_adds = [AddStr 37 ''17'', AddChar 39 (CHR ''0''), AddInt 38 (-25)]"

lemma demo_adds_ok:
  "\<forall>f \<in> set (built_fields (CHR ''8'') ''ENGINE'' ''CLIENT'' 3 demo_adds). field_ok f"
  "length (enc_fields (built_fields (CHR ''8'') ''ENGINE'' ''CLIENT'' 3 demo_adds)) < 1000000"
proof -
  show "\<forall>f \<in> set (built_fields (CHR ''8'') ''ENGINE'' ''CLIENT'' 3 demo_adds). field_ok f"
    by code_simp
  have "length (enc_fields (built_fields (CHR ''8'') ''ENGINE'' ''CLIENT'' 3 demo_adds)) = 48"
    by code_simp
  then show "length (enc_fields (built_fields (CHR ''8'') ''ENGINE'' ''CLIENT'' 3 demo_adds)) < 1000000"
    by simp
qed

theorem message_round_trip_witness:
  "\<exists>m. parse_frame (built_frame (CHR ''8'') ''ENGINE'' ''CLIENT'' 3 demo_adds builder_init) = (True, m) \<and>
     msg_type m = CHR ''8'' \<and> msg_get_int 38 0 m = -25"
proof -
  have "map_of (built_fields (CHR ''8'') ''ENGINE'' ''CLIENT'' 3 demo_adds) 38 = Some (to_chars (-25))"
    by code_simp
  moreover have "is_s64 (-25)"
    by code_simp
  ultimately show ?thesis
    using message_round_trip [OF demo_adds_ok, of builder_init] by fastforce
qed

text \<open>
  A frame is recognised exactly when its last byte has arrived: on every strict prefix
  \<open>split_frame\<close> asks for more, and bytes after the frame never change the decision.  The bytes it
  reports are the front of the buffer and cover at least the trailer.
\<close>

theorem split_frame_boundary:
  assumes "split_frame buf = FrameOk f n"
  shows "f = take n buf \<and> 7 \<le> n \<and> n \<le> length buf \<and>
    (\<forall>k. k < n \<longrightarrow> split_frame (take k buf) = Incomplete) \<and>
    (\<forall>ext. split_frame (take n buf @ ext) = FrameOk f n)"
proof -
  have *: "split_frame (take k buf) = Incomplete \<or> (split_frame (take k buf) = FrameOk f n \<and> n \<le> k)" for k
  proof (cases "split_frame (take k buf) = Incomplete")
    case False
    from split_frame_append [OF refl False, of "drop k buf"]
    have "split_frame (take k buf) = FrameOk f n"
      using assms by simp
    with split_frame_ok(2) [OF this] show ?thesis by simp
  qed simp
  note ok = split_frame_ok [OF assms]
  have "split_frame (take n buf) = FrameOk f n"
    by (rule split_frame_take [OF assms])
  then show ?thesis
    using ok * split_frame_append [of "take n buf" "FrameOk f n"] by (auto simp: not_le [symmetric])
qed

theorem split_frame_boundary_witness:
  "split_frame (take 30 (frame_of (enc_fields [(35, ''0'')]) @ ''8=FIX'')) = Incomplete"
proof -
  have len: "length (enc_fields [(35, ''0'')]) = 5"
    by code_simp
  then have "split_frame (frame_of (enc_fields [(35, ''0'')]) @ ''8=FIX'') =
      FrameOk (frame_of (enc_fields [(35, ''0'')])) 31"
    using split_frame_of [of "enc_fields [(35, ''0'')]"] frame_of_length [of "enc_fields [(35, ''0'')]"]
    by simp
  from split_frame_boundary [OF this] show ?thesis
    by auto
qed

text \<open>
  C24.  Corruption is detected: when any single byte of the body of an accepted frame is replaced by
  another one, the frame is malformed.
\<close>

theorem corrupted_body_rejected:
  assumes "split_frame (header ds @ body @ t) = FrameOk f n"
    and "\<forall>c \<in> set ds. is_digit c" "dec_val ds = int (length body)" "length body \<le> 1048576"
    and "i < length body" "c \<noteq> body ! i"
  shows "split_frame (header ds @ body[i := c] @ t) = Malformed"
proof -
  have ne: "ds \<noteq> []"
    using assms(3,5) by (auto simp: dec_val_def)
  note run = split_frame_body [OF assms(2) ne assms(3,4)]
  have "checksum (header ds @ body[i := c]) \<noteq> checksum (header ds @ body)"
    by (rule checksum_change [OF assms(5,6)])
  then show ?thesis
    using assms(1) unfolding run by (auto simp: nth_append split: if_splits option.splits)
qed

lemma demo_frame:
  "split_frame (header ''5'' @ (''35=0'' @ [SOH]) @ ''10=163'' @ [SOH]) =
     FrameOk (header ''5'' @ (''35=0'' @ [SOH]) @ ''10=163'' @ [SOH]) 26"
  by code_simp

theorem corrupted_body_rejected_witness:
  "split_frame (header ''5'' @ (''35=X'' @ [SOH]) @ ''10=163'' @ [SOH]) = Malformed"
proof -
  have "\<forall>c \<in> set ''5''. is_digit c" "dec_val ''5'' = int (length (''35=0'' @ [SOH]))"
    by code_simp+
  from corrupted_body_rejected [OF demo_frame this, of 3 "CHR ''X''"] show ?thesis
    by simp
qed

text \<open>
  The digits of the trailer are accumulated modulo 256, so a frame whose checksum field is not a
  checksum value at all (here 419 = 163 + 256) is accepted.
\<close>

lemma checksum_digits_wrap:
  "split_frame (header ''5'' @ (''35=0'' @ [SOH]) @ ''10=419'' @ [SOH]) =
     FrameOk (header ''5'' @ (''35=0'' @ [SOH]) @ ''10=419'' @ [SOH]) 26"
  by code_simp

end
