(* ===== verification/Portfolio.thy ===== *)
theory Portfolio
  imports Hft_Prelude
begin

text \<open>
  The portfolio of \<open>src/mvp/src/backtest/portfolio.cpp\<close>: position, average cost, realized and
  unrealized profit.  Every signed operation is checked, so \<^term>\<open>None\<close> is signed overflow.  The
  theory relates the running figures to the cash flow of the fills, with the rounding of the integer
  average cost accounted for exactly, and gives bounds under which nothing overflows.
\<close>

section \<open>The code\<close>

record portfolio =
  position :: quantity
  avg_cost :: price
  realized_pnl :: int
  gross_volume :: int

definition portfolio_init :: portfolio where
  "portfolio_init = \<lparr>position = 0, avg_cost = 0, realized_pnl = 0, gross_volume = 0\<rparr>"

text \<open>The fill in the direction of the position: the weighted average, truncated.\<close>

definition extend_position :: "price \<Rightarrow> quantity \<Rightarrow> portfolio \<Rightarrow> portfolio option" where
  "extend_position price signed_qty p = do {
     new_pos \<leftarrow> chk64 (position p + signed_qty);
     abs_old \<leftarrow> chk64 \<bar>position p\<bar>;
     abs_add \<leftarrow> chk64 \<bar>signed_qty\<bar>;
     old_cost \<leftarrow> chk64 (avg_cost p * abs_old);
     add_cost \<leftarrow> chk64 (price * abs_add);
     cost \<leftarrow> chk64 (old_cost + add_cost);
     qty \<leftarrow> chk64 (abs_old + abs_add);
     Some (p\<lparr>avg_cost := cost sdiv qty, position := new_pos\<rparr>) }"

text \<open>The fill against the position: profit is realized on the closed part.\<close>

definition reduce_position :: "price \<Rightarrow> quantity \<Rightarrow> portfolio \<Rightarrow> portfolio option" where
  "reduce_position price signed_qty p = do {
     abs_pos \<leftarrow> chk64 \<bar>position p\<bar>;
     abs_fill \<leftarrow> chk64 \<bar>signed_qty\<bar>;
     let closed = min abs_pos abs_fill;
     pnl_per_unit \<leftarrow> chk64 (if position p > 0 then price - avg_cost p else avg_cost p - price);
     gain \<leftarrow> chk64 (pnl_per_unit * closed);
     realized \<leftarrow> chk64 (realized_pnl p + gain);
     let p1 = p\<lparr>realized_pnl := realized\<rparr>;
     if abs_fill < abs_pos then do {
       pos \<leftarrow> chk64 (position p1 + signed_qty);
       Some (p1\<lparr>position := pos\<rparr>) }
     else if abs_fill = abs_pos then Some (p1\<lparr>position := 0, avg_cost := 0\<rparr>)
     else do {
       pos \<leftarrow> chk64 (signed_qty + position p1);
       Some (p1\<lparr>position := pos, avg_cost := price\<rparr>) } }"

definition same_direction :: "quantity \<Rightarrow> quantity \<Rightarrow> bool" where
  "same_direction pos signed_qty \<longleftrightarrow> (pos > 0 \<and> signed_qty > 0) \<or> (pos < 0 \<and> signed_qty < 0)"

definition on_fill :: "side \<Rightarrow> price \<Rightarrow> quantity \<Rightarrow> portfolio \<Rightarrow> portfolio option" where
  "on_fill side price qty p = do {
     signed_qty \<leftarrow> (if side = Buy then Some qty else chk64 (- qty));
     gross \<leftarrow> chk64 (gross_volume p + qty);
     let p1 = p\<lparr>gross_volume := gross\<rparr>;
     if position p1 = 0 then Some (p1\<lparr>position := signed_qty, avg_cost := price\<rparr>)
     else if same_direction (position p1) signed_qty then extend_position price signed_qty p1
     else reduce_position price signed_qty p1 }"

definition unrealized_pnl :: "price \<Rightarrow> portfolio \<Rightarrow> int option" where
  "unrealized_pnl mark p =
     (if position p = 0 then Some 0
      else if position p > 0 then do { d \<leftarrow> chk64 (mark - avg_cost p); chk64 (d * position p) }
      else do { d \<leftarrow> chk64 (avg_cost p - mark); n \<leftarrow> chk64 (- position p); chk64 (d * n) })"

definition total_pnl :: "price \<Rightarrow> portfolio \<Rightarrow> int option" where
  "total_pnl mark p = do { u \<leftarrow> unrealized_pnl mark p; chk64 (realized_pnl p + u) }"

section \<open>Sequences of fills\<close>

type_synonym fill = "side \<times> price \<times> quantity"

fun fills :: "fill list \<Rightarrow> portfolio \<Rightarrow> portfolio option" where
  "fills [] p = Some p"
| "fills ((s, px, q) # fs) p = do { p' \<leftarrow> on_fill s px q p; fills fs p' }"

definition sgn_qty :: "side \<Rightarrow> quantity \<Rightarrow> quantity" where
  "sgn_qty s q = (if s = Buy then q else - q)"

text \<open>What the fills amount to: the net quantity, the cash received, and the volume.\<close>

definition net :: "fill list \<Rightarrow> int" where
  "net fs = sum_list (map (\<lambda>(s, px, q). sgn_qty s q) fs)"

definition cash :: "fill list \<Rightarrow> int" where
  "cash fs = - sum_list (map (\<lambda>(s, px, q). sgn_qty s q * px) fs)"

definition volume :: "fill list \<Rightarrow> int" where
  "volume fs = sum_list (map (\<lambda>(s, px, q). q) fs)"

lemmas fill_sums = net_def cash_def volume_def

lemma fill_sums_simps [simp]:
  "net [] = 0" "cash [] = 0" "volume [] = 0"
  "net ((s, px, q) # fs) = sgn_qty s q + net fs"
  "cash ((s, px, q) # fs) = cash fs - sgn_qty s q * px"
  "volume ((s, px, q) # fs) = q + volume fs"
  by (simp_all add: fill_sums)

text \<open>
  The amount by which one fill moves the books against the cash: the remainder of the division when
  the average is taken, zero otherwise.
\<close>

definition rounding :: "side \<Rightarrow> price \<Rightarrow> quantity \<Rightarrow> portfolio \<Rightarrow> int" where
  "rounding s px q p =
     (if position p \<noteq> 0 \<and> same_direction (position p) (sgn_qty s q)
      then sgn (position p) *
        ((avg_cost p * \<bar>position p\<bar> + px * \<bar>sgn_qty s q\<bar>) smod (\<bar>position p\<bar> + \<bar>sgn_qty s q\<bar>))
      else 0)"

text \<open>The book value: what the portfolio claims to have earned when marked at its own cost.\<close>

definition book_value :: "portfolio \<Rightarrow> int" where
  "book_value p = realized_pnl p - avg_cost p * position p"

lemma extend_position_parts:
  assumes "extend_position px sq p = Some p'" "same_direction (position p) sq"
  shows "position p' = position p + sq" "gross_volume p' = gross_volume p"
    "book_value p' = book_value p - sq * px + sgn (position p) *
       ((avg_cost p * \<bar>position p\<bar> + px * \<bar>sq\<bar>) smod (\<bar>position p\<bar> + \<bar>sq\<bar>))"
proof -
  let ?N = "avg_cost p * \<bar>position p\<bar> + px * \<bar>sq\<bar>" and ?M = "\<bar>position p\<bar> + \<bar>sq\<bar>"
  have p': "position p' = position p + sq" "gross_volume p' = gross_volume p"
    "realized_pnl p' = realized_pnl p" "avg_cost p' = ?N sdiv ?M"
    using assms(1) by (auto simp: extend_position_def split: Option.bind_splits)
  have N: "?N sdiv ?M * ?M = ?N - ?N smod ?M"
    by (simp only: minus_smod_eq_sdiv_mult)
  have "?N sdiv ?M * (position p + sq) =
      avg_cost p * position p + px * sq - sgn (position p) * (?N smod ?M)"
  proof (cases "position p > 0")
    case True
    then have "\<bar>position p\<bar> = position p" "\<bar>sq\<bar> = sq"
      using assms(2) by (auto simp: same_direction_def)
    then show ?thesis using N True by simp
  next
    case False
    then have "position p < 0" "\<bar>position p\<bar> = - position p" "\<bar>sq\<bar> = - sq"
      using assms(2) by (auto simp: same_direction_def)
    then show ?thesis using N by (simp add: algebra_simps)
  qed
  then show "position p' = position p + sq" "gross_volume p' = gross_volume p"
    "book_value p' = book_value p - sq * px + sgn (position p) * (?N smod ?M)"
    using p' by (simp_all add: book_value_def)
qed

lemma reduce_position_cases:
  assumes "reduce_position px sq p = Some p'"
  shows "gross_volume p' = gross_volume p \<and>
    realized_pnl p' = realized_pnl p +
      (if position p > 0 then px - avg_cost p else avg_cost p - px) * min \<bar>position p\<bar> \<bar>sq\<bar> \<and>
    (if \<bar>sq\<bar> < \<bar>position p\<bar> then position p' = position p + sq \<and> avg_cost p' = avg_cost p
     else if \<bar>sq\<bar> = \<bar>position p\<bar> then position p' = 0 \<and> avg_cost p' = 0
     else position p' = sq + position p \<and> avg_cost p' = px)"
  using assms unfolding reduce_position_def Let_def
  by (simp split: Option.bind_splits if_splits) auto

lemma reduce_position_parts:
  assumes "reduce_position px sq p = Some p'" "position p \<noteq> 0" "\<not> same_direction (position p) sq"
  shows "position p' = position p + sq" "gross_volume p' = gross_volume p"
    "book_value p' = book_value p - sq * px"
proof -
  note c = reduce_position_cases [OF assms(1)]
  consider y where "position p > 0" "sq = - y" "y \<ge> 0" | x where "position p = - x" "x > 0" "sq \<ge> 0"
  proof -
    have "position p > 0 \<and> sq = - (- sq) \<and> - sq \<ge> 0 \<or> position p = - (- position p) \<and> - position p > 0 \<and> sq \<ge> 0"
      using assms(2,3) by (auto simp: same_direction_def)
    then show ?thesis using that by blast
  qed
  then have "position p' = position p + sq \<and> gross_volume p' = gross_volume p \<and>
      book_value p' = book_value p - sq * px"
    using c
    by cases (auto simp: book_value_def min_def split: if_splits, auto simp: algebra_simps)
  then show "position p' = position p + sq" "gross_volume p' = gross_volume p"
    "book_value p' = book_value p - sq * px"
    by auto
qed

lemma on_fill_run:
  assumes "on_fill s px q p = Some p'"
  defines "p1 \<equiv> p\<lparr>gross_volume := gross_volume p + q\<rparr>"
  shows "(if position p = 0 then Some (p1\<lparr>position := sgn_qty s q, avg_cost := px\<rparr>)
     else if same_direction (position p) (sgn_qty s q) then extend_position px (sgn_qty s q) p1
     else reduce_position px (sgn_qty s q) p1) = Some p'"
proof -
  have sq: "(if s = Buy then Some q else chk64 (- q)) = Some x \<Longrightarrow> x = sgn_qty s q" for x
    by (auto simp: sgn_qty_def split: if_splits)
  show ?thesis
    using assms(1) unfolding on_fill_def p1_def
    by (auto dest!: sq simp: Let_def split: Option.bind_splits)
qed

lemma on_fill_parts:
  assumes "on_fill s px q p = Some p'"
  shows "position p' = position p + sgn_qty s q \<and> gross_volume p' = gross_volume p + q \<and>
    book_value p' = book_value p - sgn_qty s q * px + rounding s px q p"
proof -
  note run = on_fill_run [OF assms]
  let ?p1 = "p\<lparr>gross_volume := gross_volume p + q\<rparr>"
  have bv: "book_value ?p1 = book_value p"
    by (simp add: book_value_def)
  consider "position p = 0" | "position p \<noteq> 0" "same_direction (position p) (sgn_qty s q)"
    | "position p \<noteq> 0" "\<not> same_direction (position p) (sgn_qty s q)" by blast
  then show ?thesis
  proof cases
    case 1
    then show ?thesis
      using run by (auto simp: book_value_def rounding_def)
  next
    case 2
    then have "extend_position px (sgn_qty s q) ?p1 = Some p'"
      using run by simp
    from extend_position_parts [OF this] show ?thesis
      using 2 by (simp add: rounding_def bv)
  next
    case 3
    then have "reduce_position px (sgn_qty s q) ?p1 = Some p'"
      using run by simp
    from reduce_position_parts [OF this] show ?thesis
      using 3 by (simp add: rounding_def bv)
  qed
qed

section \<open>Profit against cash\<close>

fun residue :: "fill list \<Rightarrow> portfolio \<Rightarrow> int" where
  "residue [] p = 0"
| "residue ((s, px, q) # fs) p =
     rounding s px q p + (case on_fill s px q p of None \<Rightarrow> 0 | Some p' \<Rightarrow> residue fs p')"

lemma fills_parts:
  "fills fs p = Some p' \<Longrightarrow>
   position p' = position p + net fs \<and> gross_volume p' = gross_volume p + volume fs \<and>
   book_value p' = book_value p + cash fs + residue fs p"
proof (induction fs arbitrary: p)
  case (Cons f fs)
  obtain s px q where f: "f = (s, px, q)" by (cases f)
  obtain p1 where p1: "on_fill s px q p = Some p1" "fills fs p1 = Some p'"
    using Cons.prems by (auto simp: f split: Option.bind_splits)
  show ?case
    using Cons.IH [OF p1(2)] on_fill_parts [OF p1(1)] p1(1) by (simp add: f)
qed simp

lemma total_pnl_value:
  "total_pnl mark p = Some t \<Longrightarrow> t = book_value p + position p * mark"
  by (auto simp: total_pnl_def unrealized_pnl_def book_value_def
      split: if_splits Option.bind_splits, auto simp: algebra_simps)

lemma smod_bound: "0 < m \<Longrightarrow> \<bar>n smod m\<bar> < (m :: int)"
  by (simp add: smod_int_alt_def abs_mult sgn_if)

lemma rounding_bound: "\<bar>rounding s px q p\<bar> \<le> \<bar>position p + sgn_qty s q\<bar>"
proof (cases "position p \<noteq> 0 \<and> same_direction (position p) (sgn_qty s q)")
  case True
  then have "\<bar>position p + sgn_qty s q\<bar> = \<bar>position p\<bar> + \<bar>sgn_qty s q\<bar>" "0 < \<bar>position p\<bar> + \<bar>sgn_qty s q\<bar>"
    by (auto simp: same_direction_def)
  then show ?thesis
    using True smod_bound [of "\<bar>position p\<bar> + \<bar>sgn_qty s q\<bar>"]
    by (auto simp: rounding_def abs_mult abs_sgn_eq intro: less_imp_le)
next
  case False
  then show ?thesis unfolding rounding_def by (simp only: if_False abs_zero abs_ge_zero)
qed

lemma volume_nonneg: "\<forall>(s, px, q) \<in> set fs. 0 < q \<Longrightarrow> 0 \<le> volume fs"
  by (induction fs) auto

lemma residue_bound:
  assumes "\<forall>(s, px, q) \<in> set fs. 0 < q" "\<bar>position p\<bar> + volume fs \<le> V"
  shows "\<bar>residue fs p\<bar> \<le> int (length fs) * V"
  using assms
proof (induction fs arbitrary: p)
  case (Cons f fs)
  obtain s px q where f: "f = (s, px, q)" by (cases f)
  have q: "0 < q" "\<bar>sgn_qty s q\<bar> = q"
    using Cons.prems(1) by (auto simp: f sgn_qty_def)
  have vol: "0 \<le> volume fs"
    using Cons.prems(1) by (intro volume_nonneg) auto
  have pos: "\<bar>position p + sgn_qty s q\<bar> + volume fs \<le> V"
    using Cons.prems(2) q abs_triangle_ineq [of "position p" "sgn_qty s q"] by (simp add: f)
  have first: "\<bar>rounding s px q p\<bar> \<le> V"
    using rounding_bound [of s px q p] pos vol by linarith
  have rest: "\<bar>case on_fill s px q p of None \<Rightarrow> 0 | Some p' \<Rightarrow> residue fs p'\<bar> \<le> int (length fs) * V"
  proof (cases "on_fill s px q p")
    case None
    then show ?thesis using first by simp
  next
    case (Some p')
    then have "\<bar>position p'\<bar> + volume fs \<le> V"
      using on_fill_parts [OF Some] pos by simp
    then show ?thesis
      using Cons.IH [of p'] Cons.prems(1) Some by simp
  qed
  have "\<bar>residue (f # fs) p\<bar> \<le> V + int (length fs) * V"
    unfolding f residue.simps using first rest abs_triangle_ineq by (meson add_mono order_trans)
  then show ?case by (simp add: distrib_right)
qed simp

section \<open>Range\<close>

text \<open>The average of prices between two bounds, truncated, stays between them.\<close>

lemma sdiv_between:
  assumes "0 < m" "lo * m \<le> n" "n \<le> hi * m"
  shows "lo \<le> n sdiv m" "n sdiv m \<le> (hi :: int)"
proof -
  have d: "n sdiv m * m = n - n smod m"
    by (simp only: minus_smod_eq_sdiv_mult)
  have r: "\<bar>n smod m\<bar> < m" "0 \<le> n \<Longrightarrow> 0 \<le> n smod m" "n \<le> 0 \<Longrightarrow> n smod m \<le> 0"
    using smod_bound [OF assms(1)] assms(1) by (auto simp: smod_int_alt_def sgn_if)
  have "lo * m < (n sdiv m + 1) * m" "n sdiv m * m < (hi + 1) * m"
    using d r assms by (auto simp: algebra_simps)
  then show "lo \<le> n sdiv m" "n sdiv m \<le> hi"
    using assms(1) by (auto simp: mult_less_cancel_right)
qed

definition in_range :: "price \<Rightarrow> price \<Rightarrow> int \<Rightarrow> portfolio \<Rightarrow> bool" where
  "in_range lo hi vol p \<longleftrightarrow>
     0 \<le> vol \<and> gross_volume p = vol \<and> \<bar>position p\<bar> \<le> vol \<and>
     (position p \<noteq> 0 \<longrightarrow> lo \<le> avg_cost p \<and> avg_cost p \<le> hi) \<and> \<bar>realized_pnl p\<bar> \<le> (hi - lo) * vol"

lemma abs_mult_le: "\<bar>x\<bar> \<le> a \<Longrightarrow> \<bar>y\<bar> \<le> b \<Longrightarrow> \<bar>x * y\<bar> \<le> a * (b :: int)"
  by (simp add: abs_mult mult_mono')

text \<open>Bounds on prices and on the total volume under which every product fits.\<close>

definition fits :: "price \<Rightarrow> price \<Rightarrow> int \<Rightarrow> int \<Rightarrow> bool" where
  "fits lo hi P V \<longleftrightarrow> - P \<le> lo \<and> lo \<le> hi \<and> hi \<le> P \<and> 1 \<le> P \<and> 4 * P * V \<le> int64_max"

lemma fits_prod:
  assumes "fits lo hi P V" "\<bar>x\<bar> \<le> 4 * P" "\<bar>y\<bar> \<le> W" "W \<le> V"
  shows "is_s64 (x * y)"
proof -
  have "\<bar>x * y\<bar> \<le> 4 * P * W"
    using abs_mult_le [OF assms(2,3)] .
  also have "\<dots> \<le> 4 * P * V"
    using assms(1,4) by (intro mult_left_mono) (auto simp: fits_def)
  finally show ?thesis
    using assms(1) by (intro is_s64_abs) (simp add: fits_def)
qed

lemma fits_small:
  assumes "fits lo hi P V" "\<bar>y\<bar> \<le> V"
  shows "is_s64 y"
  using fits_prod [OF assms(1) _ assms(2), of 1] assms(1) by (simp add: fits_def)

lemma fits_price:
  assumes "fits lo hi P V" "\<bar>x\<bar> \<le> 4 * P" "1 \<le> V"
  shows "is_s64 x"
  using fits_prod [OF assms(1,2), of 1 1] assms(3) by simp

lemma extend_position_range:
  assumes f: "fits lo hi P V" and px: "lo \<le> px" "px \<le> hi" and av: "lo \<le> avg_cost p" "avg_cost p \<le> hi"
    and pos: "\<bar>position p\<bar> + \<bar>sq\<bar> \<le> V" and same: "same_direction (position p) sq"
  shows "\<exists>p'. extend_position px sq p = Some p' \<and> lo \<le> avg_cost p' \<and> avg_cost p' \<le> hi \<and>
    position p' = position p + sq \<and> realized_pnl p' = realized_pnl p \<and> gross_volume p' = gross_volume p"
proof -
  let ?M = "\<bar>position p\<bar> + \<bar>sq\<bar>" and ?N = "avg_cost p * \<bar>position p\<bar> + px * \<bar>sq\<bar>"
  have M: "0 < ?M"
    using same by (auto simp: same_direction_def)
  have N: "lo * ?M \<le> ?N" "?N \<le> hi * ?M"
    using px av by (auto simp: distrib_left intro!: add_mono mult_right_mono)
  have small: "\<bar>avg_cost p\<bar> \<le> P" "\<bar>px\<bar> \<le> P"
    using f px av by (auto simp: fits_def)
  have "\<bar>?N\<bar> \<le> P * ?M"
    using small abs_triangle_ineq [of "avg_cost p * \<bar>position p\<bar>" "px * \<bar>sq\<bar>"]
      abs_mult_le [of "avg_cost p" P "\<bar>position p\<bar>" "\<bar>position p\<bar>"] abs_mult_le [of px P "\<bar>sq\<bar>" "\<bar>sq\<bar>"]
    by (simp add: distrib_left)
  also have "\<dots> \<le> 4 * P * V"
    using pos M f by (intro mult_mono) (auto simp: fits_def)
  finally have "is_s64 ?N"
    using f by (intro is_s64_abs) (simp add: fits_def)
  moreover have "is_s64 (avg_cost p * \<bar>position p\<bar>)" "is_s64 (px * \<bar>sq\<bar>)"
    using small pos M f by (auto intro!: fits_prod [OF f, of _ _ V] simp: fits_def)
  moreover have "is_s64 (position p + sq)" "is_s64 \<bar>position p\<bar>" "is_s64 \<bar>sq\<bar>" "is_s64 ?M"
    using pos M by (auto intro!: fits_small [OF f])
  ultimately show ?thesis
    using sdiv_between [OF M N] by (simp add: extend_position_def chk64_def)
qed

lemma reduce_position_range:
  assumes f: "fits lo hi P V" and px: "lo \<le> px" "px \<le> hi" and av: "lo \<le> avg_cost p" "avg_cost p \<le> hi"
    and pos: "\<bar>position p\<bar> + \<bar>sq\<bar> \<le> V" and re: "\<bar>realized_pnl p\<bar> \<le> (hi - lo) * W" "W + \<bar>sq\<bar> \<le> V" "0 \<le> W"
    and ne: "position p \<noteq> 0"
  shows "\<exists>p'. reduce_position px sq p = Some p' \<and> (position p' \<noteq> 0 \<longrightarrow> lo \<le> avg_cost p' \<and> avg_cost p' \<le> hi) \<and>
    \<bar>position p'\<bar> \<le> \<bar>position p\<bar> + \<bar>sq\<bar> \<and> \<bar>realized_pnl p'\<bar> \<le> (hi - lo) * (W + \<bar>sq\<bar>) \<and>
    gross_volume p' = gross_volume p"
proof -
  let ?c = "min \<bar>position p\<bar> \<bar>sq\<bar>"
  define u where "u = (if position p > 0 then px - avg_cost p else avg_cost p - px)"
  have u: "\<bar>u\<bar> \<le> hi - lo" "hi - lo \<le> 2 * P"
    using px av f by (auto simp: u_def fits_def)
  have g: "\<bar>u * ?c\<bar> \<le> (hi - lo) * \<bar>sq\<bar>"
    using abs_mult_le [OF u(1), of ?c "\<bar>sq\<bar>"] by simp
  have r: "\<bar>realized_pnl p + u * ?c\<bar> \<le> (hi - lo) * (W + \<bar>sq\<bar>)"
    using g re(1) abs_triangle_ineq [of "realized_pnl p" "u * ?c"] by (simp add: distrib_left)
  also have "\<dots> \<le> 4 * P * V"
    using u re(2,3) f by (intro mult_mono) (auto simp: fits_def)
  finally have "is_s64 (realized_pnl p + u * ?c)"
    using f by (intro is_s64_abs) (simp add: fits_def)
  moreover have "is_s64 (u * ?c)"
    using u pos f by (intro fits_prod [OF f, of _ _ V]) (auto simp: fits_def)
  moreover have "is_s64 u"
    using u pos ne f by (intro fits_price [OF f]) (auto simp: fits_def)
  moreover have "is_s64 \<bar>position p\<bar>" "is_s64 \<bar>sq\<bar>" "is_s64 (position p + sq)" "is_s64 (sq + position p)"
    using pos by (auto intro!: fits_small [OF f])
  ultimately have "\<exists>p'. reduce_position px sq p = Some p'"
    by (simp add: reduce_position_def chk64_def Let_def u_def [symmetric])
  then obtain p' where p': "reduce_position px sq p = Some p'" ..
  from reduce_position_cases [OF p', folded u_def] show ?thesis
    using p' r px av abs_triangle_ineq [of sq "position p"] by (auto simp: add.commute split: if_splits)
qed

lemma on_fill_range:
  assumes f: "fits lo hi P V" and px: "lo \<le> px" "px \<le> hi" and q: "0 < q"
    and p: "in_range lo hi W p" and V: "W + q \<le> V"
  shows "\<exists>p'. on_fill s px q p = Some p' \<and> in_range lo hi (W + q) p'"
proof -
  let ?sq = "sgn_qty s q" and ?p1 = "p\<lparr>gross_volume := W + q\<rparr>"
  have p: "0 \<le> W" "gross_volume p = W" "\<bar>position p\<bar> \<le> W" "\<bar>realized_pnl p\<bar> \<le> (hi - lo) * W"
    "position p \<noteq> 0 \<Longrightarrow> lo \<le> avg_cost p \<and> avg_cost p \<le> hi"
    using p by (auto simp: in_range_def)
  have sq: "\<bar>?sq\<bar> = q"
    using q by (simp add: sgn_qty_def)
  have "is_s64 (- q)" "is_s64 (W + q)"
    using p V q by (auto intro!: fits_small [OF f])
  then have run: "on_fill s px q p =
      (if position p = 0 then Some (?p1\<lparr>position := ?sq, avg_cost := px\<rparr>)
       else if same_direction (position p) ?sq then extend_position px ?sq ?p1
       else reduce_position px ?sq ?p1)"
    using p(2) by (simp add: on_fill_def sgn_qty_def chk64_def Let_def)
  have re: "\<bar>realized_pnl p\<bar> \<le> (hi - lo) * (W + q)"
  proof -
    have "(hi - lo) * W \<le> (hi - lo) * (W + q)"
      using q f by (intro mult_left_mono) (auto simp: fits_def)
    then show ?thesis using p(4) by linarith
  qed
  consider "position p = 0" | "position p \<noteq> 0" "same_direction (position p) ?sq"
    | "position p \<noteq> 0" "\<not> same_direction (position p) ?sq" by blast
  then show ?thesis
  proof cases
    case 1
    then show ?thesis
      using run p q px re sq by (simp add: in_range_def)
  next
    case 2
    then show ?thesis
      using extend_position_range [OF f px, of ?p1 ?sq] run p V sq q re
      by (auto simp: in_range_def)
  next
    case 3
    then show ?thesis
      using reduce_position_range [OF f px, of ?p1 ?sq W] run p V sq q by (auto simp: in_range_def)
  qed
qed

lemma fills_range:
  assumes "fits lo hi P V" "\<forall>(s, px, q) \<in> set fs. lo \<le> px \<and> px \<le> hi \<and> 0 < q"
    "in_range lo hi W p" "W + volume fs \<le> V"
  shows "\<exists>p'. fills fs p = Some p' \<and> in_range lo hi (W + volume fs) p'"
  using assms(2-4)
proof (induction fs arbitrary: p W)
  case (Cons f fs)
  obtain s px q where f: "f = (s, px, q)" by (cases f)
  have "0 \<le> volume fs"
    using Cons.prems(1) by (intro volume_nonneg) auto
  then obtain p1 where p1: "on_fill s px q p = Some p1" "in_range lo hi (W + q) p1"
    using on_fill_range [OF assms(1), of px q W p s] Cons.prems by (auto simp: f)
  then show ?case
    using Cons.IH [OF _ p1(2)] Cons.prems by (simp add: f add.assoc)
qed simp

lemma total_pnl_returns:
  assumes f: "fits lo hi P V" and p: "in_range lo hi V p" and mark: "lo \<le> mark" "mark \<le> hi"
  shows "\<exists>t. total_pnl mark p = Some t"
proof -
  let ?u = "(mark - avg_cost p) * position p"
  have r: "\<bar>realized_pnl p\<bar> \<le> (hi - lo) * V" "\<bar>position p\<bar> \<le> V" "0 \<le> V" "hi - lo \<le> 2 * P" "1 \<le> P"
    using p f by (auto simp: in_range_def fits_def)
  show ?thesis
  proof (cases "position p = 0")
    case True
    have "(hi - lo) * V \<le> 4 * P * V"
      using r by (intro mult_right_mono) auto
    then have "is_s64 (realized_pnl p)"
      using r f by (intro is_s64_abs) (simp add: fits_def)
    then show ?thesis
      using True by (simp add: total_pnl_def unrealized_pnl_def chk64_def)
  next
    case False
    then have d: "\<bar>mark - avg_cost p\<bar> \<le> hi - lo" "1 \<le> V"
      using p mark by (auto simp: in_range_def)
    have "\<bar>realized_pnl p + ?u\<bar> \<le> (hi - lo) * V + (hi - lo) * V"
      using abs_mult_le [OF d(1) r(2)] r(1) abs_triangle_ineq [of "realized_pnl p" ?u] by linarith
    also have "\<dots> = 2 * (hi - lo) * V"
      by (simp add: algebra_simps)
    also have "\<dots> \<le> 4 * P * V"
      using r by (intro mult_right_mono) auto
    finally have "is_s64 (realized_pnl p + ?u)"
      using f by (intro is_s64_abs) (simp add: fits_def)
    moreover have "is_s64 ?u"
      using d r by (intro fits_prod [OF f, of _ _ V]) auto
    moreover have "is_s64 (mark - avg_cost p)" "is_s64 (avg_cost p - mark)"
      using d r by (auto intro!: fits_price [OF f])
    moreover have "is_s64 (- position p)"
      using r by (auto intro!: fits_small [OF f])
    moreover have "(avg_cost p - mark) * (- position p) = ?u"
      by (simp add: algebra_simps)
    ultimately show ?thesis
      using False by (simp add: total_pnl_def unrealized_pnl_def chk64_def)
  qed
qed

section \<open>Properties\<close>

text \<open>
  C25.  Profit and loss track the cash.  After any sequence of fills that does not overflow, the
  position is the net quantity bought, the volume is the sum of the fills, and the total profit at a
  mark is the cash received plus the position valued at the mark, up to the accumulated remainder of
  the integer averages; for fills of positive quantity this remainder is at most the volume per fill.
\<close>

theorem pnl_tracks_cash:
  assumes "fills fs portfolio_init = Some p" "total_pnl mark p = Some t"
  shows "position p = net fs \<and> gross_volume p = volume fs \<and>
    t = cash fs + net fs * mark + residue fs portfolio_init \<and>
    ((\<forall>(s, px, q) \<in> set fs. 0 < q) \<longrightarrow>
      \<bar>t - (cash fs + net fs * mark)\<bar> \<le> int (length fs) * volume fs)"
proof -
  have "position portfolio_init = 0" "gross_volume portfolio_init = 0" "book_value portfolio_init = 0"
    by (simp_all add: portfolio_init_def book_value_def)
  then have "position p = net fs" "gross_volume p = volume fs" "t = cash fs + net fs * mark + residue fs portfolio_init"
    using fills_parts [OF assms(1)] total_pnl_value [OF assms(2)] by simp_all
  then show ?thesis
    using residue_bound [of fs portfolio_init "volume fs"] by (auto simp: portfolio_init_def)
qed

definition demo_fills :: "fill list" where
  "demo_fills = [(Buy, 100, 3), (Buy, 101, 2), (Sell, 110, 4), (Sell, 90, 5)]"

theorem pnl_tracks_cash_witness:
  "\<exists>p t. fills demo_fills portfolio_init = Some p \<and> total_pnl 95 p = Some t \<and> position p = -4 \<and>
     t = cash demo_fills + net demo_fills * 95 + residue demo_fills portfolio_init"
proof -
  obtain p t where p: "fills demo_fills portfolio_init = Some p" "total_pnl 95 p = Some t"
    "position p = -4"
  proof -
    have "map_option (\<lambda>p. (total_pnl 95 p, position p)) (fills demo_fills portfolio_init) = Some (Some 10, -4)"
      by code_simp
    then show ?thesis using that by auto
  qed
  then show ?thesis
    using pnl_tracks_cash [OF p(1,2)] by auto
qed

text \<open>
  C26.  Range.  When all fills have positive quantity and prices between two bounds, and four times
  the largest price times the total volume fits 64 bits, no operation of the portfolio overflows: all
  fills and the valuation at any mark within the bounds return.  The average cost of an open position
  lies between the bounds, and the realized profit is at most the spread of prices times the volume.
\<close>

theorem portfolio_no_overflow:
  assumes "fits lo hi P (volume fs)" "\<forall>(s, px, q) \<in> set fs. lo \<le> px \<and> px \<le> hi \<and> 0 < q"
    "lo \<le> mark" "mark \<le> hi"
  shows "\<exists>p t. fills fs portfolio_init = Some p \<and> total_pnl mark p = Some t \<and>
    (position p \<noteq> 0 \<longrightarrow> lo \<le> avg_cost p \<and> avg_cost p \<le> hi) \<and> \<bar>realized_pnl p\<bar> \<le> (hi - lo) * volume fs"
proof -
  have "in_range lo hi 0 portfolio_init"
    by (simp add: in_range_def portfolio_init_def)
  then obtain p where p: "fills fs portfolio_init = Some p" "in_range lo hi (volume fs) p"
    using fills_range [OF assms(1,2), of 0] by auto
  moreover have "\<exists>t. total_pnl mark p = Some t"
    by (rule total_pnl_returns [OF assms(1) p(2) assms(3,4)])
  ultimately show ?thesis
    by (auto simp: in_range_def)
qed

theorem portfolio_no_overflow_witness:
  "\<exists>p t. fills demo_fills portfolio_init = Some p \<and> total_pnl 95 p = Some t \<and>
     \<bar>realized_pnl p\<bar> \<le> 20 * 14"
proof -
  have "volume demo_fills = 14" "fits 90 110 110 14"
    by code_simp+
  then show ?thesis
    using portfolio_no_overflow [of 90 110 110 demo_fills 95] by (auto simp: demo_fills_def)
qed

end
