(* ===== verification/Strategy.thy ===== *)
theory Strategy
  imports Engine Portfolio
begin

text \<open>
  The strategy framework of \<open>src/mvp/src/backtest/strategy.h\<close> and \<open>strategy.cpp\<close>: the base class
  with its portfolio and counters, and the context through which a strategy places and cancels
  orders.  A pointer to a strategy is its index in the list of strategies; the part of its state that
  belongs to the derived class is the type variable \<open>'s\<close>.
\<close>

section \<open>State\<close>

record book_top =
  bid_px :: price
  bid_qty :: quantity
  ask_px :: price
  ask_qty :: quantity
  mid :: price

definition book_top_init :: book_top where
  "book_top_init = \<lparr>bid_px = 0, bid_qty = 0, ask_px = 0, ask_qty = 0, mid = 0\<rparr>"

record 's strategy =
  sname :: string
  pf :: portfolio
  orders_submitted :: nat
  orders_filled :: nat
  orders_canceled :: nat
  own :: 's

definition strategy_init :: "string \<Rightarrow> 's \<Rightarrow> 's strategy" where
  "strategy_init name s = \<lparr>sname = name, pf = portfolio_init, orders_submitted = 0, orders_filled = 0,
     orders_canceled = 0, own = s\<rparr>"

text \<open>The engine and the routing table shared by all contexts, and the strategies they point to.\<close>

record 's world =
  eng :: engine
  routing :: "(order_id \<times> nat) list"
  strats :: "'s strategy list"

record ctx =
  owner :: nat
  top :: book_top

definition ctx_init :: "nat \<Rightarrow> ctx" where
  "ctx_init k = \<lparr>owner = k, top = book_top_init\<rparr>"

definition set_top :: "book_top \<Rightarrow> ctx \<Rightarrow> ctx" where
  "set_top t c = c\<lparr>top := t\<rparr>"

text \<open>Access through a pointer to a strategy; a dangling pointer gives \<^term>\<open>None\<close>.\<close>

definition with_strategy ::
  "nat \<Rightarrow> ('s strategy \<Rightarrow> 's strategy option) \<Rightarrow> 's world \<Rightarrow> 's world option" where
  "with_strategy k f w =
     (if k < length (strats w) then do {
        s \<leftarrow> f (strats w ! k);
        Some (w\<lparr>strats := (strats w)[k := s]\<rparr>) }
      else None)"

section \<open>Operations\<close>

definition strategy_on_fill :: "side \<Rightarrow> price \<Rightarrow> quantity \<Rightarrow> 's strategy \<Rightarrow> 's strategy option" where
  "strategy_on_fill side px q s = do { p \<leftarrow> on_fill side px q (pf s); Some (s\<lparr>pf := p\<rparr>) }"

text \<open>A fill delivered to a strategy and counted.\<close>

definition deliver :: "nat \<Rightarrow> side \<Rightarrow> price \<Rightarrow> quantity \<Rightarrow> 's world \<Rightarrow> 's world option" where
  "deliver k side px q w =
     with_strategy k (\<lambda>s. do {
       s' \<leftarrow> strategy_on_fill side px q s;
       Some (s'\<lparr>orders_filled := inc64 (orders_filled s')\<rparr>) }) w"

fun route_fills :: "nat \<Rightarrow> side \<Rightarrow> trade list \<Rightarrow> 's world \<Rightarrow> 's world option" where
  "route_fills k side [] w = Some w"
| "route_fills k side (tr # trs) w = do {
     w1 \<leftarrow> deliver k side (trade_price tr) (trade_qty tr) w;
     w2 \<leftarrow> (case map_of (routing w1) (maker_id tr) of
              None \<Rightarrow> Some w1
            | Some j \<Rightarrow> deliver j (opposite side) (trade_price tr) (trade_qty tr) w1);
     route_fills k side trs w2 }"

definition ctx_place_limit ::
  "ctx \<Rightarrow> side \<Rightarrow> price \<Rightarrow> quantity \<Rightarrow> 's world \<Rightarrow> (order_id \<times> 's world) option" where
  "ctx_place_limit c side px q w = do {
     (i, e) \<leftarrow> engine_place_limit side px q (eng w);
     let w1 = w\<lparr>eng := e, routing := AList.update i (owner c) (routing w)\<rparr>;
     w2 \<leftarrow> with_strategy (owner c)
             (\<lambda>s. Some (s\<lparr>orders_submitted := inc64 (orders_submitted s)\<rparr>)) w1;
     w3 \<leftarrow> route_fills (owner c) side (last_trades e) w2;
     Some (i, w3) }"

definition ctx_cancel :: "ctx \<Rightarrow> order_id \<Rightarrow> 's world \<Rightarrow> (bool \<times> 's world) option" where
  "ctx_cancel c i w = do {
     (hit, e) \<leftarrow> engine_cancel i (eng w);
     let w1 = w\<lparr>eng := e\<rparr>;
     if hit then do {
       w2 \<leftarrow> with_strategy (owner c)
               (\<lambda>s. Some (s\<lparr>orders_canceled := inc64 (orders_canceled s)\<rparr>)) w1;
       Some (True, w2\<lparr>routing := AList.delete i (routing w2)\<rparr>) }
     else Some (False, w1) }"

section \<open>Delivery of fills\<close>

text \<open>The fills that a placement of strategy \<open>k\<close> on \<open>side\<close> owes to strategy \<open>j\<close>, in order.\<close>

definition owed :: "(order_id \<times> nat) list \<Rightarrow> nat \<Rightarrow> side \<Rightarrow> trade list \<Rightarrow> nat \<Rightarrow> fill list" where
  "owed rt k side trs j =
     concat (map (\<lambda>tr.
       (if j = k then [(side, trade_price tr, trade_qty tr)] else []) @
       (if map_of rt (maker_id tr) = Some j then [(opposite side, trade_price tr, trade_qty tr)] else []))
     trs)"

lemma owed_simps [simp]:
  "owed rt k side [] j = []"
  "owed rt k side (tr # trs) j =
     (if j = k then [(side, trade_price tr, trade_qty tr)] else []) @
     (if map_of rt (maker_id tr) = Some j then [(opposite side, trade_price tr, trade_qty tr)] else []) @
     owed rt k side trs j"
  by (simp_all add: owed_def)

lemma with_strategy_parts:
  assumes "with_strategy k f w = Some w'"
  shows "eng w' = eng w \<and> routing w' = routing w \<and> length (strats w') = length (strats w) \<and> k < length (strats w) \<and>
    (\<exists>s. f (strats w ! k) = Some s \<and> strats w' ! k = s) \<and> (\<forall>j. j \<noteq> k \<longrightarrow> strats w' ! j = strats w ! j)"
  using assms by (auto simp: with_strategy_def split: if_splits Option.bind_splits)

lemma deliver_parts:
  assumes "deliver k side px q w = Some w'"
  shows "eng w' = eng w \<and> routing w' = routing w \<and> length (strats w') = length (strats w) \<and> k < length (strats w) \<and>
    on_fill side px q (pf (strats w ! k)) = Some (pf (strats w' ! k)) \<and>
    own (strats w' ! k) = own (strats w ! k) \<and> (\<forall>j. j \<noteq> k \<longrightarrow> strats w' ! j = strats w ! j)"
  using with_strategy_parts [OF assms [unfolded deliver_def]]
  by (auto simp: strategy_on_fill_def dest!: sym [of _ "strats w' ! k"] split: Option.bind_splits)

lemma fills_append: "fills (fs @ gs) p = Option.bind (fills fs p) (fills gs)"
  by (induction fs p rule: fills.induct) (auto split: Option.bind_splits)

text \<open>Delivery only moves portfolios and counters; each portfolio takes exactly the fills it is owed.\<close>

lemma route_fills_parts:
  assumes "route_fills k side trs w = Some w'"
  shows "eng w' = eng w \<and> routing w' = routing w \<and> length (strats w') = length (strats w) \<and>
    (\<forall>j < length (strats w). own (strats w' ! j) = own (strats w ! j) \<and>
       fills (owed (routing w) k side trs j) (pf (strats w ! j)) = Some (pf (strats w' ! j)))"
  using assms
proof (induction trs arbitrary: w)
  case (Cons tr trs)
  obtain w1 where w1: "deliver k side (trade_price tr) (trade_qty tr) w = Some w1"
    using Cons.prems by (auto split: Option.bind_splits)
  note d1 = deliver_parts [OF w1]
  let ?mk = "map_of (routing w) (maker_id tr)"
  obtain w2 where w2: "(case ?mk of None \<Rightarrow> Some w1
      | Some j \<Rightarrow> deliver j (opposite side) (trade_price tr) (trade_qty tr) w1) = Some w2"
    "route_fills k side trs w2 = Some w'"
    using Cons.prems w1 d1 by (auto split: Option.bind_splits)
  have d2: "eng w2 = eng w1 \<and> routing w2 = routing w1 \<and> length (strats w2) = length (strats w1) \<and>
    (\<forall>j. own (strats w2 ! j) = own (strats w1 ! j) \<and>
      fills (if ?mk = Some j then [(opposite side, trade_price tr, trade_qty tr)] else []) (pf (strats w1 ! j)) =
        Some (pf (strats w2 ! j)))"
  proof (cases ?mk)
    case None
    then show ?thesis using w2(1) by simp
  next
    case (Some j)
    then have "deliver j (opposite side) (trade_price tr) (trade_qty tr) w1 = Some w2"
      using w2(1) by simp
    from deliver_parts [OF this] show ?thesis
      using Some by auto
  qed
  note ih = Cons.IH [OF w2(2)]
  have one: "fills (if j = k then [(side, trade_price tr, trade_qty tr)] else []) (pf (strats w ! j)) =
      Some (pf (strats w1 ! j))" for j
    using d1 by simp
  show ?case
    using d1 d2 ih one by (simp add: fills_append) metis
qed simp

section \<open>The shared state stays well-formed\<close>

definition world_ok :: "nat \<Rightarrow> 's world \<Rightarrow> bool" where
  "world_ok cap w \<longleftrightarrow> book_reach cap (book (eng w)) \<and>
     (\<forall>(i, k) \<in> set (routing w). k < length (strats w) \<and> i < next_id (book (eng w)))"

definition ids_left :: "nat \<Rightarrow> 's world \<Rightarrow> bool" where
  "ids_left n w \<longleftrightarrow> int (next_id (book (eng w))) + int n < 2 ^ 64"

lemma set_alist_update: "set (AList.update k v al) \<subseteq> insert (k, v) (set al)"
  by (induction al) auto

lemma makers_older:
  assumes "book_abs b A" "ainv A" "aplace s px q A = (i, tr, A')" "t \<in> set tr"
  shows "maker_id t < i"
proof -
  obtain r ys where f: "fill (opposite s) (anext_id A) px q (aside (opposite s) A) = (tr, r, ys)" "i = anext_id A"
    using aplace_parts [OF assms(3)] by metis
  have "maker_id t \<in> set (map oid (take (length tr) (aside (opposite s) A)))"
    using fill_prefix(2) [OF f(1)] assms(4) by (metis imageI list.set_map)
  then show ?thesis
    using ainv_orderD [OF assms(2)] f(2) by (auto simp: order_ok_def dest: in_set_takeD)
qed

lemma owed_routing_cong:
  assumes "\<And>t. t \<in> set trs \<Longrightarrow> map_of rt (maker_id t) = map_of rt' (maker_id t)"
  shows "owed rt k side trs j = owed rt' k side trs j"
  using assms by (simp add: owed_def cong: map_cong)

lemma ctx_place_cases:
  assumes ok: "world_ok cap w" and ow: "owner c < length (strats w)"
    and px: "is_s64 px" "is_s64 q" and ids: "ids_left 1 w"
    and pl: "ctx_place_limit c side px q w = Some (i, w')"
  obtains A tr A' where "book_abs (book (eng w)) A" "ainv A" "aplace side px q A = (i, tr, A')"
    "book_abs (book (eng w')) A'" "place_limit side px q [] (book (eng w)) = Some (i, tr, book (eng w'))"
    "world_ok cap w'" "i = next_id (book (eng w))" "next_id (book (eng w')) = Suc i"
    "routing w' = AList.update i (owner c) (routing w)" "length (strats w') = length (strats w)"
    "\<forall>j < length (strats w). own (strats w' ! j) = own (strats w ! j) \<and>
       fills (owed (routing w) (owner c) side tr j) (pf (strats w ! j)) = Some (pf (strats w' ! j))"
proof -
  have re: "book_reach cap (book (eng w))" and grd: "cmd_grd (Place side px q) (book (eng w))"
    using ok px ids by (simp_all add: world_ok_def ids_left_def)
  obtain A tr A' e' where A: "book_abs (book (eng w)) A" "ainv A"
    and ap: "aplace side px q A = (next_id (book (eng w)), tr, A')"
    and run: "engine_place_limit side px q (eng w) = Some (next_id (book (eng w)), e')"
      "place_limit side px q [] (book (eng w)) = Some (next_id (book (eng w)), tr, book e')"
      "last_trades e' = tr" "book_reach cap (book e')" "next_id (book e') = Suc (next_id (book (eng w)))"
    and A': "book_abs (book e') A'"
    by (rule engine_place_cases [OF re grd])
  let ?i = "next_id (book (eng w))"
  let ?w1 = "w\<lparr>eng := e', routing := AList.update ?i (owner c) (routing w)\<rparr>"
  obtain w2 where w2: "with_strategy (owner c)
      (\<lambda>s. Some (s\<lparr>orders_submitted := inc64 (orders_submitted s)\<rparr>)) ?w1 = Some w2"
    and r: "route_fills (owner c) side tr w2 = Some w'" and i: "i = ?i"
    using pl run by (auto simp: ctx_place_limit_def Let_def split: Option.bind_splits)
  note p2 = with_strategy_parts [OF w2]
  have keep: "pf (strats w2 ! j) = pf (strats w ! j)" "own (strats w2 ! j) = own (strats w ! j)" for j
    using p2 by (cases "j = owner c"; auto)+
  have rt: "map_of (AList.update ?i (owner c) (routing w)) (maker_id t) = map_of (routing w) (maker_id t)"
    if "t \<in> set tr" for t
    using makers_older [OF A ap that] by (simp add: update_conv)
  have ow: "owed (AList.update ?i (owner c) (routing w)) (owner c) side tr j = owed (routing w) (owner c) side tr j" for j
    using rt by (rule owed_routing_cong)
  note p3 = route_fills_parts [OF r]
  have "world_ok cap w'"
    unfolding world_ok_def
  proof (intro conjI ballI)
    show "book_reach cap (book (eng w'))"
      using p2 p3 run(4) by simp
    fix x
    assume "x \<in> set (routing w')"
    then have "x = (?i, owner c) \<or> x \<in> set (routing w)"
      using p2 p3 set_alist_update [of ?i "owner c" "routing w"] by auto
    then show "case x of (j, k) \<Rightarrow> k < length (strats w') \<and> j < next_id (book (eng w'))"
      using ok p2 p3 run(5) by (auto simp: world_ok_def)
  qed
  then show ?thesis
    using that [of A tr A'] A ap A' run p2 p3 i by (simp add: keep ow)
qed

lemma ctx_cancel_cases:
  assumes ok: "world_ok cap w" and ca: "ctx_cancel c i w = Some (hit, w')"
  obtains A A' where "book_abs (book (eng w)) A" "ainv A" "acancel i A = (hit, A')"
    "book_abs (book (eng w')) A'" "cancel i (book (eng w)) = Some (hit, book (eng w'))"
    "world_ok cap w'" "next_id (book (eng w')) = next_id (book (eng w))"
    "routing w' = (if hit then AList.delete i (routing w) else routing w)"
    "length (strats w') = length (strats w)"
    "\<forall>j. pf (strats w' ! j) = pf (strats w ! j) \<and> own (strats w' ! j) = own (strats w ! j)"
proof -
  have re: "book_reach cap (book (eng w))"
    using ok by (simp add: world_ok_def)
  obtain A h A' e' where A: "book_abs (book (eng w)) A" "ainv A" "acancel i A = (h, A')"
    and run: "engine_cancel i (eng w) = Some (h, e')" "cancel i (book (eng w)) = Some (h, book e')"
      "book_reach cap (book e')" "next_id (book e') = next_id (book (eng w))"
    and A': "book_abs (book e') A'"
    by (rule engine_cancel_cases [OF re])
  show ?thesis
  proof (cases h)
    case True
    then obtain w2 where w2: "with_strategy (owner c)
        (\<lambda>s. Some (s\<lparr>orders_canceled := inc64 (orders_canceled s)\<rparr>)) (w\<lparr>eng := e'\<rparr>) = Some w2"
      and w': "hit" "w' = w2\<lparr>routing := AList.delete i (routing w2)\<rparr>"
      using ca run(1) by (auto simp: ctx_cancel_def Let_def split: Option.bind_splits)
    note p2 = with_strategy_parts [OF w2]
    have "pf (strats w2 ! j) = pf (strats w ! j) \<and> own (strats w2 ! j) = own (strats w ! j)" for j
      using p2 by (cases "j = owner c"; auto)
    moreover have "world_ok cap w'"
      using ok p2 run(3,4) w' by (auto simp: world_ok_def set_alist_delete)
    ultimately show ?thesis
      using that [of A A'] A A' run p2 True w' by simp
  next
    case False
    then have "\<not> hit" "w' = w\<lparr>eng := e'\<rparr>"
      using ca run(1) by (simp_all add: ctx_cancel_def)
    then show ?thesis
      using that [of A A'] A A' run False ok by (simp add: world_ok_def)
  qed
qed

section \<open>Accounting\<close>

definition exogenous :: "(order_id \<times> nat) list \<Rightarrow> trade list \<Rightarrow> quantity" where
  "exogenous rt trs = sum_list (map trade_qty (filter (\<lambda>t. map_of rt (maker_id t) = None) trs))"

lemma sgn_qty_opposite: "sgn_qty (opposite s) q = - sgn_qty s q"
  by (cases s) (simp_all add: sgn_qty_def)

lemma sgn_qty_add: "sgn_qty s (a + b) = sgn_qty s a + sgn_qty s b"
  by (simp add: sgn_qty_def)

lemma net_append: "net (fs @ gs) = net fs + net gs"
  by (simp add: net_def)

text \<open>Over all strategies, the two sides of a trade between strategies cancel.\<close>

lemma owed_balance:
  assumes "k < n" "\<forall>t \<in> set trs. \<forall>j. map_of rt (maker_id t) = Some j \<longrightarrow> j < n"
  shows "(\<Sum>j<n. net (owed rt k side trs j)) = sgn_qty side (exogenous rt trs)"
  using assms(2)
proof (induction trs)
  case Nil
  then show ?case by (simp add: exogenous_def sgn_qty_def)
next
  case (Cons t trs)
  let ?q = "trade_qty t"
  have taker: "(\<Sum>j<n. net (if j = k then [(side, trade_price t, ?q)] else [])) = sgn_qty side ?q"
    using assms(1) by (simp add: if_distrib [of net] sum.delta' cong: if_cong)
  have maker: "(\<Sum>j<n. net (if map_of rt (maker_id t) = Some j then [(opposite side, trade_price t, ?q)] else [])) =
      (if map_of rt (maker_id t) = None then 0 else - sgn_qty side ?q)"
    using Cons.prems
    by (cases "map_of rt (maker_id t)") (simp_all add: if_distrib [of net] sum.delta' sgn_qty_opposite cong: if_cong)
  have "(\<Sum>j<n. net (owed rt k side (t # trs) j)) =
      sgn_qty side ?q + (if map_of rt (maker_id t) = None then 0 else - sgn_qty side ?q) +
      sgn_qty side (exogenous rt trs)"
    using Cons by (simp only: owed_simps net_append sum.distrib taker maker) simp
  then show ?case
    by (simp add: exogenous_def sgn_qty_add)
qed

text \<open>
  C27.  Accounting of a strategy's placement.  The order goes to the engine's book, the new identifier
  is routed to the strategy, and every strategy's portfolio takes exactly the fills it is owed for
  the trades of this placement: the taker's side of each, and the maker's side of those whose maker is
  routed to it.  Summed over all strategies, positions change only by what was traded with orders
  that belong to no strategy.
\<close>

theorem strategy_placement_accounting:
  assumes "world_ok cap w" "owner c < length (strats w)" "is_s64 px" "is_s64 q" "ids_left 1 w"
    and "ctx_place_limit c side px q w = Some (i, w')"
  shows "\<exists>tr. place_limit side px q [] (book (eng w)) = Some (i, tr, book (eng w')) \<and>
    world_ok cap w' \<and> map_of (routing w') i = Some (owner c) \<and>
    (\<forall>j < length (strats w).
       fills (owed (routing w) (owner c) side tr j) (pf (strats w ! j)) = Some (pf (strats w' ! j))) \<and>
    (\<Sum>j<length (strats w). position (pf (strats w' ! j))) =
      (\<Sum>j<length (strats w). position (pf (strats w ! j))) + sgn_qty side (exogenous (routing w) tr)"
proof -
  obtain A tr A' where pl: "place_limit side px q [] (book (eng w)) = Some (i, tr, book (eng w'))"
    and ok: "world_ok cap w'" and rt: "routing w' = AList.update i (owner c) (routing w)"
    and fl: "\<forall>j < length (strats w). own (strats w' ! j) = own (strats w ! j) \<and>
       fills (owed (routing w) (owner c) side tr j) (pf (strats w ! j)) = Some (pf (strats w' ! j))"
    by (rule ctx_place_cases [OF assms])
  have routed: "\<forall>t \<in> set tr. \<forall>j. map_of (routing w) (maker_id t) = Some j \<longrightarrow> j < length (strats w)"
    using assms(1) by (auto simp: world_ok_def dest!: map_of_SomeD)
  have "(\<Sum>j<length (strats w). position (pf (strats w' ! j))) =
      (\<Sum>j<length (strats w). position (pf (strats w ! j)) + net (owed (routing w) (owner c) side tr j))"
    using fl fills_parts by (intro sum.cong) auto
  also have "\<dots> = (\<Sum>j<length (strats w). position (pf (strats w ! j))) + sgn_qty side (exogenous (routing w) tr)"
    by (simp add: sum.distrib owed_balance [OF assms(2) routed])
  finally show ?thesis
    using pl ok fl by (auto simp: rt update_conv)
qed

definition demo_world :: "unit world" where
  "demo_world = \<lparr>eng = \<lparr>book = demo_book, trades_scratch = [], last_trades = []\<rparr>, routing = [(1, 1)],
     strats = [strategy_init ''a'' (), strategy_init ''b'' ()]\<rparr>"

lemma demo_world_ok: "world_ok 8 demo_world" "ids_left 1 demo_world"
proof -
  have "next_id demo_book = 5"
    by code_simp
  then show "world_ok 8 demo_world" "ids_left 1 demo_world"
    using demo_reach by (simp_all add: world_ok_def ids_left_def demo_world_def)
qed

theorem strategy_placement_accounting_witness:
  "\<exists>i w'. ctx_place_limit (ctx_init 0) Buy 101 8 demo_world = Some (i, w') \<and>
     map (\<lambda>s. position (pf s)) (strats w') = [8, -5] \<and>
     (\<Sum>j<2. position (pf (strats w' ! j))) =
       (\<Sum>j<2. position (pf (strats demo_world ! j))) + sgn_qty Buy (exogenous [(1, 1)] demo_trades)"
proof -
  have "map_option (\<lambda>(i, w'). map (\<lambda>s. position (pf s)) (strats w'))
      (ctx_place_limit (ctx_init 0) Buy 101 8 demo_world) = Some [8, -5]"
    by code_simp
  then obtain i w' where w': "ctx_place_limit (ctx_init 0) Buy 101 8 demo_world = Some (i, w')"
    "map (\<lambda>s. position (pf s)) (strats w') = [8, -5]"
    by auto
  have "owner (ctx_init 0) < length (strats demo_world)" "is_s64 101" "is_s64 8" "length (strats demo_world) = 2"
    "routing demo_world = [(1, 1)]"
    by code_simp+
  then obtain tr where "place_limit Buy 101 8 [] demo_book = Some (i, tr, book (eng w'))"
    "(\<Sum>j<2. position (pf (strats w' ! j))) =
       (\<Sum>j<2. position (pf (strats demo_world ! j))) + sgn_qty Buy (exogenous [(1, 1)] tr)"
    using strategy_placement_accounting [OF demo_world_ok(1) _ _ _ demo_world_ok(2) w'(1)]
    unfolding demo_world_def by (metis engine.select_convs(1) world.select_convs(1))
  then show ?thesis
    using w' demo_place by auto
qed

end
