(* ===== verification/Replay.thy ===== *)
theory Replay
  imports Strategy
begin

text \<open>
  The tick replay of \<open>src/mvp/src/backtest/replay.cpp\<close>: exogenous events are applied to the engine,
  fills of resting strategy orders are routed to their owners, and the strategies are called with a
  snapshot of the top of the book.  The virtual functions of the strategies are parameters; the
  locale \<open>replayed\<close> states what the replay relies on.  The pacing of the real-time mode only sleeps
  and is left out.
\<close>

section \<open>Ticks and statistics\<close>

record tick =
  ts_ns :: nat
  symbol_id :: nat
  event :: nat
  tick_side :: nat
  tick_price :: price
  tick_qty :: quantity
  ext_id :: nat

definition EvAdd :: nat where "EvAdd = 0"
definition EvCancel :: nat where "EvCancel = 1"
definition EvTrade :: nat where "EvTrade = 2"

text \<open>A \<open>Side\<close> made from a byte is tested against \<open>Side::Buy\<close> only.\<close>

definition side_of :: "nat \<Rightarrow> side" where
  "side_of n = (if n = 0 then Buy else Sell)"

record replay_stats =
  ticks_consumed :: nat
  exogenous_adds :: nat
  exogenous_cancels :: nat
  trade_prints :: nat
  engine_trades :: nat

definition stats_init :: replay_stats where
  "stats_init = \<lparr>ticks_consumed = 0, exogenous_adds = 0, exogenous_cancels = 0, trade_prints = 0,
     engine_trades = 0\<rparr>"

record 's replay =
  rworld :: "'s world"
  ext_to_eng :: "(nat \<times> order_id) list"
  last_trade_px :: price
  stats :: replay_stats

section \<open>Applying a tick\<close>

text \<open>The loop over the trades of an exogenous order.\<close>

fun exo_fills :: "side \<Rightarrow> trade list \<Rightarrow> 's replay \<Rightarrow> 's replay option" where
  "exo_fills side [] r = Some r"
| "exo_fills side (tr # trs) r = do {
     let r1 = r\<lparr>stats := (stats r)\<lparr>engine_trades := inc64 (engine_trades (stats r))\<rparr>,
                last_trade_px := trade_price tr\<rparr>;
     r2 \<leftarrow> (case map_of (routing (rworld r1)) (maker_id tr) of
              None \<Rightarrow> Some r1
            | Some k \<Rightarrow> do {
                w \<leftarrow> deliver k (opposite side) (trade_price tr) (trade_qty tr) (rworld r1);
                Some (r1\<lparr>rworld := w\<lparr>routing := AList.delete (maker_id tr) (routing w)\<rparr>\<rparr>) });
     exo_fills side trs r2 }"

definition apply_add :: "tick \<Rightarrow> 's replay \<Rightarrow> 's replay option" where
  "apply_add t r = do {
     let r0 = r\<lparr>stats := (stats r)\<lparr>exogenous_adds := inc64 (exogenous_adds (stats r))\<rparr>\<rparr>;
     (i, e) \<leftarrow> engine_place_limit (side_of (tick_side t)) (tick_price t) (tick_qty t) (eng (rworld r0));
     let r1 = r0\<lparr>rworld := (rworld r0)\<lparr>eng := e\<rparr>,
                 ext_to_eng := (if ext_id t \<noteq> 0 then AList.update (ext_id t) i (ext_to_eng r0)
                                else ext_to_eng r0)\<rparr>;
     exo_fills (side_of (tick_side t)) (last_trades e) r1 }"

definition apply_cancel :: "tick \<Rightarrow> 's replay \<Rightarrow> 's replay option" where
  "apply_cancel t r = do {
     let r0 = r\<lparr>stats := (stats r)\<lparr>exogenous_cancels := inc64 (exogenous_cancels (stats r))\<rparr>\<rparr>;
     (case map_of (ext_to_eng r0) (ext_id t) of
        None \<Rightarrow> Some r0
      | Some i \<Rightarrow> do {
          (hit, e) \<leftarrow> engine_cancel i (eng (rworld r0));
          Some (r0\<lparr>rworld := (rworld r0)\<lparr>eng := e\<rparr>,
                   ext_to_eng := AList.delete (ext_id t) (ext_to_eng r0)\<rparr>) }) }"

definition apply_trade :: "tick \<Rightarrow> 's replay \<Rightarrow> 's replay option" where
  "apply_trade t r =
     Some (r\<lparr>stats := (stats r)\<lparr>trade_prints := inc64 (trade_prints (stats r))\<rparr>,
             last_trade_px := tick_price t\<rparr>)"

definition apply_tick :: "tick \<Rightarrow> 's replay \<Rightarrow> 's replay option" where
  "apply_tick t r =
     (if event t = EvAdd then apply_add t r
      else if event t = EvCancel then apply_cancel t r
      else if event t = EvTrade then apply_trade t r
      else Some r)"

definition snapshot_top :: "order_book \<Rightarrow> price \<Rightarrow> book_top option" where
  "snapshot_top b last_px = do {
     let bb = best_bid b;
     let ba = best_ask b;
     let bid = (if bb = 0 then 0 else bb);
     let ask = (if ba = int64_max then 0 else ba);
     bq \<leftarrow> (if bid \<noteq> 0 then qty_at Buy bid b else Some 0);
     aq \<leftarrow> (if ask \<noteq> 0 then qty_at Sell ask b else Some 0);
     m \<leftarrow> (if bid \<noteq> 0 \<and> ask \<noteq> 0 then do { s \<leftarrow> chk64 (bid + ask); Some (s sdiv 2) }
           else if bid \<noteq> 0 then Some bid
           else if ask \<noteq> 0 then Some ask
           else Some last_px);
     Some \<lparr>bid_px = bid, bid_qty = bq, ask_px = ask, ask_qty = aq, mid = m\<rparr> }"

section \<open>The run\<close>

type_synonym 's callback = "ctx \<Rightarrow> 's world \<Rightarrow> 's world option"

fun call_all :: "'s callback \<Rightarrow> ctx list \<Rightarrow> 's world \<Rightarrow> 's world option" where
  "call_all f [] w = Some w"
| "call_all f (c # cs) w = do { w' \<leftarrow> f c w; call_all f cs w' }"

definition replay_tick ::
  "(tick \<Rightarrow> 's callback) \<Rightarrow> tick \<Rightarrow> ctx list \<times> 's replay \<Rightarrow> (ctx list \<times> 's replay) option" where
  "replay_tick on_tick t = (\<lambda>(ctxs, r). do {
     let r0 = r\<lparr>stats := (stats r)\<lparr>ticks_consumed := inc64 (ticks_consumed (stats r))\<rparr>\<rparr>;
     r1 \<leftarrow> apply_tick t r0;
     tp \<leftarrow> snapshot_top (book (eng (rworld r1))) (last_trade_px r1);
     let ctxs' = map (set_top tp) ctxs;
     w \<leftarrow> call_all (on_tick t) ctxs' (rworld r1);
     Some (ctxs', r1\<lparr>rworld := w\<rparr>) })"

fun replay_loop ::
  "(tick \<Rightarrow> 's callback) \<Rightarrow> tick list \<Rightarrow> ctx list \<times> 's replay \<Rightarrow> (ctx list \<times> 's replay) option" where
  "replay_loop on_tick [] x = Some x"
| "replay_loop on_tick (t # ts) x = do { x' \<leftarrow> replay_tick on_tick t x; replay_loop on_tick ts x' }"

definition replay_run ::
  "'s callback \<Rightarrow> (tick \<Rightarrow> 's callback) \<Rightarrow> 's callback \<Rightarrow> tick list \<Rightarrow> 's world \<Rightarrow>
   (replay_stats \<times> 's world) option" where
  "replay_run on_start on_tick on_end ticks w = do {
     let w0 = w\<lparr>routing := []\<rparr>;
     let ctxs = map ctx_init [0..<length (strats w0)];
     w1 \<leftarrow> call_all on_start ctxs w0;
     (ctxs', r) \<leftarrow> replay_loop on_tick ticks
        (ctxs, \<lparr>rworld = w1, ext_to_eng = [], last_trade_px = 0, stats = stats_init\<rparr>);
     w2 \<leftarrow> call_all on_end ctxs' (rworld r);
     Some (stats r, w2) }"

section \<open>Exogenous fills\<close>

text \<open>The maker fills that strategy \<open>j\<close> is owed for the trades of an exogenous order.\<close>

definition maker_owed :: "(order_id \<times> nat) list \<Rightarrow> side \<Rightarrow> trade list \<Rightarrow> nat \<Rightarrow> fill list" where
  "maker_owed rt side trs j =
     map (\<lambda>tr. (opposite side, trade_price tr, trade_qty tr))
       (filter (\<lambda>tr. map_of rt (maker_id tr) = Some j) trs)"

lemma maker_owed_simps [simp]:
  "maker_owed rt side [] j = []"
  "maker_owed rt side (tr # trs) j =
     (if map_of rt (maker_id tr) = Some j then [(opposite side, trade_price tr, trade_qty tr)] else []) @
     maker_owed rt side trs j"
  by (simp_all add: maker_owed_def)

lemma maker_owed_cong:
  assumes "\<And>t. t \<in> set trs \<Longrightarrow> map_of rt (maker_id t) = map_of rt' (maker_id t)"
  shows "maker_owed rt side trs j = maker_owed rt' side trs j"
  using assms by (simp add: maker_owed_def cong: filter_cong)

lemma map_of_alist_delete: "map_of (AList.delete k al) i = (if i = k then None else map_of al i)"
  by (simp add: delete_conv')

lemma exo_fills_parts:
  assumes "exo_fills side trs r = Some r'" "distinct (map maker_id trs)"
  shows "eng (rworld r') = eng (rworld r) \<and> ext_to_eng r' = ext_to_eng r \<and>
    length (strats (rworld r')) = length (strats (rworld r)) \<and>
    set (routing (rworld r')) \<subseteq> set (routing (rworld r)) \<and>
    (\<forall>i. map_of (routing (rworld r')) i =
       (if i \<in> maker_id ` set trs then None else map_of (routing (rworld r)) i)) \<and>
    (\<forall>j < length (strats (rworld r)). own (strats (rworld r') ! j) = own (strats (rworld r) ! j) \<and>
       fills (maker_owed (routing (rworld r)) side trs j) (pf (strats (rworld r) ! j)) =
         Some (pf (strats (rworld r') ! j))) \<and>
    stats r' = (stats r)\<lparr>engine_trades := (inc64 ^^ length trs) (engine_trades (stats r))\<rparr> \<and>
    last_trade_px r' = (if trs = [] then last_trade_px r else trade_price (last trs))"
  using assms
proof (induction trs arbitrary: r)
  case (Cons tr trs)
  define r1 where "r1 = r\<lparr>stats := (stats r)\<lparr>engine_trades := inc64 (engine_trades (stats r))\<rparr>,
      last_trade_px := trade_price tr\<rparr>"
  have r1: "rworld r1 = rworld r" "ext_to_eng r1 = ext_to_eng r"
    "stats r1 = (stats r)\<lparr>engine_trades := inc64 (engine_trades (stats r))\<rparr>" "last_trade_px r1 = trade_price tr"
    by (simp_all add: r1_def)
  obtain r2 where r2: "(case map_of (routing (rworld r1)) (maker_id tr) of None \<Rightarrow> Some r1
            | Some k \<Rightarrow> do {
                w \<leftarrow> deliver k (opposite side) (trade_price tr) (trade_qty tr) (rworld r1);
                Some (r1\<lparr>rworld := w\<lparr>routing := AList.delete (maker_id tr) (routing w)\<rparr>\<rparr>) }) = Some r2"
    and rest: "exo_fills side trs r2 = Some r'"
    using Cons.prems(1) unfolding exo_fills.simps Let_def r1_def [symmetric] bind_eq_Some_conv by blast
  let ?rt = "routing (rworld r)"
  have s: "eng (rworld r2) = eng (rworld r) \<and> ext_to_eng r2 = ext_to_eng r \<and>
    length (strats (rworld r2)) = length (strats (rworld r)) \<and>
    set (routing (rworld r2)) \<subseteq> set ?rt \<and>
    (\<forall>i. map_of (routing (rworld r2)) i = (if i = maker_id tr then None else map_of ?rt i)) \<and>
    (\<forall>j < length (strats (rworld r)). own (strats (rworld r2) ! j) = own (strats (rworld r) ! j) \<and>
       fills (if map_of ?rt (maker_id tr) = Some j then [(opposite side, trade_price tr, trade_qty tr)] else [])
         (pf (strats (rworld r) ! j)) = Some (pf (strats (rworld r2) ! j))) \<and>
    stats r2 = stats r1 \<and> last_trade_px r2 = last_trade_px r1"
  proof (cases "map_of ?rt (maker_id tr)")
    case None
    then show ?thesis using r2 r1 by auto
  next
    case (Some k)
    then obtain w where w: "deliver k (opposite side) (trade_price tr) (trade_qty tr) (rworld r) = Some w"
      "r2 = r1\<lparr>rworld := w\<lparr>routing := AList.delete (maker_id tr) (routing w)\<rparr>\<rparr>"
      using r2 r1 by (auto split: Option.bind_splits)
    from deliver_parts [OF w(1)] show ?thesis
      using Some w(2) r1 by (auto simp: map_of_alist_delete set_alist_delete)
  qed
  note ih = Cons.IH [OF rest]
  have "maker_id t \<noteq> maker_id tr" if "t \<in> set trs" for t
    using Cons.prems(2) imageI [OF that, of maker_id] by auto
  then have same: "maker_owed (routing (rworld r2)) side trs j = maker_owed ?rt side trs j" for j
    using s by (intro maker_owed_cong) simp
  show ?case
    using s ih Cons.prems(2) r1 by (auto simp: fills_append same funpow_swap1)
qed simp

lemma makers_distinct:
  assumes "ainv A" "aplace s px q A = (i, tr, A')"
  shows "distinct (map maker_id tr)"
proof -
  obtain r ys where f: "fill (opposite s) (anext_id A) px q (aside (opposite s) A) = (tr, r, ys)"
    using aplace_parts [OF assms(2)] by metis
  have "distinct (map oid (aside (opposite s) A))"
    using assms(1) by (simp add: ainv_def distinct_resting [of _ s])
  then show ?thesis
    using fill_prefix(2) [OF f] by (metis distinct_take take_map)
qed

section \<open>One tick\<close>

definition tick_ok :: "tick \<Rightarrow> bool" where
  "tick_ok t \<longleftrightarrow> is_s64 (tick_price t) \<and> is_s64 (tick_qty t)"

lemma apply_add_cases:
  assumes ok: "world_ok cap (rworld r)" "tick_ok t" "ids_left 1 (rworld r)"
    and run: "apply_add t r = Some r'"
  obtains A i tr A' where "book_abs (book (eng (rworld r))) A" "ainv A"
    "aplace (side_of (tick_side t)) (tick_price t) (tick_qty t) A = (i, tr, A')"
    "book_abs (book (eng (rworld r'))) A'" "distinct (map maker_id tr)"
    "place_limit (side_of (tick_side t)) (tick_price t) (tick_qty t) [] (book (eng (rworld r))) =
       Some (i, tr, book (eng (rworld r')))"
    "world_ok cap (rworld r')" "next_id (book (eng (rworld r'))) = Suc (next_id (book (eng (rworld r))))"
    "length (strats (rworld r')) = length (strats (rworld r))"
    "\<forall>i. map_of (routing (rworld r')) i =
       (if i \<in> maker_id ` set tr then None else map_of (routing (rworld r)) i)"
    "\<forall>j < length (strats (rworld r)).
       fills (maker_owed (routing (rworld r)) (side_of (tick_side t)) tr j) (pf (strats (rworld r) ! j)) =
         Some (pf (strats (rworld r') ! j))"
    "\<forall>j < length (strats (rworld r)). own (strats (rworld r') ! j) = own (strats (rworld r) ! j)"
    "stats r' = (stats r)\<lparr>exogenous_adds := inc64 (exogenous_adds (stats r)),
       engine_trades := (inc64 ^^ length tr) (engine_trades (stats r))\<rparr>"
proof -
  let ?s = "side_of (tick_side t)" and ?w = "rworld r"
  have re: "book_reach cap (book (eng ?w))" and grd: "cmd_grd (Place ?s (tick_price t) (tick_qty t)) (book (eng ?w))"
    using ok by (simp_all add: world_ok_def tick_ok_def ids_left_def)
  obtain A tr A' e' where A: "book_abs (book (eng ?w)) A" "ainv A"
    and ap: "aplace ?s (tick_price t) (tick_qty t) A = (next_id (book (eng ?w)), tr, A')"
    and e: "engine_place_limit ?s (tick_price t) (tick_qty t) (eng ?w) = Some (next_id (book (eng ?w)), e')"
      "place_limit ?s (tick_price t) (tick_qty t) [] (book (eng ?w)) = Some (next_id (book (eng ?w)), tr, book e')"
      "last_trades e' = tr" "book_reach cap (book e')" "next_id (book e') = Suc (next_id (book (eng ?w)))"
    and A': "book_abs (book e') A'"
    by (rule engine_place_cases [OF re grd])
  define r1 where "r1 = r\<lparr>stats := (stats r)\<lparr>exogenous_adds := inc64 (exogenous_adds (stats r))\<rparr>,
      rworld := ?w\<lparr>eng := e'\<rparr>,
      ext_to_eng := (if ext_id t \<noteq> 0 then AList.update (ext_id t) (next_id (book (eng ?w))) (ext_to_eng r)
                     else ext_to_eng r)\<rparr>"
  have r1: "rworld r1 = ?w\<lparr>eng := e'\<rparr>"
    "stats r1 = (stats r)\<lparr>exogenous_adds := inc64 (exogenous_adds (stats r))\<rparr>"
    by (simp_all add: r1_def)
  have x: "exo_fills ?s tr r1 = Some r'"
    using run e(1,3) by (simp add: apply_add_def r1_def Let_def cong: if_cong)
  have d: "distinct (map maker_id tr)"
    by (rule makers_distinct [OF A(2) ap])
  note p = exo_fills_parts [OF x d, unfolded r1]
  have "world_ok cap (rworld r')"
    unfolding world_ok_def
  proof (intro conjI ballI)
    show "book_reach cap (book (eng (rworld r')))"
      using e(4) p by simp
    fix x
    assume "x \<in> set (routing (rworld r'))"
    then have "x \<in> set (routing ?w)"
      using p by auto
    then show "case x of (j, k) \<Rightarrow> k < length (strats (rworld r')) \<and> j < next_id (book (eng (rworld r')))"
      using ok(1) p e(5) by (auto simp: world_ok_def)
  qed
  then show ?thesis
    using that [of A "next_id (book (eng ?w))" tr A'] A ap A' d e p by simp
qed

text \<open>The counters of the three kinds of events.\<close>

definition tally :: "replay_stats \<Rightarrow> nat \<times> nat \<times> nat" where
  "tally st = (exogenous_adds st, exogenous_cancels st, trade_prints st)"

definition tally_event :: "tick \<Rightarrow> nat \<times> nat \<times> nat \<Rightarrow> nat \<times> nat \<times> nat" where
  "tally_event t = (\<lambda>(a, c, p).
     (if event t = EvAdd then inc64 a else a, if event t = EvCancel then inc64 c else c,
      if event t = EvTrade then inc64 p else p))"

lemma apply_tick_ok:
  assumes ok: "world_ok cap (rworld r)" "tick_ok t" "ids_left 1 (rworld r)"
    and run: "apply_tick t r = Some r'"
  shows "world_ok cap (rworld r') \<and> length (strats (rworld r')) = length (strats (rworld r)) \<and>
    next_id (book (eng (rworld r'))) \<le> Suc (next_id (book (eng (rworld r)))) \<and>
    ticks_consumed (stats r') = ticks_consumed (stats r) \<and>
    tally (stats r') = tally_event t (tally (stats r))"
proof -
  note ev = EvAdd_def EvCancel_def EvTrade_def tally_def tally_event_def
  consider "event t = EvAdd" | "event t = EvCancel" | "event t \<notin> {EvAdd, EvCancel}" by blast
  then show ?thesis
  proof cases
    case 1
    then have "apply_add t r = Some r'"
      using run by (simp add: apply_tick_def)
    then show ?thesis
      by (rule apply_add_cases [OF ok]) (simp add: 1 ev)
  next
    case 2
    then have c: "apply_cancel t r = Some r'"
      using run by (simp add: apply_tick_def ev)
    show ?thesis
    proof (cases "map_of (ext_to_eng r) (ext_id t)")
      case None
      then show ?thesis using c ok(1) 2 by (auto simp: apply_cancel_def ev)
    next
      case (Some i)
      have "book_reach cap (book (eng (rworld r)))"
        using ok(1) by (simp add: world_ok_def)
      then obtain A hit A' e' where "engine_cancel i (eng (rworld r)) = Some (hit, e')"
        "book_reach cap (book e')" "next_id (book e') = next_id (book (eng (rworld r)))"
        by (rule engine_cancel_cases)
      then show ?thesis
        using c ok(1) Some 2 by (auto simp: apply_cancel_def ev world_ok_def)
    qed
  next
    case 3
    then show ?thesis
      using run ok(1) by (auto simp: apply_tick_def apply_trade_def tally_def tally_event_def split: if_splits)
  qed
qed

section \<open>What the replay relies on\<close>

text \<open>
  A callback of a strategy may use the engine through its context: it keeps the shared state
  well-formed, does not change the list of strategies, places at most \<open>B\<close> orders, and keeps
  an invariant \<open>I\<close> that the strategies agree on.
\<close>

definition keeps :: "nat \<Rightarrow> nat \<Rightarrow> ('s world \<Rightarrow> bool) \<Rightarrow> 's callback \<Rightarrow> bool" where
  "keeps cap B I f \<longleftrightarrow>
     (\<forall>c w w'. world_ok cap w \<longrightarrow> I w \<longrightarrow> owner c < length (strats w) \<longrightarrow> ids_left B w \<longrightarrow> f c w = Some w' \<longrightarrow>
        world_ok cap w' \<and> I w' \<and> length (strats w') = length (strats w) \<and>
        next_id (book (eng w')) \<le> next_id (book (eng w)) + B)"

lemma keepsD:
  "keeps cap B I f \<Longrightarrow> world_ok cap w \<Longrightarrow> I w \<Longrightarrow> owner c < length (strats w) \<Longrightarrow> ids_left B w \<Longrightarrow>
     f c w = Some w' \<Longrightarrow> world_ok cap w' \<and> I w' \<and> length (strats w') = length (strats w) \<and>
     next_id (book (eng w')) \<le> next_id (book (eng w)) + B"
  unfolding keeps_def by blast

lemma ids_left_mono:
  "ids_left n w \<Longrightarrow> next_id (book (eng w')) + m \<le> next_id (book (eng w)) + n \<Longrightarrow> ids_left m w'"
  unfolding ids_left_def by linarith

lemma call_all_keeps:
  assumes "keeps cap B I f" "call_all f cs w = Some w'" "world_ok cap w" "I w"
    "\<forall>c \<in> set cs. owner c < length (strats w)" "ids_left (length cs * B) w"
  shows "world_ok cap w' \<and> I w' \<and> length (strats w') = length (strats w) \<and>
    next_id (book (eng w')) \<le> next_id (book (eng w)) + length cs * B"
  using assms(2-)
proof (induction cs arbitrary: w)
  case (Cons c cs)
  obtain w1 where w1: "f c w = Some w1" "call_all f cs w1 = Some w'"
    using Cons.prems(1) by (auto split: Option.bind_splits)
  have k: "world_ok cap w1 \<and> I w1 \<and> length (strats w1) = length (strats w) \<and>
      next_id (book (eng w1)) \<le> next_id (book (eng w)) + B"
    using Cons.prems(2-4) ids_left_mono [OF Cons.prems(5), of w B]
    by (intro keepsD [OF assms(1) _ _ _ _ w1(1)]) simp_all
  have "world_ok cap w' \<and> I w' \<and> length (strats w') = length (strats w1) \<and>
      next_id (book (eng w')) \<le> next_id (book (eng w1)) + length cs * B"
    using k Cons.prems(4) ids_left_mono [OF Cons.prems(5), of w1 "length cs * B"]
    by (intro Cons.IH [OF w1(2)]) simp_all
  then show ?case
    using k by simp
qed simp

locale replayed =
  fixes on_start :: "'s callback" and on_tick :: "tick \<Rightarrow> 's callback" and on_end :: "'s callback"
    and cap :: nat and B :: nat and I :: "'s world \<Rightarrow> bool"
  assumes start_keeps: "keeps cap B I on_start"
    and tick_keeps: "keeps cap B I (on_tick t)"
    and end_keeps: "keeps cap B I on_end"
    and exo_keeps: "world_ok cap (rworld r) \<Longrightarrow> I (rworld r) \<Longrightarrow> tick_ok t \<Longrightarrow> ids_left 1 (rworld r) \<Longrightarrow>
      apply_tick t r = Some r' \<Longrightarrow> I (rworld r')"
begin

lemma replay_tick_keeps:
  assumes run: "replay_tick on_tick t (ctxs, r) = Some (ctxs', r')"
    and ok: "world_ok cap (rworld r)" "tick_ok t" "\<forall>c \<in> set ctxs. owner c < length (strats (rworld r))"
    and I: "I (rworld r)" and ids: "ids_left (1 + length ctxs * B) (rworld r)"
  shows "world_ok cap (rworld r') \<and> I (rworld r') \<and> length (strats (rworld r')) = length (strats (rworld r)) \<and>
    map owner ctxs' = map owner ctxs \<and>
    next_id (book (eng (rworld r'))) \<le> next_id (book (eng (rworld r))) + (1 + length ctxs * B) \<and>
    ticks_consumed (stats r') = inc64 (ticks_consumed (stats r)) \<and>
    tally (stats r') = tally_event t (tally (stats r))"
proof -
  let ?r0 = "r\<lparr>stats := (stats r)\<lparr>ticks_consumed := inc64 (ticks_consumed (stats r))\<rparr>\<rparr>"
  obtain r1 tp w where r1: "apply_tick t ?r0 = Some r1"
    and c: "ctxs' = map (set_top tp) ctxs" "call_all (on_tick t) ctxs' (rworld r1) = Some w"
    "r' = r1\<lparr>rworld := w\<rparr>"
    using run by (auto simp: replay_tick_def Let_def bind_eq_Some_conv)
  have a: "world_ok cap (rworld r1)" "length (strats (rworld r1)) = length (strats (rworld r))"
    "next_id (book (eng (rworld r1))) \<le> Suc (next_id (book (eng (rworld r))))"
    "ticks_consumed (stats r1) = inc64 (ticks_consumed (stats r))"
    "tally (stats r1) = tally_event t (tally (stats r))"
    using apply_tick_ok [OF _ ok(2) _ r1, of cap] ok(1) ids_left_mono [OF ids, of "rworld r" 1]
    by (simp_all add: tally_def)
  have "I (rworld r1)"
    using exo_keeps [OF _ _ ok(2) _ r1] ok(1) I ids_left_mono [OF ids, of "rworld r" 1] by simp
  have own: "map owner ctxs' = map owner ctxs" "length ctxs' = length ctxs"
    by (simp_all add: c(1) set_top_def)
  have "\<forall>c \<in> set ctxs'. owner c < length (strats (rworld r1))"
    using ok(3) a(2) by (auto simp: c(1) set_top_def)
  moreover have "ids_left (length ctxs' * B) (rworld r1)"
    using ids_left_mono [OF ids, of "rworld r1"] a(3) own(2) by simp
  ultimately have "world_ok cap w \<and> I w \<and> length (strats w) = length (strats (rworld r1)) \<and>
      next_id (book (eng w)) \<le> next_id (book (eng (rworld r1))) + length ctxs' * B"
    by (rule call_all_keeps [OF tick_keeps c(2) a(1) \<open>I (rworld r1)\<close>])
  then show ?thesis
    using a own c(3) by auto
qed

lemma replay_loop_keeps:
  assumes "replay_loop on_tick ts (ctxs, r) = Some (ctxs', r')" "world_ok cap (rworld r)"
    "\<forall>t \<in> set ts. tick_ok t" "\<forall>c \<in> set ctxs. owner c < length (strats (rworld r))"
    "ids_left (length ts * (1 + length ctxs * B)) (rworld r)" "I (rworld r)"
  shows "world_ok cap (rworld r') \<and> I (rworld r') \<and> length (strats (rworld r')) = length (strats (rworld r)) \<and>
    map owner ctxs' = map owner ctxs \<and>
    next_id (book (eng (rworld r'))) \<le> next_id (book (eng (rworld r))) + length ts * (1 + length ctxs * B) \<and>
    ticks_consumed (stats r') = (inc64 ^^ length ts) (ticks_consumed (stats r)) \<and>
    tally (stats r') = fold tally_event ts (tally (stats r))"
  using assms
proof (induction ts arbitrary: ctxs r)
  case (Cons t ts)
  let ?m = "1 + length ctxs * B"
  obtain ctxs1 r1 where s: "replay_tick on_tick t (ctxs, r) = Some (ctxs1, r1)"
    "replay_loop on_tick ts (ctxs1, r1) = Some (ctxs', r')"
    using Cons.prems(1) by (auto split: Option.bind_splits)
  have k: "world_ok cap (rworld r1)" "length (strats (rworld r1)) = length (strats (rworld r))"
    "map owner ctxs1 = map owner ctxs"
    "next_id (book (eng (rworld r1))) \<le> next_id (book (eng (rworld r))) + ?m"
    "ticks_consumed (stats r1) = inc64 (ticks_consumed (stats r))"
    "tally (stats r1) = tally_event t (tally (stats r))" "I (rworld r1)"
    using replay_tick_keeps [OF s(1)] Cons.prems(2-4,6) ids_left_mono [OF Cons.prems(5), of "rworld r" ?m]
    by simp_all
  have len: "length ctxs1 = length ctxs"
    using k(3) by (metis length_map)
  have "owner c < length (strats (rworld r1))" if "c \<in> set ctxs1" for c
  proof -
    have "owner c \<in> owner ` set ctxs"
      using that k(3) by (metis imageI list.set_map)
    then show ?thesis using Cons.prems(4) k(2) by auto
  qed
  moreover have "ids_left (length ts * (1 + length ctxs1 * B)) (rworld r1)"
    using ids_left_mono [OF Cons.prems(5), of "rworld r1" "length ts * ?m"] k(4) len by simp
  ultimately show ?case
    using Cons.IH [OF s(2)] k len Cons.prems(3) by (simp add: funpow_swap1)
qed simp

lemma replay_run_keeps:
  assumes run: "replay_run on_start on_tick on_end ticks w = Some (st, w')"
    and ok: "book_reach cap (book (eng w))" "\<forall>t \<in> set ticks. tick_ok t"
    and I: "I (w\<lparr>routing := []\<rparr>)" and ids: "ids_left ((length ticks + 2) * (1 + length (strats w) * B)) w"
  shows "world_ok cap w' \<and> I w' \<and> length (strats w') = length (strats w) \<and>
    ticks_consumed st = (inc64 ^^ length ticks) 0 \<and> tally st = fold tally_event ticks (0, 0, 0)"
proof -
  let ?n = "length (strats w)" and ?w0 = "w\<lparr>routing := []\<rparr>"
  let ?m = "1 + ?n * B" and ?ctxs = "map ctx_init [0..<?n]"
  obtain w1 ctxs' r where r: "call_all on_start ?ctxs ?w0 = Some w1"
    "replay_loop on_tick ticks (?ctxs, \<lparr>rworld = w1, ext_to_eng = [], last_trade_px = 0, stats = stats_init\<rparr>) =
       Some (ctxs', r)"
    "call_all on_end ctxs' (rworld r) = Some w'" "st = stats r"
    using run by (auto simp: replay_run_def Let_def bind_eq_Some_conv)
  have own: "owner c < ?n" if "c \<in> set ?ctxs" for c
    using that by (auto simp: ctx_init_def)
  have "world_ok cap w1 \<and> I w1 \<and> length (strats w1) = length (strats ?w0) \<and>
      next_id (book (eng w1)) \<le> next_id (book (eng ?w0)) + length ?ctxs * B"
  proof (rule call_all_keeps [OF start_keeps r(1)])
    show "ids_left (length ?ctxs * B) ?w0"
      using ids_left_mono [OF ids, of ?w0 "length ?ctxs * B"] by simp
  qed (use ok(1) own I in \<open>auto simp: world_ok_def\<close>)
  then have w1: "world_ok cap w1" "I w1" "length (strats w1) = ?n"
    "next_id (book (eng w1)) \<le> next_id (book (eng w)) + ?n * B"
    by simp_all
  have "world_ok cap (rworld r) \<and> I (rworld r) \<and> length (strats (rworld r)) = ?n \<and> map owner ctxs' = map owner ?ctxs \<and>
      next_id (book (eng (rworld r))) \<le> next_id (book (eng w1)) + length ticks * ?m \<and>
      ticks_consumed (stats r) = (inc64 ^^ length ticks) 0 \<and> tally (stats r) = fold tally_event ticks (0, 0, 0)"
    using replay_loop_keeps [OF r(2)] w1 ok(2) own ids_left_mono [OF ids, of w1 "length ticks * ?m"]
    by (simp add: stats_init_def tally_def)
  then have l: "world_ok cap (rworld r)" "length (strats (rworld r)) = ?n" "map owner ctxs' = map owner ?ctxs"
    "next_id (book (eng (rworld r))) \<le> next_id (book (eng w1)) + length ticks * ?m"
    "ticks_consumed (stats r) = (inc64 ^^ length ticks) 0" "tally (stats r) = fold tally_event ticks (0, 0, 0)"
    "I (rworld r)"
    by simp_all
  have len: "length ctxs' = ?n" "\<forall>c \<in> set ctxs'. owner c < length (strats (rworld r))"
  proof -
    show "length ctxs' = ?n"
      using arg_cong [OF l(3), of length] by simp
    have "owner ` set ctxs' = owner ` set ?ctxs"
      using arg_cong [OF l(3), of set] by (simp add: image_image)
    then show "\<forall>c \<in> set ctxs'. owner c < length (strats (rworld r))"
      using own l(2) by (metis (no_types, lifting) imageE imageI)
  qed
  have "world_ok cap w' \<and> I w' \<and> length (strats w') = length (strats (rworld r)) \<and>
      next_id (book (eng w')) \<le> next_id (book (eng (rworld r))) + length ctxs' * B"
    using call_all_keeps [OF end_keeps r(3) l(1,7) len(2)] ids_left_mono [OF ids, of "rworld r" "?n * B"]
      w1(4) l(4) len(1) by simp
  then show ?thesis
    using l r(4) by simp
qed

end

lemma inc64_funpow: "int a + int n < 2 ^ 64 \<Longrightarrow> (inc64 ^^ n) a = a + n"
proof (induction n)
  case (Suc n)
  then show ?case using inc64_Suc [of "a + n"] by simp
qed simp

definition count_event :: "nat \<Rightarrow> tick list \<Rightarrow> nat" where
  "count_event ev ticks = length (filter (\<lambda>t. event t = ev) ticks)"

lemma tally_fold:
  "int a + int (length ticks) < 2 ^ 64 \<Longrightarrow> int c + int (length ticks) < 2 ^ 64 \<Longrightarrow>
   int p + int (length ticks) < 2 ^ 64 \<Longrightarrow>
   fold tally_event ticks (a, c, p) =
     (a + count_event EvAdd ticks, c + count_event EvCancel ticks, p + count_event EvTrade ticks)"
proof (induction ticks arbitrary: a c p)
  case (Cons t ticks)
  have "inc64 a = Suc a" "inc64 c = Suc c" "inc64 p = Suc p"
    using Cons.prems by (simp_all add: inc64_Suc)
  then show ?case
    using Cons by (simp add: tally_event_def count_event_def)
qed (simp add: count_event_def)

section \<open>The snapshot\<close>

lemma half_between: "a < b \<Longrightarrow> 0 \<le> a \<Longrightarrow> a \<le> (a + b) sdiv 2 \<and> (a + b) sdiv 2 < (b :: int)"
  by (simp add: signed_divide_int_def, arith)

definition depth_at :: "price \<Rightarrow> order list \<Rightarrow> quantity" where
  "depth_at px xs = s64 (sum_list (map oqty (filter (\<lambda>x. oprice x = px) xs)))"

lemma snapshot_abs:
  assumes "book_abs b A" "ainv A" "\<forall>x \<in> set (resting A). oprice x \<noteq> 0 \<and> \<bar>oprice x\<bar> < 2 ^ 62"
  shows "snapshot_top b last_px = Some
    \<lparr>bid_px = (case abids A of [] \<Rightarrow> 0 | x # _ \<Rightarrow> oprice x),
     bid_qty = (case abids A of [] \<Rightarrow> 0 | x # _ \<Rightarrow> depth_at (oprice x) (abids A)),
     ask_px = (case aasks A of [] \<Rightarrow> 0 | x # _ \<Rightarrow> oprice x),
     ask_qty = (case aasks A of [] \<Rightarrow> 0 | x # _ \<Rightarrow> depth_at (oprice x) (aasks A)),
     mid = (case (abids A, aasks A) of
              (x # _, y # _) \<Rightarrow> (oprice x + oprice y) sdiv 2
            | (x # _, []) \<Rightarrow> oprice x | ([], y # _) \<Rightarrow> oprice y | ([], []) \<Rightarrow> last_px)\<rparr>"
proof -
  have price: "oprice x \<noteq> 0" "oprice x < 2 ^ 62" "- (2 ^ 62) < oprice x"
    if "x \<in> set (abids A) \<or> x \<in> set (aasks A)" for x
  proof -
    have "x \<in> set (resting A)"
      using that by (simp add: resting_def)
    with assms(3) have "oprice x \<noteq> 0 \<and> \<bar>oprice x\<bar> < 2 ^ 62"
      by blast
    then show "oprice x \<noteq> 0" "oprice x < 2 ^ 62" "- (2 ^ 62) < oprice x"
      by (simp_all add: abs_less_iff)
  qed
  have sum: "is_s64 (oprice x + oprice y)" if "x \<in> set (abids A)" "y \<in> set (aasks A)" for x y
    using price [of x] price [of y] that by (simp add: is_s64_def int64_min_def int64_max_def)
  have ne: "oprice x \<noteq> int64_max" if "x \<in> set (abids A) \<or> x \<in> set (aasks A)" for x
    using price(2) [OF that] by (simp add: int64_max_def)
  note obs = best_bid_abs [OF assms(1)] best_ask_abs [OF assms(1)]
    qty_at_abs [OF assms(1), of Buy] qty_at_abs [OF assms(1), of Sell]
  show ?thesis
  proof (cases "abids A")
    case Nil
    then show ?thesis
      using price(1) ne obs by (cases "aasks A") (auto simp: snapshot_top_def Let_def depth_at_def)
  next
    case (Cons x xs)
    then show ?thesis
      using price(1) ne sum obs
      by (cases "aasks A") (auto simp: snapshot_top_def Let_def depth_at_def chk64_def)
  qed
qed

text \<open>
  The snapshot given to the strategies.  On a reachable book whose prices are positive (and
  below \<open>2\<^sup>6\<^sup>2\<close>, so that their sum fits), it reports the best price of each side and the quantity
  resting there, zero for an empty side; the mid lies between bid and ask, is the only price there is
  when one side is empty, and the last trade price when both are.
\<close>

theorem snapshot_top_sound:
  assumes "book_reach cap b" "side_orders Buy b = Some bs" "side_orders Sell b = Some as"
    and "\<forall>x \<in> set (bs @ as). 0 < oprice x \<and> oprice x < 2 ^ 62"
  shows "\<exists>tp. snapshot_top b last_px = Some tp \<and>
    bid_px tp = (if bs = [] then 0 else oprice (hd bs)) \<and>
    bid_qty tp = (if bs = [] then 0 else depth_at (oprice (hd bs)) bs) \<and>
    ask_px tp = (if as = [] then 0 else oprice (hd as)) \<and>
    ask_qty tp = (if as = [] then 0 else depth_at (oprice (hd as)) as) \<and>
    (bs \<noteq> [] \<and> as \<noteq> [] \<longrightarrow> bid_px tp \<le> mid tp \<and> mid tp < ask_px tp) \<and>
    (bs = [] \<and> as = [] \<longrightarrow> mid tp = last_px)"
proof -
  obtain A where A: "book_abs b A" "ainv A"
    using book_reach_abs [OF assms(1)] by metis
  have eq: "bs = abids A" "as = aasks A"
    using assms(2,3) side_orders_abs [OF A(1), of Buy] side_orders_abs [OF A(1), of Sell] by simp_all
  have unc: "oprice x < oprice y" if "x \<in> set bs" "y \<in> set as" for x y
    using A(2) that by (auto simp: ainv_def eq)
  have "oprice x \<noteq> 0 \<and> \<bar>oprice x\<bar> < 2 ^ 62" if "x \<in> set (bs @ as)" for x
    using bspec [OF assms(4) that] by simp
  then have "\<forall>x \<in> set (resting A). oprice x \<noteq> 0 \<and> \<bar>oprice x\<bar> < 2 ^ 62"
    by (simp add: resting_def eq)
  note snap = snapshot_abs [OF A this, of last_px, folded eq]
  have mid: "oprice x \<le> (oprice x + oprice y) sdiv 2 \<and> (oprice x + oprice y) sdiv 2 < oprice y"
    if "x \<in> set bs" "y \<in> set as" for x y
    using half_between [OF unc [OF that]] assms(4) that by force
  show ?thesis
    unfolding snap using mid by (cases bs; cases as) auto
qed

theorem snapshot_top_sound_witness:
  "\<exists>tp. snapshot_top demo_book 7 = Some tp \<and> bid_px tp = 99 \<and> ask_px tp = 101 \<and> ask_qty tp = 12 \<and>
     bid_px tp \<le> mid tp \<and> mid tp < ask_px tp"
proof -
  obtain bs as where s: "side_orders Buy demo_book = Some bs" "side_orders Sell demo_book = Some as"
    "\<forall>x \<in> set (bs @ as). 0 < oprice x \<and> oprice x < 2 ^ 62" "bs \<noteq> []" "as \<noteq> []" "oprice (hd bs) = 99"
    "oprice (hd as) = 101" "depth_at 101 as = 12"
  proof -
    have "(case (side_orders Buy demo_book, side_orders Sell demo_book) of
        (Some bs, Some as) \<Rightarrow> (\<forall>x \<in> set (bs @ as). 0 < oprice x \<and> oprice x < 2 ^ 62) \<and> bs \<noteq> [] \<and> as \<noteq> [] \<and>
          oprice (hd bs) = 99 \<and> oprice (hd as) = 101 \<and> depth_at 101 as = 12
      | _ \<Rightarrow> False)"
      by code_simp
    then show ?thesis
      using that by (auto split: option.splits)
  qed
  then show ?thesis
    using snapshot_top_sound [OF demo_reach s(1,2,3), of 7] by auto
qed

section \<open>Accounting of exogenous orders\<close>


text \<open>The resting bid 4 of the example book (10 at 99) belongs to the only strategy.\<close>

definition demo_replay :: "unit replay" where
  "demo_replay = \<lparr>rworld = \<lparr>eng = \<lparr>book = demo_book, trades_scratch = [], last_trades = []\<rparr>,
       routing = [(4, 0)], strats = [strategy_init ''a'' ()]\<rparr>,
     ext_to_eng = [], last_trade_px = 0, stats = stats_init\<rparr>"

definition sell_at :: "price \<Rightarrow> quantity \<Rightarrow> tick" where
  "sell_at px q = \<lparr>ts_ns = 0, symbol_id = 0, event = EvAdd, tick_side = 1, tick_price = px, tick_qty = q, ext_id = 0\<rparr>"

lemma demo_replay_world:
  "rworld demo_replay = \<lparr>eng = \<lparr>book = demo_book, trades_scratch = [], last_trades = []\<rparr>,
     routing = [(4, 0)], strats = [strategy_init ''a'' ()]\<rparr>"
  by (simp add: demo_replay_def)

lemma demo_replay_ok: "world_ok 8 (rworld demo_replay)" "ids_left 1 (rworld demo_replay)"
proof -
  have "next_id demo_book = 5"
    by code_simp
  then show "world_ok 8 (rworld demo_replay)" "ids_left 1 (rworld demo_replay)"
    using demo_reach unfolding demo_replay_world world_ok_def ids_left_def by simp_all
qed

lemma demo_sell:
  "map_option (\<lambda>r'. position (pf (strats (rworld r') ! 0))) (apply_tick (sell_at 99 4) demo_replay) = Some 4"
  "map_option (\<lambda>(i, tr, b). map maker_id tr) (place_limit Sell 99 4 [] demo_book) = Some [4]"
  by code_simp+



section \<open>Replays without strategies return\<close>

definition priced :: "'s world \<Rightarrow> bool" where
  "priced w \<longleftrightarrow> (\<exists>A. book_abs (book (eng w)) A \<and> ainv A \<and> (\<forall>x \<in> set (resting A). \<bar>oprice x\<bar> < 2 ^ 62))"

lemma aplace_prices:
  assumes "ainv A" "aplace s px q A = (i, tr, A')" "P px" "\<forall>x \<in> set (resting A). P (oprice x)"
  shows "\<forall>x \<in> set (resting A'). P (oprice x)"
proof -
  obtain r ys where f: "fill (opposite s) (anext_id A) px q (aside (opposite s) A) = (tr, r, ys)"
    and y: "aside (opposite s) A' = ys"
    and x: "aside s A' = (if r > 0 \<and> length (aside s A) + length ys < acap A
       then insort_key (prio s) \<lparr>oid = i, oside = s, oprice = px, oqty = r, ots = anext_ts A\<rparr> (aside s A)
       else aside s A)"
    by (rule aplace_parts [OF assms(2)])
  have "P (oprice z)" if "z \<in> set ys" for z
    using fill_members [OF f ainv_pos [OF assms(1)] that] assms(4) by (auto simp: set_resting [of A s])
  moreover have "P (oprice z)" if "z \<in> set (aside s A')" for z
    using that assms(3,4) by (auto simp: x set_insort_key set_resting [of A s] split: if_splits)
  ultimately show ?thesis
    by (auto simp: set_resting [of A' s] y)
qed

lemma snapshot_returns:
  assumes "priced w"
  shows "\<exists>tp. snapshot_top (book (eng w)) last_px = Some tp"
proof -
  let ?b = "book (eng w)"
  obtain A where A: "book_abs ?b A" "\<forall>x \<in> set (resting A). \<bar>oprice x\<bar> < 2 ^ 62"
    using assms by (auto simp: priced_def)
  have bid: "\<bar>best_bid ?b\<bar> < 2 ^ 62"
    using A(2) unfolding best_bid_abs [OF A(1)] by (cases "abids A") (auto simp: resting_def)
  have ask: "\<bar>best_ask ?b\<bar> < 2 ^ 62" if "best_ask ?b \<noteq> int64_max"
    using A(2) that unfolding best_ask_abs [OF A(1)] by (cases "aasks A") (auto simp: resting_def)
  have sum: "is_s64 (best_bid ?b + best_ask ?b)" if "best_ask ?b \<noteq> int64_max"
  proof (rule is_s64_abs)
    show "\<bar>best_bid ?b + best_ask ?b\<bar> \<le> int64_max"
      using bid ask [OF that] abs_triangle_ineq [of "best_bid ?b" "best_ask ?b"]
      by (simp add: int64_max_def)
  qed
  obtain q1 q2 where "qty_at Buy (best_bid ?b) ?b = Some q1" "qty_at Sell (best_ask ?b) ?b = Some q2"
    using qty_at_abs [OF A(1)] by blast
  then show ?thesis
    using sum by (auto simp: snapshot_top_def Let_def chk64_def)
qed

lemma exo_fills_unrouted:
  "routing (rworld r) = [] \<Longrightarrow> \<exists>r'. exo_fills side trs r = Some r' \<and> rworld r' = rworld r"
proof (induction trs arbitrary: r)
  case (Cons tr trs)
  let ?r1 = "r\<lparr>stats := (stats r)\<lparr>engine_trades := inc64 (engine_trades (stats r))\<rparr>,
      last_trade_px := trade_price tr\<rparr>"
  show ?case
    using Cons.IH [of ?r1] Cons.prems by simp
qed simp

lemma apply_tick_returns:
  assumes ok: "world_ok cap (rworld r)" "strats (rworld r) = []" "priced (rworld r)"
    and t: "tick_ok t" "\<bar>tick_price t\<bar> < 2 ^ 62" and ids: "ids_left 1 (rworld r)"
  shows "\<exists>r'. apply_tick t r = Some r' \<and> strats (rworld r') = [] \<and> priced (rworld r')"
proof -
  have rt: "routing (rworld r) = []"
    using ok(1,2) by (cases "routing (rworld r)") (auto simp: world_ok_def)
  obtain A where A: "book_abs (book (eng (rworld r))) A" "ainv A" "\<forall>x \<in> set (resting A). \<bar>oprice x\<bar> < 2 ^ 62"
    using ok(3) by (auto simp: priced_def)
  have re: "book_reach cap (book (eng (rworld r)))"
    using ok(1) by (simp add: world_ok_def)
  consider "event t = EvAdd" | "event t = EvCancel" | "event t \<notin> {EvAdd, EvCancel}" by blast
  then show ?thesis
  proof cases
    case 1
    let ?s = "side_of (tick_side t)"
    have grd: "cmd_grd (Place ?s (tick_price t) (tick_qty t)) (book (eng (rworld r)))"
      using t(1) ids by (simp add: tick_ok_def ids_left_def)
    obtain A0 tr A' e' where e: "book_abs (book (eng (rworld r))) A0" "ainv A0"
      "aplace ?s (tick_price t) (tick_qty t) A0 = (next_id (book (eng (rworld r))), tr, A')"
      "engine_place_limit ?s (tick_price t) (tick_qty t) (eng (rworld r)) =
         Some (next_id (book (eng (rworld r))), e')" "book_abs (book e') A'" "ainv A'"
      by (rule engine_place_cases [OF re grd])
    have "set (resting A0) = set (resting A)"
      using side_orders_abs [OF A(1)] side_orders_abs [OF e(1)] by (auto simp: set_resting [of _ Buy])
    then have "\<forall>x \<in> set (resting A'). \<bar>oprice x\<bar> < 2 ^ 62"
      using aplace_prices [OF e(2,3), of "\<lambda>p. \<bar>p\<bar> < 2 ^ 62"] t(2) A(3) by simp
    then have "priced ((rworld r)\<lparr>eng := e'\<rparr>)"
      using e(5,6) by (auto simp: priced_def)
    moreover obtain r' where "apply_add t r = Some r'" "rworld r' = (rworld r)\<lparr>eng := e'\<rparr>"
    proof -
      obtain r1 where "apply_add t r = exo_fills ?s (last_trades e') r1" "rworld r1 = (rworld r)\<lparr>eng := e'\<rparr>"
        using e(4) by (simp add: apply_add_def Let_def)
      then show ?thesis
        using exo_fills_unrouted [of r1 ?s "last_trades e'"] rt that by auto
    qed
    ultimately show ?thesis
      using 1 ok(2) by (simp add: apply_tick_def)
  next
    case 2
    then have run: "apply_tick t r = apply_cancel t r"
      by (simp add: apply_tick_def EvAdd_def EvCancel_def)
    show ?thesis
    proof (cases "map_of (ext_to_eng r) (ext_id t)")
      case None
      then show ?thesis using run ok(2,3) by (simp add: apply_cancel_def)
    next
      case (Some i)
      obtain A0 hit A' e' where e: "book_abs (book (eng (rworld r))) A0" "ainv A0" "acancel i A0 = (hit, A')"
        "engine_cancel i (eng (rworld r)) = Some (hit, e')" "book_abs (book e') A'" "ainv A'"
        by (rule engine_cancel_cases [OF re])
      have "set (resting A') \<subseteq> set (resting A0)" "set (resting A0) = set (resting A)"
        using acancel_fields(1) [OF e(3)] side_orders_abs [OF A(1)] side_orders_abs [OF e(1)]
        by (auto simp: set_resting [of _ Buy])
      then have "priced ((rworld r)\<lparr>eng := e'\<rparr>)"
        using A(3) e(5,6) by (auto simp: priced_def)
      then show ?thesis
        using run Some e(4) ok(2) by (simp add: apply_cancel_def)
    qed
  next
    case 3
    then show ?thesis
      using ok(2,3) by (simp add: apply_tick_def apply_trade_def)
  qed
qed

lemma replay_loop_returns:
  assumes "world_ok cap (rworld r)" "strats (rworld r) = []" "priced (rworld r)"
    "\<forall>t \<in> set ts. tick_ok t \<and> \<bar>tick_price t\<bar> < 2 ^ 62" "ids_left (length ts) (rworld r)"
  shows "\<exists>r'. replay_loop on_tick ts ([], r) = Some ([], r')"
  using assms
proof (induction ts arbitrary: r)
  case (Cons t ts)
  let ?r0 = "r\<lparr>stats := (stats r)\<lparr>ticks_consumed := inc64 (ticks_consumed (stats r))\<rparr>\<rparr>"
  have t: "tick_ok t" "\<bar>tick_price t\<bar> < 2 ^ 62"
    using Cons.prems(4) by auto
  have one: "ids_left 1 (rworld ?r0)"
    using ids_left_mono [OF Cons.prems(5), of "rworld r" 1] by simp
  obtain r1 where r1: "apply_tick t ?r0 = Some r1" "strats (rworld r1) = []" "priced (rworld r1)"
    using apply_tick_returns [of cap ?r0 t] Cons.prems(1-3) t one by auto
  have k: "world_ok cap (rworld r1)" "next_id (book (eng (rworld r1))) \<le> Suc (next_id (book (eng (rworld r))))"
    using apply_tick_ok [OF _ t(1) one r1(1), of cap] Cons.prems(1) by simp_all
  obtain tp where tp: "snapshot_top (book (eng (rworld r1))) (last_trade_px r1) = Some tp"
    using snapshot_returns [OF r1(3)] by blast
  have step: "replay_tick on_tick t ([], r) = Some ([], r1)"
    using r1(1) tp by (simp add: replay_tick_def Let_def)
  have "\<exists>r'. replay_loop on_tick ts ([], r1) = Some ([], r')"
    using Cons.prems(4) ids_left_mono [OF Cons.prems(5), of "rworld r1" "length ts"] k r1
    by (intro Cons.IH) auto
  then show ?case
    using step by simp
qed simp

lemma replay_loop_no_ctx:
  "replay_loop f ts ([], r) = Some ([], r') \<Longrightarrow> replay_loop g ts ([], r) = Some ([], r')"
proof (induction ts arbitrary: r)
  case (Cons t ts)
  have "replay_tick f t ([], r) = replay_tick g t ([], r)" for r
    by (simp add: replay_tick_def)
  moreover obtain r1 where "replay_tick f t ([], r) = Some ([], r1)"
    using Cons.prems by (auto simp: replay_tick_def Let_def split: Option.bind_splits)
  ultimately show ?case
    using Cons by simp
qed simp

text \<open>The default \<open>on_start\<close> and \<open>on_end\<close> of the base class do nothing.\<close>

definition idle :: "'s callback" where
  "idle c w = Some w"

lemma keeps_idle: "keeps cap B I idle"
  by (simp add: keeps_def idle_def)

interpretation quiet: replayed idle "\<lambda>_. idle" idle cap 0 "\<lambda>_. True" for cap
  by unfold_locales (rule keeps_idle TrueI)+

lemma engine_init_priced: "priced \<lparr>eng = engine_init, routing = [], strats = []\<rparr>"
proof -
  have "book_abs (book engine_init) (abook_init kDefaultPoolCapacity)"
    by (simp add: engine_init_def kDefaultPoolCapacity_def book_init_abs)
  then show ?thesis
    using ainv_init unfolding priced_def by (auto simp: abook_init_def resting_def)
qed



end
