(* ===== verification/Strategies.thy ===== *)
theory Strategies
  imports Replay
begin

text \<open>
  The two strategies of \<open>src/mvp/strategies\<close>: the symmetric market maker (\<open>mm.cpp\<close>) and the moving
  average crossover (\<open>ma_cross.cpp\<close>), as derived classes of the strategy framework, and their
  dispatch by the replay.
\<close>

section \<open>State\<close>

record mm_config =
  quote_qty :: quantity
  spread :: price
  requote_threshold :: price
  requote_interval :: nat
  inventory_limit :: quantity

definition mm_config_default :: mm_config where
  "mm_config_default = \<lparr>quote_qty = 10, spread = 2, requote_threshold = 1, requote_interval = 50,
     inventory_limit = 100\<rparr>"

record market_maker =
  mm_cfg :: mm_config
  last_quote_mid :: price
  tick_counter :: nat
  bid_id :: order_id
  ask_id :: order_id

definition market_maker_init :: "mm_config \<Rightarrow> market_maker" where
  "market_maker_init cfg = \<lparr>mm_cfg = cfg, last_quote_mid = 0, tick_counter = 0, bid_id = 0, ask_id = 0\<rparr>"

record ma_config =
  fast_window :: nat
  slow_window :: nat
  target_position :: quantity
  slippage_ticks :: price

definition ma_config_default :: ma_config where
  "ma_config_default = \<lparr>fast_window = 20, slow_window = 100, target_position = 50, slippage_ticks = 1\<rparr>"

record ma_cross =
  ma_cfg :: ma_config
  fast_win :: "price list"
  slow_win :: "price list"
  fast_sum :: int
  slow_sum :: int
  last_sign :: int

definition ma_cross_init :: "ma_config \<Rightarrow> ma_cross" where
  "ma_cross_init cfg = \<lparr>ma_cfg = cfg, fast_win = [], slow_win = [], fast_sum = 0, slow_sum = 0, last_sign = 0\<rparr>"

datatype strat = MarketMaker market_maker | MACross ma_cross

section \<open>The market maker\<close>

definition mm_state :: "ctx \<Rightarrow> strat world \<Rightarrow> market_maker option" where
  "mm_state c w =
     (if owner c < length (strats w)
      then (case own (strats w ! owner c) of MarketMaker m \<Rightarrow> Some m | _ \<Rightarrow> None) else None)"

definition set_own :: "ctx \<Rightarrow> strat \<Rightarrow> strat world \<Rightarrow> strat world" where
  "set_own c s w = w\<lparr>strats := (strats w)[owner c := (strats w ! owner c)\<lparr>own := s\<rparr>]\<rparr>"

definition mm_modify :: "ctx \<Rightarrow> (market_maker \<Rightarrow> market_maker) \<Rightarrow> strat world \<Rightarrow> strat world option" where
  "mm_modify c f w = do { m \<leftarrow> mm_state c w; Some (set_own c (MarketMaker (f m)) w) }"

definition my_position :: "ctx \<Rightarrow> 's world \<Rightarrow> quantity" where
  "my_position c w = position (pf (strats w ! owner c))"

definition cancel_quotes :: "ctx \<Rightarrow> strat world \<Rightarrow> strat world option" where
  "cancel_quotes c w = do {
     m \<leftarrow> mm_state c w;
     w1 \<leftarrow> (if bid_id m \<noteq> 0 then do {
              (hit, w') \<leftarrow> ctx_cancel c (bid_id m) w;
              mm_modify c (\<lambda>m. m\<lparr>bid_id := 0\<rparr>) w' }
            else Some w);
     m1 \<leftarrow> mm_state c w1;
     (if ask_id m1 \<noteq> 0 then do {
        (hit, w') \<leftarrow> ctx_cancel c (ask_id m1) w1;
        mm_modify c (\<lambda>m. m\<lparr>ask_id := 0\<rparr>) w' }
      else Some w1) }"

definition place_quotes :: "ctx \<Rightarrow> price \<Rightarrow> strat world \<Rightarrow> strat world option" where
  "place_quotes c mid_px w = do {
     m \<leftarrow> mm_state c w;
     let pos = my_position c w;
     let quote_bid = (pos \<le> inventory_limit (mm_cfg m));
     neg_limit \<leftarrow> chk64 (- inventory_limit (mm_cfg m));
     let quote_ask = (pos \<ge> neg_limit);
     w1 \<leftarrow> (if quote_bid then do {
              px \<leftarrow> chk64 (mid_px - spread (mm_cfg m));
              (i, w') \<leftarrow> ctx_place_limit c Buy px (quote_qty (mm_cfg m)) w;
              mm_modify c (\<lambda>m. m\<lparr>bid_id := i\<rparr>) w' }
            else Some w);
     w2 \<leftarrow> (if quote_ask then do {
              px \<leftarrow> chk64 (mid_px + spread (mm_cfg m));
              (i, w') \<leftarrow> ctx_place_limit c Sell px (quote_qty (mm_cfg m)) w1;
              mm_modify c (\<lambda>m. m\<lparr>ask_id := i\<rparr>) w' }
            else Some w1);
     mm_modify c (\<lambda>m. m\<lparr>last_quote_mid := mid_px\<rparr>) w2 }"

text \<open>A zero interval is a division by zero.\<close>

definition mm_on_tick :: "tick \<Rightarrow> strat callback" where
  "mm_on_tick t c w =
     (if bid_px (top c) = 0 \<or> ask_px (top c) = 0 then Some w
      else do {
        let mid_px = mid (top c);
        w1 \<leftarrow> mm_modify c (\<lambda>m. m\<lparr>tick_counter := inc64 (tick_counter m)\<rparr>) w;
        m \<leftarrow> mm_state c w1;
        mid_moved \<leftarrow> (if last_quote_mid m = 0 then Some True
                      else do {
                        d \<leftarrow> chk64 (mid_px - last_quote_mid m);
                        a \<leftarrow> chk64 \<bar>d\<bar>;
                        Some (a \<ge> requote_threshold (mm_cfg m)) });
        interval_hit \<leftarrow> (if requote_interval (mm_cfg m) = 0 then None
                         else Some (tick_counter m mod requote_interval (mm_cfg m) = 0));
        if \<not> mid_moved \<and> \<not> interval_hit then Some w1
        else do {
          w2 \<leftarrow> cancel_quotes c w1;
          place_quotes c mid_px w2 } })"

section \<open>The moving-average crossover\<close>

text \<open>One window: append the price, then drop the oldest when the window is too long.\<close>

definition push_window :: "nat \<Rightarrow> price \<Rightarrow> price list \<times> int \<Rightarrow> (price list \<times> int) option" where
  "push_window n p = (\<lambda>(win, sum). do {
     let win1 = win @ [p];
     sum1 \<leftarrow> chk64 (sum + p);
     if length win1 > n then do {
       sum2 \<leftarrow> chk64 (sum1 - hd win1);
       Some (tl win1, sum2) }
     else Some (win1, sum1) })"

definition push_price :: "price \<Rightarrow> ma_cross \<Rightarrow> ma_cross option" where
  "push_price p m = do {
     (fw, fs) \<leftarrow> push_window (fast_window (ma_cfg m)) p (fast_win m, fast_sum m);
     (sw, ss) \<leftarrow> push_window (slow_window (ma_cfg m)) p (slow_win m, slow_sum m);
     Some (m\<lparr>fast_win := fw, fast_sum := fs, slow_win := sw, slow_sum := ss\<rparr>) }"

definition fast_avg :: "ma_cross \<Rightarrow> price" where
  "fast_avg m = (if fast_win m = [] then 0 else fast_sum m sdiv int (length (fast_win m)))"

definition slow_avg :: "ma_cross \<Rightarrow> price" where
  "slow_avg m = (if slow_win m = [] then 0 else slow_sum m sdiv int (length (slow_win m)))"

definition ma_state :: "ctx \<Rightarrow> strat world \<Rightarrow> ma_cross option" where
  "ma_state c w =
     (if owner c < length (strats w)
      then (case own (strats w ! owner c) of MACross m \<Rightarrow> Some m | _ \<Rightarrow> None) else None)"

text \<open>The order that brings the position to the target of the signal.\<close>

definition ma_order :: "ctx \<Rightarrow> int \<Rightarrow> ma_cross \<Rightarrow> strat world \<Rightarrow> strat world option" where
  "ma_order c sign m w = do {
     let target = target_position (ma_cfg m);
     let pos = my_position c w;
     if sign > 0 then do {
       need \<leftarrow> chk64 (target - pos);
       if need > 0 then do {
         px \<leftarrow> chk64 (ask_px (top c) + slippage_ticks (ma_cfg m));
         (i, w') \<leftarrow> ctx_place_limit c Buy px need w;
         Some w' }
       else Some w }
     else do {
       neg_target \<leftarrow> chk64 (- target);
       need \<leftarrow> chk64 (pos - neg_target);
       if need > 0 then do {
         px \<leftarrow> chk64 (bid_px (top c) - slippage_ticks (ma_cfg m));
         (i, w') \<leftarrow> ctx_place_limit c Sell px need w;
         Some w' }
       else Some w } }"

definition ma_signal :: "ma_cross \<Rightarrow> int" where
  "ma_signal m = (if fast_avg m > slow_avg m then 1 else if fast_avg m < slow_avg m then - 1 else 0)"

definition ma_on_tick :: "tick \<Rightarrow> strat callback" where
  "ma_on_tick t c w = do {
     m \<leftarrow> ma_state c w;
     if event t \<noteq> EvTrade \<and> mid (top c) = 0 then Some w
     else do {
       m1 \<leftarrow> push_price (if event t = EvTrade then tick_price t else mid (top c)) m;
       let w1 = set_own c (MACross m1) w;
       if length (slow_win m1) < slow_window (ma_cfg m1) then Some w1
       else do {
         let sign = ma_signal m1;
         if sign = 0 \<or> sign = last_sign m1 then Some w1
         else do {
           let m2 = m1\<lparr>last_sign := sign\<rparr>;
           let w2 = set_own c (MACross m2) w1;
           if bid_px (top c) = 0 \<or> ask_px (top c) = 0 then Some w2
           else ma_order c sign m2 w2 } } } }"

section \<open>Dispatch\<close>

definition strat_on_tick :: "tick \<Rightarrow> strat callback" where
  "strat_on_tick t c w =
     (if owner c < length (strats w)
      then (case own (strats w ! owner c) of MarketMaker m \<Rightarrow> mm_on_tick t c w | MACross m \<Rightarrow> ma_on_tick t c w)
      else None)"

section \<open>Orders of a strategy on the book\<close>

definition rests :: "order_id \<Rightarrow> order_book \<Rightarrow> bool" where
  "rests i b \<longleftrightarrow> (\<exists>s xs. side_orders s b = Some xs \<and> i \<in> oid ` set xs)"

lemma ex_side: "(\<exists>s. P s) \<longleftrightarrow> P Buy \<or> P Sell"
  by (metis side.exhaust)

lemma rests_abs: "book_abs b A \<Longrightarrow> rests i b \<longleftrightarrow> i \<in> oid ` set (resting A)"
  by (simp add: rests_def side_orders_abs ex_side resting_def image_Un)

lemma aplace_ids:
  assumes "ainv A" "aplace s px q A = (i, tr, A')" "x \<in> set (resting A')"
  shows "oid x = i \<or> oid x \<in> oid ` set (resting A)"
proof -
  obtain r ys where f: "fill (opposite s) (anext_id A) px q (aside (opposite s) A) = (tr, r, ys)"
    and y: "aside (opposite s) A' = ys"
    and own: "aside s A' = (if r > 0 \<and> length (aside s A) + length ys < acap A
       then insort_key (prio s) \<lparr>oid = i, oside = s, oprice = px, oqty = r, ots = anext_ts A\<rparr> (aside s A)
       else aside s A)"
    by (rule aplace_parts [OF assms(2)])
  have "oid x \<in> oid ` set (aside (opposite s) A)" if "x \<in> set ys"
    using fill_members [OF f ainv_pos [OF assms(1)] that] by auto
  then show ?thesis
    using assms(3) by (auto simp: set_resting [of A' s] set_resting [of A s] y own set_insort_key split: if_splits)
qed

lemma acancel_ids:
  "acancel i A = (hit, A') \<Longrightarrow> x \<in> set (resting A') \<Longrightarrow> oid x \<noteq> i \<and> x \<in> set (resting A)"
  by (auto simp: acancel_def resting_def)

text \<open>
  What every market maker is owed: the only resting orders routed to it are its current quotes.
\<close>

definition quotes :: "market_maker \<Rightarrow> order_id set" where
  "quotes m = {bid_id m, ask_id m} - {0}"

definition quotes_ok :: "strat world \<Rightarrow> bool" where
  "quotes_ok w \<longleftrightarrow>
     (\<forall>k m i. k < length (strats w) \<longrightarrow> own (strats w ! k) = MarketMaker m \<longrightarrow>
        map_of (routing w) i = Some k \<longrightarrow> rests i (book (eng w)) \<longrightarrow> i \<in> quotes m)"

definition typed :: "strat world \<Rightarrow> bool" where
  "typed w \<longleftrightarrow>
     (\<forall>k m. k < length (strats w) \<longrightarrow> own (strats w ! k) = MarketMaker m \<longrightarrow> is_s64 (quote_qty (mm_cfg m)))"

text \<open>The same for one market maker, with the quotes in the course of a change.\<close>

definition quotes_in :: "nat \<Rightarrow> order_id set \<Rightarrow> strat world \<Rightarrow> bool" where
  "quotes_in k Q w \<longleftrightarrow> (\<forall>i. map_of (routing w) i = Some k \<longrightarrow> rests i (book (eng w)) \<longrightarrow> i \<in> Q)"

definition others_ok :: "nat \<Rightarrow> strat world \<Rightarrow> bool" where
  "others_ok k w \<longleftrightarrow>
     (\<forall>j m. j < length (strats w) \<longrightarrow> j \<noteq> k \<longrightarrow> own (strats w ! j) = MarketMaker m \<longrightarrow>
        quotes_in j (quotes m) w)"

lemma quotes_ok_split:
  "k < length (strats w) \<Longrightarrow> quotes_ok w \<longleftrightarrow> others_ok k w \<and>
     (\<forall>m. own (strats w ! k) = MarketMaker m \<longrightarrow> quotes_in k (quotes m) w)"
  unfolding quotes_ok_def others_ok_def quotes_in_def by blast

lemma ctx_place_quotes:
  assumes "world_ok cap w" "owner c < length (strats w)" "is_s64 px" "is_s64 q" "ids_left 1 w"
    and pl: "ctx_place_limit c side px q w = Some (i, w')"
  shows "quotes_in k Q w \<Longrightarrow> quotes_in k (if k = owner c then insert i Q else Q) w'"
proof -
  obtain A tr A' where A: "book_abs (book (eng w)) A" "ainv A" "aplace side px q A = (i, tr, A')"
    "book_abs (book (eng w')) A'" and rt: "routing w' = AList.update i (owner c) (routing w)"
    by (rule ctx_place_cases [OF assms])
  have "rests j (book (eng w')) \<Longrightarrow> j = i \<or> rests j (book (eng w))" for j
    using aplace_ids [OF A(2,3)] by (auto simp: rests_abs [OF A(1)] rests_abs [OF A(4)])
  then show "quotes_in k Q w \<Longrightarrow> quotes_in k (if k = owner c then insert i Q else Q) w'"
    unfolding quotes_in_def rt update_conv by (auto split: if_splits)
qed

lemma ctx_cancel_quotes:
  assumes "world_ok cap w" and ca: "ctx_cancel c i w = Some (hit, w')"
  shows "quotes_in k Q w \<Longrightarrow> quotes_in k (Q - {i}) w'"
proof -
  obtain A A' where A: "book_abs (book (eng w)) A" "ainv A" "acancel i A = (hit, A')"
    "book_abs (book (eng w')) A'"
    and rt: "routing w' = (if hit then AList.delete i (routing w) else routing w)"
    by (rule ctx_cancel_cases [OF assms])
  have "rests j (book (eng w')) \<Longrightarrow> j \<noteq> i \<and> rests j (book (eng w))" for j
    using acancel_ids [OF A(3)] by (auto simp: rests_abs [OF A(1)] rests_abs [OF A(4)])
  moreover have "map_of (routing w') j = Some k \<Longrightarrow> map_of (routing w) j = Some k" for j
    by (auto simp: rt map_of_alist_delete split: if_splits)
  ultimately show "quotes_in k Q w \<Longrightarrow> quotes_in k (Q - {i}) w'"
    unfolding quotes_in_def by blast
qed

lemma next_id_pos:
  assumes "book_reach cap b"
  shows "0 < next_id b"
proof -
  have "0 < next_id b" if "reaches exec cmd_grd (book_init cap) b" "cap < 2 ^ 64"
    using that
  proof (induction rule: reaches.induct)
    case reaches_init
    then show ?case by (simp add: book_init_def)
  next
    case (reaches_step b c r b')
    let ?e = "\<lparr>book = b, trades_scratch = [], last_trades = []\<rparr>"
    have re: "book_reach cap (book ?e)"
      using reaches_step by (simp add: book_reach_def)
    show ?case
    proof (cases c)
      case (Place s px q)
      then have grd: "cmd_grd (Place s px q) (book ?e)"
        using reaches_step.hyps(2) by simp
      obtain tr and e' :: engine where "place_limit s px q [] (book ?e) = Some (next_id (book ?e), tr, book e')"
        "next_id (book e') = Suc (next_id (book ?e))"
        by (rule engine_place_cases [OF re grd]) blast
      then show ?thesis
        using reaches_step.hyps(3) Place by simp
    next
      case (Cancel i)
      obtain hit and e' :: engine where "cancel i (book ?e) = Some (hit, book e')" "next_id (book e') = next_id (book ?e)"
        by (rule engine_cancel_cases [OF re]) blast
      then show ?thesis
        using reaches_step Cancel by simp
    qed
  qed
  then show ?thesis
    using assms by (simp add: book_reach_def)
qed

section \<open>The market maker keeps its quotes\<close>

text \<open>
  The state of the world while market maker \<open>m\<close> runs: its resting orders are among \<open>Q\<close>, all others
  are as they should be, there are \<open>n\<close> strategies and the next identifier is \<open>k\<close>.
\<close>

definition mm_at :: "nat \<Rightarrow> ctx \<Rightarrow> strat world \<Rightarrow> market_maker \<Rightarrow> order_id set \<Rightarrow> nat \<Rightarrow> nat \<Rightarrow> bool" where
  "mm_at cap c w m Q n k \<longleftrightarrow>
     world_ok cap w \<and> owner c < n \<and> length (strats w) = n \<and> own (strats w ! owner c) = MarketMaker m \<and>
     quotes_in (owner c) Q w \<and> others_ok (owner c) w \<and> typed w \<and> next_id (book (eng w)) = k"

lemma mm_at_state: "mm_at cap c w m Q n k \<Longrightarrow> mm_state c w = Some m"
  by (simp add: mm_at_def mm_state_def)

lemma mm_at_modify:
  assumes "mm_at cap c w m Q n k" "mm_modify c f w = Some w'" "quote_qty (mm_cfg (f m)) = quote_qty (mm_cfg m)"
  shows "mm_at cap c w' (f m) Q n k \<and> my_position c w' = my_position c w"
proof -
  have w': "w' = set_own c (MarketMaker (f m)) w"
    using assms(2) mm_at_state [OF assms(1)] by (simp add: mm_modify_def)
  have nth: "strats w' ! j = (if j = owner c then (strats w ! j)\<lparr>own := MarketMaker (f m)\<rparr> else strats w ! j)"
    if "j < n" for j
    using assms(1) that by (simp add: w' set_own_def mm_at_def)
  have "eng w' = eng w" "routing w' = routing w" "length (strats w') = length (strats w)"
    by (simp_all add: w' set_own_def)
  then show ?thesis
    using assms nth
    by (auto simp: mm_at_def world_ok_def quotes_in_def others_ok_def typed_def my_position_def)
qed

lemma mm_at_cancel:
  assumes "mm_at cap c w m Q n k" "ctx_cancel c i w = Some (hit, w')"
  shows "mm_at cap c w' m (Q - {i}) n k \<and> my_position c w' = my_position c w"
proof -
  have ok: "world_ok cap w"
    using assms(1) by (simp add: mm_at_def)
  obtain A A' where w': "world_ok cap w'" "next_id (book (eng w')) = next_id (book (eng w))"
    "length (strats w') = length (strats w)"
    "\<forall>j. pf (strats w' ! j) = pf (strats w ! j) \<and> own (strats w' ! j) = own (strats w ! j)"
    by (rule ctx_cancel_cases [OF ok assms(2)])
  have "quotes_in j P w' " if "quotes_in j P w" for j P
    using ctx_cancel_quotes [OF ok assms(2) that] by (auto simp: quotes_in_def)
  then show ?thesis
    using assms(1) w' ctx_cancel_quotes [OF ok assms(2), of "owner c" Q]
    by (simp add: mm_at_def others_ok_def typed_def my_position_def)
qed

lemma mm_at_place:
  assumes "mm_at cap c w m Q n k" "ctx_place_limit c side px q w = Some (i, w')" "is_s64 px" "is_s64 q"
    "int k + 1 < 2 ^ 64"
  shows "i = k \<and> 0 < i \<and> mm_at cap c w' m (insert k Q) n (Suc k)"
proof -
  have ok: "world_ok cap w" "owner c < length (strats w)" "ids_left 1 w" "k = next_id (book (eng w))"
    using assms(1,5) by (simp_all add: mm_at_def ids_left_def)
  note pre = ok(1,2) assms(3,4) ok(3) assms(2)
  obtain A tr A' where w': "world_ok cap w'" "i = next_id (book (eng w))" "next_id (book (eng w')) = Suc i"
    "length (strats w') = length (strats w)"
    "\<forall>j < length (strats w). own (strats w' ! j) = own (strats w ! j) \<and>
       fills (owed (routing w) (owner c) side tr j) (pf (strats w ! j)) = Some (pf (strats w' ! j))"
    by (rule ctx_place_cases [OF pre])
  have "0 < i"
    using next_id_pos [of cap] ok(1) w'(2) by (simp add: world_ok_def)
  moreover have "quotes_in j P w'" if "quotes_in j P w" "j \<noteq> owner c" for j P
    using ctx_place_quotes [OF pre that(1)] that(2) by simp
  ultimately show ?thesis
    using assms(1) w' ok(4) ctx_place_quotes [OF pre, of "owner c" Q]
    by (simp add: mm_at_def others_ok_def typed_def)
qed

lemma mm_at_mono: "mm_at cap c w m Q n k \<Longrightarrow> Q \<subseteq> Q' \<Longrightarrow> mm_at cap c w m Q' n k"
  by (auto simp: mm_at_def quotes_in_def)

lemma cancel_quotes_at:
  assumes "mm_at cap c w m (quotes m) n k" "cancel_quotes c w = Some w'"
  shows "mm_at cap c w' (m\<lparr>bid_id := 0, ask_id := 0\<rparr>) {} n k \<and> my_position c w' = my_position c w"
proof -
  let ?m1 = "m\<lparr>bid_id := 0\<rparr>"
  obtain w1 where w1: "(if bid_id m \<noteq> 0 then do {
      (hit, w') \<leftarrow> ctx_cancel c (bid_id m) w; mm_modify c (\<lambda>m. m\<lparr>bid_id := 0\<rparr>) w' } else Some w) = Some w1"
    and rest: "do { m1 \<leftarrow> mm_state c w1; (if ask_id m1 \<noteq> 0 then do {
      (hit, w') \<leftarrow> ctx_cancel c (ask_id m1) w1; mm_modify c (\<lambda>m. m\<lparr>ask_id := 0\<rparr>) w' } else Some w1) } = Some w'"
    using assms(2) mm_at_state [OF assms(1)] unfolding cancel_quotes_def bind_eq_Some_conv by auto
  have one: "mm_at cap c w1 ?m1 ({ask_id m} - {0}) n k \<and> my_position c w1 = my_position c w"
  proof (cases "bid_id m = 0")
    case True
    then have "w1 = w" "?m1 = m" "quotes m = {ask_id m} - {0}"
      using w1 by (auto simp: quotes_def)
    then show ?thesis using assms(1) by simp
  next
    case False
    then obtain hit w0 where w0: "ctx_cancel c (bid_id m) w = Some (hit, w0)"
      "mm_modify c (\<lambda>m. m\<lparr>bid_id := 0\<rparr>) w0 = Some w1"
      using w1 by (auto split: Option.bind_splits)
    note a = mm_at_cancel [OF assms(1) w0(1)]
    have "mm_at cap c w1 ?m1 (quotes m - {bid_id m}) n k \<and> my_position c w1 = my_position c w0"
      using mm_at_modify [OF conjunct1 [OF a] w0(2)] by simp
    then show ?thesis
      using a mm_at_mono [of cap c w1 ?m1 "quotes m - {bid_id m}" n k "{ask_id m} - {0}"]
      by (auto simp: quotes_def)
  qed
  show ?thesis
  proof (cases "ask_id m = 0")
    case True
    then have eq: "m\<lparr>bid_id := 0, ask_id := 0\<rparr> = ?m1"
      by simp
    show ?thesis
      unfolding eq using True one rest mm_at_state [OF conjunct1 [OF one]] by simp
  next
    case False
    then obtain hit w0 where w0: "ctx_cancel c (ask_id m) w1 = Some (hit, w0)"
      "mm_modify c (\<lambda>m. m\<lparr>ask_id := 0\<rparr>) w0 = Some w'"
      using rest mm_at_state [OF conjunct1 [OF one]] by (auto split: Option.bind_splits)
    note a = mm_at_cancel [OF conjunct1 [OF one] w0(1)]
    show ?thesis
      using mm_at_modify [OF conjunct1 [OF a] w0(2)] a one False by simp
  qed
qed

text \<open>One quote: the order is placed at the next identifier, which is then recorded.\<close>

lemma place_quote_at:
  assumes at: "mm_at cap c w m Q n k" and k: "int k + 1 < 2 ^ 64" and q: "is_s64 q"
    and run: "do { px \<leftarrow> chk64 x; (i, w') \<leftarrow> ctx_place_limit c side px q w; mm_modify c (f i) w' } = Some w'"
    and f: "\<And>i. quote_qty (mm_cfg (f i m)) = quote_qty (mm_cfg m)"
  shows "0 < k \<and> mm_at cap c w' (f k m) (insert k Q) n (Suc k)"
proof -
  obtain i w0 where w0: "is_s64 x" "ctx_place_limit c side x q w = Some (i, w0)" "mm_modify c (f i) w0 = Some w'"
    using run by (auto split: Option.bind_splits)
  have "i = k \<and> 0 < i \<and> mm_at cap c w0 m (insert k Q) n (Suc k)"
    by (rule mm_at_place [OF at w0(2,1) q k])
  then show ?thesis
    using mm_at_modify [OF _ w0(3) f] by blast
qed

lemma place_quotes_at:
  assumes at: "mm_at cap c w m {} n k" and m: "bid_id m = 0" "ask_id m = 0" and k: "int k + 2 < 2 ^ 64"
    and run: "place_quotes c mid_px w = Some w'"
  shows "\<exists>m' k'. mm_at cap c w' m' (quotes m') n k' \<and> k' \<le> k + 2 \<and> mm_cfg m' = mm_cfg m \<and>
    (bid_id m' \<noteq> 0 \<longleftrightarrow> my_position c w \<le> inventory_limit (mm_cfg m)) \<and>
    (ask_id m' \<noteq> 0 \<longleftrightarrow> - inventory_limit (mm_cfg m) \<le> my_position c w)"
proof -
  let ?q = "quote_qty (mm_cfg m)" and ?lim = "inventory_limit (mm_cfg m)" and ?pos = "my_position c w"
  obtain w1 w2 where w1: "(if ?pos \<le> ?lim then do { px \<leftarrow> chk64 (mid_px - spread (mm_cfg m));
        (i, w') \<leftarrow> ctx_place_limit c Buy px ?q w; mm_modify c (\<lambda>m. m\<lparr>bid_id := i\<rparr>) w' } else Some w) = Some w1"
    and w2: "(if - ?lim \<le> ?pos then do { px \<leftarrow> chk64 (mid_px + spread (mm_cfg m));
        (i, w') \<leftarrow> ctx_place_limit c Sell px ?q w1; mm_modify c (\<lambda>m. m\<lparr>ask_id := i\<rparr>) w' } else Some w1) = Some w2"
    and w': "mm_modify c (\<lambda>m. m\<lparr>last_quote_mid := mid_px\<rparr>) w2 = Some w'"
    using run mm_at_state [OF at] unfolding place_quotes_def Let_def bind_eq_Some_conv chk64_Some by auto
  have q: "is_s64 ?q"
    using at by (auto simp: mm_at_def typed_def)
  obtain m1 k1 where one: "mm_at cap c w1 m1 ({bid_id m1} - {0}) n k1" "k \<le> k1" "k1 \<le> Suc k"
    "mm_cfg m1 = mm_cfg m" "ask_id m1 = 0" "bid_id m1 \<noteq> 0 \<longleftrightarrow> ?pos \<le> ?lim"
  proof (cases "?pos \<le> ?lim")
    case True
    have "0 < k \<and> mm_at cap c w1 (m\<lparr>bid_id := k\<rparr>) (insert k {}) n (Suc k)"
      using w1 True k by (intro place_quote_at [OF at _ q]) simp_all
    then show ?thesis
      using that [of "m\<lparr>bid_id := k\<rparr>" "Suc k"] True m mm_at_mono by fastforce
  next
    case False
    then show ?thesis
      using that [of m k] w1 at m by simp
  qed
  obtain m2 k2 where two: "mm_at cap c w2 m2 (quotes m2) n k2" "k2 \<le> k + 2" "mm_cfg m2 = mm_cfg m"
    "bid_id m2 = bid_id m1" "ask_id m2 \<noteq> 0 \<longleftrightarrow> - ?lim \<le> ?pos"
  proof (cases "- ?lim \<le> ?pos")
    case True
    have "0 < k1 \<and> mm_at cap c w2 (m1\<lparr>ask_id := k1\<rparr>) (insert k1 ({bid_id m1} - {0})) n (Suc k1)"
      using w2 True k one(3) by (intro place_quote_at [OF one(1) _ q]) simp_all
    moreover from this have "insert k1 ({bid_id m1} - {0}) = quotes (m1\<lparr>ask_id := k1\<rparr>)"
      by (auto simp: quotes_def)
    ultimately show ?thesis
      using that [of "m1\<lparr>ask_id := k1\<rparr>" "Suc k1"] True one by simp
  next
    case False
    have "quotes m1 = {bid_id m1} - {0}"
      using one(5) by (auto simp: quotes_def)
    then show ?thesis
      using that [of m1 k1] False w2 one by simp
  qed
  have "mm_at cap c w' (m2\<lparr>last_quote_mid := mid_px\<rparr>) (quotes m2) n k2"
    using mm_at_modify [OF two(1) w'] by simp
  then show ?thesis
    using two one(6)
    by (intro exI [of _ "m2\<lparr>last_quote_mid := mid_px\<rparr>"] exI [of _ k2]) (simp add: quotes_def)
qed

lemma mm_at_init:
  assumes "world_ok cap w" "quotes_ok w" "typed w" "owner c < length (strats w)" "mm_state c w = Some m"
  shows "mm_at cap c w m (quotes m) (length (strats w)) (next_id (book (eng w)))"
  using assms quotes_ok_split [OF assms(4)]
  by (auto simp: mm_at_def mm_state_def split: if_splits strat.splits)

lemma mm_at_done:
  "mm_at cap c w m (quotes m) n k \<Longrightarrow> world_ok cap w \<and> quotes_ok w \<and> typed w \<and> length (strats w) = n \<and>
     next_id (book (eng w)) = k"
  using quotes_ok_split [of "owner c" w] by (auto simp: mm_at_def)

lemma mm_on_tick_cases:
  assumes ok: "world_ok cap w" "quotes_ok w" "typed w" "owner c < length (strats w)" "ids_left 2 w"
    and m: "mm_state c w = Some m" and run: "mm_on_tick t c w = Some w'"
  obtains m' k where "mm_at cap c w' m' (quotes m') (length (strats w)) k" "k \<le> next_id (book (eng w)) + 2"
    "k = next_id (book (eng w)) \<or>
      (bid_id m' \<noteq> 0 \<longleftrightarrow> my_position c w \<le> inventory_limit (mm_cfg m)) \<and>
      (ask_id m' \<noteq> 0 \<longleftrightarrow> - inventory_limit (mm_cfg m) \<le> my_position c w)"
proof -
  let ?n = "length (strats w)" and ?k = "next_id (book (eng w))"
  let ?m1 = "m\<lparr>tick_counter := inc64 (tick_counter m)\<rparr>"
  note at = mm_at_init [OF ok(1-4) m]
  show ?thesis
  proof (cases "bid_px (top c) = 0 \<or> ask_px (top c) = 0")
    case True
    then have "w' = w"
      using run by (auto simp: mm_on_tick_def)
    then show ?thesis using that [of m ?k] at by simp
  next
    case False
    obtain w1 moved hit where w1: "mm_modify c (\<lambda>m. m\<lparr>tick_counter := inc64 (tick_counter m)\<rparr>) w = Some w1"
      and cont: "(if \<not> moved \<and> \<not> hit then Some w1
        else do { w2 \<leftarrow> cancel_quotes c w1; place_quotes c (mid (top c)) w2 }) = Some w'"
      using run False unfolding mm_on_tick_def Let_def by (auto simp: bind_eq_Some_conv)
    have a1: "mm_at cap c w1 ?m1 (quotes ?m1) ?n ?k \<and> my_position c w1 = my_position c w"
      using mm_at_modify [OF at w1] by (simp add: quotes_def)
    show ?thesis
    proof (cases "\<not> moved \<and> \<not> hit")
      case True
      then show ?thesis
        using that [of ?m1 ?k] cont a1 by auto
    next
      case False
      then obtain w2 where w2: "cancel_quotes c w1 = Some w2" "place_quotes c (mid (top c)) w2 = Some w'"
        using cont by (auto split: Option.bind_splits if_splits)
      note a2 = cancel_quotes_at [OF conjunct1 [OF a1] w2(1)]
      have "int ?k + 2 < 2 ^ 64"
        using ok(5) by (simp add: ids_left_def)
      from place_quotes_at [OF conjunct1 [OF a2] _ _ this w2(2)] show ?thesis
        using that a1 a2 by auto
    qed
  qed
qed

section \<open>The crossover\<close>

lemma set_own_parts:
  "eng (set_own c s w) = eng w" "routing (set_own c s w) = routing w"
  "length (strats (set_own c s w)) = length (strats w)"
  "owner c < length (strats w) \<Longrightarrow> own (strats (set_own c s w) ! owner c) = s"
  "j \<noteq> owner c \<Longrightarrow> strats (set_own c s w) ! j = strats w ! j"
  "owner c < length (strats w) \<Longrightarrow> my_position c (set_own c s w) = my_position c w"
  by (simp_all add: set_own_def my_position_def)

lemma set_own_ma:
  assumes "owner c < length (strats w)" "ma_state c w = Some m0"
  shows "world_ok cap w \<Longrightarrow> world_ok cap (set_own c (MACross m) w)"
    "quotes_ok w \<Longrightarrow> quotes_ok (set_own c (MACross m) w)" "typed w \<Longrightarrow> typed (set_own c (MACross m) w)"
    "ma_state c (set_own c (MACross m) w) = Some m"
proof -
  note p = set_own_parts [where c = c and s = "MACross m" and w = w]
  show "world_ok cap w \<Longrightarrow> world_ok cap (set_own c (MACross m) w)"
    by (simp add: world_ok_def p)
  have "k \<noteq> owner c" if "own (strats (set_own c (MACross m) w) ! k) = MarketMaker x" for k x
    using that p(4) assms(1) by auto
  then show "quotes_ok w \<Longrightarrow> quotes_ok (set_own c (MACross m) w)" "typed w \<Longrightarrow> typed (set_own c (MACross m) w)"
    unfolding quotes_ok_def typed_def p(1-3) using p(5) by metis+
  show "ma_state c (set_own c (MACross m) w) = Some m"
    using p assms(1) by (simp add: ma_state_def)
qed

lemma ctx_place_ma:
  assumes "world_ok cap w" "quotes_ok w" "typed w" "owner c < length (strats w)" "ids_left 1 w"
    "ma_state c w = Some m" "is_s64 px" "is_s64 q" "ctx_place_limit c side px q w = Some (i, w')"
  shows "world_ok cap w' \<and> quotes_ok w' \<and> typed w' \<and> length (strats w') = length (strats w) \<and>
    next_id (book (eng w')) = Suc (next_id (book (eng w)))"
proof -
  note pre = assms(1,4,7,8,5,9)
  obtain A tr A' where w': "world_ok cap w'" "i = next_id (book (eng w))" "next_id (book (eng w')) = Suc i"
    "length (strats w') = length (strats w)"
    "\<forall>j < length (strats w). own (strats w' ! j) = own (strats w ! j) \<and>
       fills (owed (routing w) (owner c) side tr j) (pf (strats w ! j)) = Some (pf (strats w' ! j))"
    by (rule ctx_place_cases [OF pre])
  have no_mm: "own (strats w ! owner c) \<noteq> MarketMaker x" for x
    using assms(6) by (auto simp: ma_state_def split: if_splits)
  have "quotes_in j P w'" if "quotes_in j P w" "j \<noteq> owner c" for j P
    using ctx_place_quotes [OF pre that(1)] that(2) by simp
  then have "quotes_ok w'"
    using assms(2,4) w'(4,5) no_mm by (simp add: quotes_ok_split others_ok_def)
  then show ?thesis
    using w' assms(3) by (simp add: typed_def)
qed

lemma ma_order_cases:
  assumes ok: "world_ok cap w" "owner c < length (strats w)" "ids_left 1 w"
    and run: "ma_order c sign m w = Some w'"
  obtains "w' = w"
  | side px need i where "ctx_place_limit c side px need w = Some (i, w')" "is_s64 px" "is_s64 need" "0 < need"
      "side = Buy \<and> sign > 0 \<and> need = target_position (ma_cfg m) - my_position c w \<and>
         px = ask_px (top c) + slippage_ticks (ma_cfg m) \<or>
       side = Sell \<and> \<not> sign > 0 \<and> need = my_position c w + target_position (ma_cfg m) \<and>
         px = bid_px (top c) - slippage_ticks (ma_cfg m)"
proof (cases "sign > 0")
  case True
  then show ?thesis
    using run that(1) that(2) [of Buy]
    by (fastforce simp: ma_order_def Let_def split: Option.bind_splits if_splits)
next
  case False
  then show ?thesis
    using run that(1) that(2) [of Sell]
    by (fastforce simp: ma_order_def Let_def split: Option.bind_splits if_splits)
qed

lemma ma_on_tick_cases:
  assumes run: "ma_on_tick t c w = Some w'" and m: "ma_state c w = Some m"
  obtains "w' = w" | m1 where "w' = set_own c (MACross m1) w"
  | m1 w1 where "ma_cfg m1 = ma_cfg m" "w1 = set_own c (MACross m1) w" "ma_order c (ma_signal m1) m1 w1 = Some w'"
proof (cases "event t \<noteq> EvTrade \<and> mid (top c) = 0")
  case True
  then show ?thesis using run m that(1) by (simp add: ma_on_tick_def)
next
  case False
  let ?p = "if event t = EvTrade then tick_price t else mid (top c)"
  obtain m1 where m1: "push_price ?p m = Some m1"
    using run m False by (cases "push_price ?p m") (simp_all add: ma_on_tick_def)
  have cfg: "ma_cfg m1 = ma_cfg m"
    using m1 by (auto simp: push_price_def split: Option.bind_splits)
  let ?w1 = "set_own c (MACross m1) w" and ?s = "ma_signal m1"
  let ?m2 = "m1\<lparr>last_sign := ?s\<rparr>"
  have twice: "set_own c (MACross ?m2) ?w1 = set_own c (MACross ?m2) w"
    by (cases "owner c < length (strats w)") (simp_all add: set_own_def list_update_beyond)
  have rest: "(if length (slow_win m1) < slow_window (ma_cfg m1) then Some ?w1
       else if ?s = 0 \<or> ?s = last_sign m1 then Some ?w1
       else if bid_px (top c) = 0 \<or> ask_px (top c) = 0 then Some (set_own c (MACross ?m2) w)
       else ma_order c ?s ?m2 (set_own c (MACross ?m2) w)) = Some w'"
    using run m m1 False by (simp add: ma_on_tick_def Let_def twice cong: if_cong)
  have sig: "ma_signal ?m2 = ?s"
    by (simp add: ma_signal_def fast_avg_def slow_avg_def)
  consider "w' = ?w1" | "w' = set_own c (MACross ?m2) w" | "ma_order c ?s ?m2 (set_own c (MACross ?m2) w) = Some w'"
    using rest by (metis option.inject)
  then show ?thesis
  proof cases
    case 1
    then show ?thesis by (rule that(2))
  next
    case 2
    then show ?thesis by (rule that(2))
  next
    case 3
    then show ?thesis
      using cfg sig by (intro that(3) [of ?m2]) simp_all
  qed
qed

lemma ma_on_tick_keeps:
  assumes ok: "world_ok cap w" "quotes_ok w" "typed w" "owner c < length (strats w)" "ids_left 1 w"
    and m: "ma_state c w = Some m" and run: "ma_on_tick t c w = Some w'"
  shows "world_ok cap w' \<and> quotes_ok w' \<and> typed w' \<and> length (strats w') = length (strats w) \<and>
    next_id (book (eng w')) \<le> next_id (book (eng w)) + 1"
proof -
  note own = set_own_ma [OF ok(4) m] and parts = set_own_parts
  have upd: "world_ok cap (set_own c (MACross x) w)" "quotes_ok (set_own c (MACross x) w)"
    "typed (set_own c (MACross x) w)" "ids_left 1 (set_own c (MACross x) w)"
    "owner c < length (strats (set_own c (MACross x) w))" for x
    using own ok by (simp_all add: ids_left_def parts)
  show ?thesis
  proof (rule ma_on_tick_cases [OF run m])
    fix m1 w1
    assume w1: "w1 = set_own c (MACross m1) w" "ma_order c (ma_signal m1) m1 w1 = Some w'"
    note u = upd [of m1, folded w1(1)]
    show ?thesis
    proof (rule ma_order_cases [OF u(1,5,4) w1(2)])
      assume "w' = w1"
      then show ?thesis using u w1(1) by (simp add: parts)
    next
      fix side px need i
      assume "ctx_place_limit c side px need w1 = Some (i, w')" "is_s64 px" "is_s64 need"
      then have "world_ok cap w' \<and> quotes_ok w' \<and> typed w' \<and> length (strats w') = length (strats w1) \<and>
          next_id (book (eng w')) = Suc (next_id (book (eng w1)))"
        using own(4) [of m1] by (intro ctx_place_ma [OF u(1,2,3,5,4)]) (simp_all add: w1(1))
      then show ?thesis
        by (simp add: w1(1) parts)
    qed
  qed (use ok upd in \<open>simp_all add: parts\<close>)
qed

section \<open>The replay with these strategies\<close>

lemma apply_tick_quotes:
  assumes ok: "world_ok cap (rworld r)" "quotes_ok (rworld r) \<and> typed (rworld r)" "tick_ok t" "ids_left 1 (rworld r)"
    and run: "apply_tick t r = Some r'"
  shows "quotes_ok (rworld r') \<and> typed (rworld r')"
proof -
  have keep: "quotes_ok w' \<and> typed w'"
    if "length (strats w') = length (strats (rworld r))"
      "\<forall>j < length (strats (rworld r)). own (strats w' ! j) = own (strats (rworld r) ! j)"
      "\<And>i k. map_of (routing w') i = Some k \<Longrightarrow> rests i (book (eng w')) \<Longrightarrow>
         map_of (routing (rworld r)) i = Some k \<and> rests i (book (eng (rworld r)))" for w'
    using ok(2) that unfolding quotes_ok_def typed_def by metis
  have re: "book_reach cap (book (eng (rworld r)))"
    using ok(1) by (simp add: world_ok_def)
  consider "event t = EvAdd" | "event t = EvCancel" | "event t \<notin> {EvAdd, EvCancel}" by blast
  then show ?thesis
  proof cases
    case 1
    then have add: "apply_add t r = Some r'"
      using run by (simp add: apply_tick_def)
    obtain A i tr A' where A: "book_abs (book (eng (rworld r))) A" "ainv A"
      "aplace (side_of (tick_side t)) (tick_price t) (tick_qty t) A = (i, tr, A')"
      "book_abs (book (eng (rworld r'))) A'"
      and w': "place_limit (side_of (tick_side t)) (tick_price t) (tick_qty t) [] (book (eng (rworld r))) =
         Some (i, tr, book (eng (rworld r')))"
      "length (strats (rworld r')) = length (strats (rworld r))"
      "\<forall>i. map_of (routing (rworld r')) i =
         (if i \<in> maker_id ` set tr then None else map_of (routing (rworld r)) i)"
      "\<forall>j < length (strats (rworld r)). own (strats (rworld r') ! j) = own (strats (rworld r) ! j)"
      by (rule apply_add_cases [OF ok(1,3,4) add])
    have i: "i = next_id (book (eng (rworld r)))"
      using A by (auto simp: aplace_def Let_def book_abs_def split: prod.splits)
    show ?thesis
    proof (rule keep [OF w'(2,4)])
      fix j k
      assume j: "map_of (routing (rworld r')) j = Some k" "rests j (book (eng (rworld r')))"
      then have rt: "map_of (routing (rworld r)) j = Some k"
        using w'(3) by (auto split: if_splits)
      then have "j < i"
        using ok(1) i by (auto simp: world_ok_def dest!: map_of_SomeD)
      then show "map_of (routing (rworld r)) j = Some k \<and> rests j (book (eng (rworld r)))"
        using rt j(2) aplace_ids [OF A(2,3)] by (auto simp: rests_abs [OF A(1)] rests_abs [OF A(4)])
    qed
  next
    case 2
    then have can: "apply_cancel t r = Some r'"
      using run by (simp add: apply_tick_def EvAdd_def EvCancel_def)
    show ?thesis
    proof (cases "map_of (ext_to_eng r) (ext_id t)")
      case None
      then show ?thesis using can ok(2) by (auto simp: apply_cancel_def)
    next
      case (Some i)
      obtain A hit A' e' where e: "book_abs (book (eng (rworld r))) A" "ainv A" "acancel i A = (hit, A')"
        "engine_cancel i (eng (rworld r)) = Some (hit, e')" "book_abs (book e') A'"
        by (rule engine_cancel_cases [OF re])
      have "rworld r' = (rworld r)\<lparr>eng := e'\<rparr>"
        using can Some e(4) by (auto simp: apply_cancel_def)
      then show ?thesis
        using acancel_ids [OF e(3)] by (intro keep) (auto simp: rests_abs [OF e(1)] rests_abs [OF e(5)])
    qed
  next
    case 3
    then have "rworld r' = rworld r"
      using run by (auto simp: apply_tick_def apply_trade_def split: if_splits)
    then show ?thesis using ok(2) by simp
  qed
qed

lemma strat_on_tick_keeps: "keeps cap 2 (\<lambda>w. quotes_ok w \<and> typed w) (strat_on_tick t)"
  unfolding keeps_def
proof (intro allI impI)
  fix c and w w' :: "strat world"
  assume ok: "world_ok cap w" "quotes_ok w \<and> typed w" "owner c < length (strats w)" "ids_left 2 w"
    and run: "strat_on_tick t c w = Some w'"
  have ids: "ids_left 1 w"
    using ids_left_mono [OF ok(4), of w 1] by simp
  show "world_ok cap w' \<and> (quotes_ok w' \<and> typed w') \<and> length (strats w') = length (strats w) \<and>
      next_id (book (eng w')) \<le> next_id (book (eng w)) + 2"
  proof (cases "own (strats w ! owner c)")
    case (MarketMaker m)
    then have "mm_state c w = Some m" "mm_on_tick t c w = Some w'"
      using ok(3) run by (simp_all add: mm_state_def strat_on_tick_def)
    then obtain m' k where "mm_at cap c w' m' (quotes m') (length (strats w)) k" "k \<le> next_id (book (eng w)) + 2"
      using mm_on_tick_cases [of cap w c m t w'] ok by metis
    then show ?thesis
      using mm_at_done by blast
  next
    case (MACross m)
    then have "ma_state c w = Some m" "ma_on_tick t c w = Some w'"
      using ok(3) run by (simp_all add: ma_state_def strat_on_tick_def)
    then show ?thesis
      using ma_on_tick_keeps [of cap w c m t w'] ok ids by simp
  qed
qed

interpretation st: replayed idle strat_on_tick idle cap 2 "\<lambda>w. quotes_ok w \<and> typed w" for cap
proof
  show "quotes_ok (rworld r') \<and> typed (rworld r')"
    if "world_ok cap (rworld r)" "quotes_ok (rworld r) \<and> typed (rworld r)" "tick_ok t" "ids_left 1 (rworld r)"
      "apply_tick t r = Some r'" for r :: "strat replay" and t r'
    by (rule apply_tick_quotes [OF that])
qed (rule keeps_idle strat_on_tick_keeps)+

text \<open>
  A backtest with market makers and crossover strategies.  Any replay that returns leaves a
  reachable book, counts every tick and every event, and every market maker has at most its two
  current quotes on the book: no other order routed to it rests there.
\<close>

theorem backtest_keeps_quotes:
  assumes "replay_run idle strat_on_tick idle ticks w = Some (rs, w')" "book_reach cap (book (eng w))"
    "\<forall>t \<in> set ticks. tick_ok t" "typed w" "ids_left ((length ticks + 2) * (1 + length (strats w) * 2)) w"
  shows "book_reach cap (book (eng w')) \<and> length (strats w') = length (strats w) \<and>
    (\<forall>k m i. k < length (strats w') \<longrightarrow> own (strats w' ! k) = MarketMaker m \<longrightarrow>
       map_of (routing w') i = Some k \<longrightarrow> rests i (book (eng w')) \<longrightarrow> i = bid_id m \<or> i = ask_id m) \<and>
    ticks_consumed rs = length ticks \<and> exogenous_adds rs = count_event EvAdd ticks \<and>
    exogenous_cancels rs = count_event EvCancel ticks \<and> trade_prints rs = count_event EvTrade ticks"
proof -
  have "quotes_ok (w\<lparr>routing := []\<rparr>) \<and> typed (w\<lparr>routing := []\<rparr>)"
    using assms(4) by (simp add: quotes_ok_def typed_def)
  then have r: "world_ok cap w' \<and> (quotes_ok w' \<and> typed w') \<and> length (strats w') = length (strats w) \<and>
    ticks_consumed rs = (inc64 ^^ length ticks) 0 \<and> tally rs = fold tally_event ticks (0, 0, 0)"
    by (rule st.replay_run_keeps [OF assms(1-3) _ assms(5)])
  have "ids_left (length ticks) w"
    using ids_left_mono [OF assms(5), of w "length ticks"] by simp
  then have n: "int (length ticks) < 2 ^ 64"
    by (simp add: ids_left_def)
  from r have "quotes_ok w'" "world_ok cap w'" by simp_all
  then show ?thesis
    using r n inc64_funpow [of 0 "length ticks"] tally_fold [of 0 ticks 0 0]
    by (auto simp: tally_def world_ok_def quotes_ok_def quotes_def)
qed

definition mm_world :: "strat world" where
  "mm_world = \<lparr>eng = \<lparr>book = demo_book, trades_scratch = [], last_trades = []\<rparr>, routing = [],
     strats = [strategy_init ''market_maker'' (MarketMaker (market_maker_init mm_config_default))]\<rparr>"

lemma mm_world_parts:
  "book (eng mm_world) = demo_book" "length (strats mm_world) = 1" "typed mm_world" "world_ok 8 mm_world"
  "quotes_ok mm_world"
proof -
  show "book (eng mm_world) = demo_book" "length (strats mm_world) = 1"
    by (simp_all add: mm_world_def)
  have "is_s64 10"
    by code_simp
  then show "typed mm_world"
    by (simp add: typed_def mm_world_def strategy_init_def market_maker_init_def mm_config_default_def)
  show "world_ok 8 mm_world" "quotes_ok mm_world"
    using demo_reach by (simp_all add: world_ok_def quotes_ok_def mm_world_def)
qed

theorem backtest_keeps_quotes_witness:
  "\<exists>rs w'. replay_run idle strat_on_tick idle [sell_at 105 1] mm_world = Some (rs, w') \<and>
     routing w' = [(6, 0), (7, 0)] \<and> exogenous_adds rs = 1 \<and> book_reach 8 (book (eng w'))"
proof -
  have "map_option (\<lambda>(rs, w'). routing w') (replay_run idle strat_on_tick idle [sell_at 105 1] mm_world) =
      Some [(6, 0), (7, 0)]"
    by code_simp
  then obtain rs w' where run: "replay_run idle strat_on_tick idle [sell_at 105 1] mm_world = Some (rs, w')"
    "routing w' = [(6, 0), (7, 0)]"
    by auto
  have "next_id demo_book = 5" "tick_ok (sell_at 105 1)" "count_event EvAdd [sell_at 105 1] = 1"
    by code_simp+
  then show ?thesis
    using backtest_keeps_quotes [OF run(1), of 8] run mm_world_parts demo_reach by (simp add: ids_left_def)
qed

text \<open>
  C31.  Inventory control of the market maker.  On a tick on which it quotes, a bid is placed exactly
  when the position is not above the limit and an ask exactly when it is not below minus the limit;
  so beyond the limit only the reducing side is quoted.
\<close>

theorem mm_inventory_control:
  assumes "world_ok cap w" "quotes_ok w" "typed w" "owner c < length (strats w)" "ids_left 2 w"
    "own (strats w ! owner c) = MarketMaker m" "mm_on_tick t c w = Some w'"
    "next_id (book (eng w')) \<noteq> next_id (book (eng w))"
  shows "\<exists>m'. own (strats w' ! owner c) = MarketMaker m' \<and>
    (bid_id m' \<noteq> 0 \<longleftrightarrow> my_position c w \<le> inventory_limit (mm_cfg m)) \<and>
    (ask_id m' \<noteq> 0 \<longleftrightarrow> - inventory_limit (mm_cfg m) \<le> my_position c w) \<and>
    (\<forall>i. map_of (routing w') i = Some (owner c) \<longrightarrow> rests i (book (eng w')) \<longrightarrow> i = bid_id m' \<or> i = ask_id m')"
proof -
  have "mm_state c w = Some m"
    using assms(4,6) by (simp add: mm_state_def)
  then obtain m' k where "mm_at cap c w' m' (quotes m') (length (strats w)) k"
    "k = next_id (book (eng w)) \<or>
      (bid_id m' \<noteq> 0 \<longleftrightarrow> my_position c w \<le> inventory_limit (mm_cfg m)) \<and>
      (ask_id m' \<noteq> 0 \<longleftrightarrow> - inventory_limit (mm_cfg m) \<le> my_position c w)"
    by (rule mm_on_tick_cases [OF assms(1-5) _ assms(7)])
  then show ?thesis
    using assms(8) by (intro exI [of _ m']) (auto simp: mm_at_def quotes_in_def quotes_def)
qed

definition two_sided :: ctx where
  "two_sided = \<lparr>owner = 0, top = \<lparr>bid_px = 99, bid_qty = 10, ask_px = 101, ask_qty = 12, mid = 100\<rparr>\<rparr>"

theorem mm_inventory_control_witness:
  "\<exists>w' m'. mm_on_tick (sell_at 105 1) two_sided mm_world = Some w' \<and>
     own (strats w' ! 0) = MarketMaker m' \<and> bid_id m' \<noteq> 0 \<and> ask_id m' \<noteq> 0"
proof -
  have "map_option (\<lambda>w'. next_id (book (eng w'))) (mm_on_tick (sell_at 105 1) two_sided mm_world) = Some 7"
    "next_id demo_book = 5"
    by code_simp+
  then obtain w' where w': "mm_on_tick (sell_at 105 1) two_sided mm_world = Some w'"
    "next_id (book (eng w')) \<noteq> next_id (book (eng mm_world))" "ids_left 2 mm_world"
    using mm_world_parts(1) by (auto simp: ids_left_def)
  let ?m = "market_maker_init mm_config_default"
  have "own (strats mm_world ! owner two_sided) = MarketMaker ?m" "my_position two_sided mm_world = 0"
    "inventory_limit (mm_cfg ?m) = 100" "owner two_sided = 0"
    by (simp_all add: mm_world_def two_sided_def strategy_init_def my_position_def portfolio_init_def
        market_maker_init_def mm_config_default_def)
  then show ?thesis
    using mm_inventory_control [OF mm_world_parts(4,5,3) _ w'(3) _ w'(1,2)] mm_world_parts(2) w'(1) by auto
qed

section \<open>The averages of the crossover\<close>

definition last_n :: "nat \<Rightarrow> 'a list \<Rightarrow> 'a list" where
  "last_n n xs = drop (length xs - n) xs"

definition mean :: "price list \<Rightarrow> price" where
  "mean xs = (if xs = [] then 0 else sum_list xs sdiv int (length xs))"

fun push_prices :: "price list \<Rightarrow> ma_cross \<Rightarrow> ma_cross option" where
  "push_prices [] m = Some m"
| "push_prices (p # ps) m = do { m' \<leftarrow> push_price p m; push_prices ps m' }"

lemma last_n_snoc:
  "last_n n (xs @ [p]) = (let ys = last_n n xs @ [p] in if length ys > n then tl ys else ys)"
proof (cases "length xs < n")
  case True
  then show ?thesis by (simp add: last_n_def Let_def)
next
  case False
  have "tl (drop k xs @ [p]) = drop (Suc k) (xs @ [p])" if "k \<le> length xs" for k
    using that by (metis diff_is_0_eq drop_0 drop_Suc drop_append tl_drop)
  from this [of "length xs - n"] show ?thesis
    using False by (simp add: last_n_def Let_def Suc_diff_le)
qed

lemma abs_sum_list: "\<forall>x \<in> set xs. \<bar>x\<bar> \<le> M \<Longrightarrow> \<bar>sum_list xs\<bar> \<le> int (length xs) * M"
proof (induction xs)
  case (Cons x xs)
  then have "\<bar>x + sum_list xs\<bar> \<le> M + int (length xs) * M"
    using abs_triangle_ineq [of x "sum_list xs"] by simp
  then show ?case by (simp add: distrib_right)
qed simp

lemma push_window_last:
  assumes "\<forall>x \<in> set (xs @ [p]). \<bar>x\<bar> \<le> M" "(int n + 1) * M \<le> int64_max"
  shows "push_window n p (last_n n xs, sum_list (last_n n xs)) =
    Some (last_n n (xs @ [p]), sum_list (last_n n (xs @ [p])))"
proof -
  let ?ys = "last_n n xs @ [p]"
  have M: "0 \<le> M"
    using assms(1) by auto
  have "set (last_n n xs) \<subseteq> set xs" "length (last_n n xs) \<le> n"
    by (simp_all add: last_n_def set_drop_subset)
  then have b: "\<forall>x \<in> set ?ys. \<bar>x\<bar> \<le> M" "length ?ys \<le> Suc n"
    using assms(1) by auto
  have small: "is_s64 (sum_list zs)" if "set zs \<subseteq> set ?ys" "length zs \<le> Suc n" for zs
  proof (rule is_s64_abs)
    have "\<bar>sum_list zs\<bar> \<le> int (length zs) * M"
      using that(1) b(1) by (intro abs_sum_list) auto
    also have "\<dots> \<le> (int n + 1) * M"
      using that(2) M by (intro mult_right_mono) auto
    finally show "\<bar>sum_list zs\<bar> \<le> int64_max"
      using assms(2) by simp
  qed
  obtain y ys where ys: "?ys = y # ys"
    by (cases ?ys) auto
  have sum: "sum_list (last_n n xs) + p = y + sum_list ys"
    using arg_cong [OF ys, of sum_list] by simp
  have len: "length (last_n n xs) = length ys"
    using arg_cong [OF ys, of length] by simp
  have "is_s64 (y + sum_list ys)" "is_s64 (sum_list ys)"
    using small [of ?ys] small [of ys] b(2) ys by auto
  then show ?thesis
    unfolding last_n_snoc Let_def push_window_def ys by (simp add: chk64_def ys sum len)
qed

lemma push_prices_last:
  assumes "\<forall>x \<in> set (xs @ ps). \<bar>x\<bar> \<le> M"
    "(int (fast_window cfg) + 1) * M \<le> int64_max" "(int (slow_window cfg) + 1) * M \<le> int64_max"
    and "m = \<lparr>ma_cfg = cfg, fast_win = last_n (fast_window cfg) xs, slow_win = last_n (slow_window cfg) xs,
      fast_sum = sum_list (last_n (fast_window cfg) xs), slow_sum = sum_list (last_n (slow_window cfg) xs),
      last_sign = sg\<rparr>"
  shows "push_prices ps m = Some (m\<lparr>fast_win := last_n (fast_window cfg) (xs @ ps),
     fast_sum := sum_list (last_n (fast_window cfg) (xs @ ps)),
     slow_win := last_n (slow_window cfg) (xs @ ps), slow_sum := sum_list (last_n (slow_window cfg) (xs @ ps))\<rparr>)"
  using assms(1,4)
proof (induction ps arbitrary: xs m)
  case (Cons p ps)
  have b: "\<forall>x \<in> set (xs @ [p]). \<bar>x\<bar> \<le> M"
    using Cons.prems(1) by simp
  note w = push_window_last [OF b assms(2)] push_window_last [OF b assms(3)]
  show ?case
    using Cons.IH [of "xs @ [p]"] Cons.prems by (simp add: push_price_def w)
qed simp

text \<open>
  The rolling sums are right: after any sequence of prices that cannot overflow a window, the
  windows hold the most recent prices, and the averages are the truncated means of the windows.
\<close>

theorem ma_averages:
  assumes "\<forall>p \<in> set ps. \<bar>p\<bar> \<le> M"
    "(int (fast_window cfg) + 1) * M \<le> int64_max" "(int (slow_window cfg) + 1) * M \<le> int64_max"
  shows "\<exists>m. push_prices ps (ma_cross_init cfg) = Some m \<and>
    fast_win m = last_n (fast_window cfg) ps \<and> slow_win m = last_n (slow_window cfg) ps \<and>
    fast_avg m = mean (last_n (fast_window cfg) ps) \<and> slow_avg m = mean (last_n (slow_window cfg) ps)"
  using push_prices_last [of "[]" ps M cfg "ma_cross_init cfg" 0] assms
  by (simp add: ma_cross_init_def last_n_def fast_avg_def slow_avg_def mean_def)

definition ma_demo_cfg :: ma_config where
  "ma_demo_cfg = \<lparr>fast_window = 2, slow_window = 3, target_position = 5, slippage_ticks = 1\<rparr>"

theorem ma_averages_witness:
  "\<exists>m. push_prices [100, 103, 104, 110] (ma_cross_init ma_demo_cfg) = Some m \<and>
     fast_win m = [104, 110] \<and> fast_avg m = 107 \<and> slow_avg m = 105"
proof -
  have "\<forall>p \<in> set [100, 103, 104, 110]. \<bar>p\<bar> \<le> (110 :: int)"
    "(int (fast_window ma_demo_cfg) + 1) * 110 \<le> int64_max" "(int (slow_window ma_demo_cfg) + 1) * 110 \<le> int64_max"
    "last_n (fast_window ma_demo_cfg) [100, 103, 104, 110] = [104, 110 :: int]"
    "mean (last_n (fast_window ma_demo_cfg) [100, 103, 104, 110]) = 107"
    "mean (last_n (slow_window ma_demo_cfg) [100, 103, 104, 110]) = 105"
    by code_simp+
  then show ?thesis
    using ma_averages [of "[100, 103, 104, 110]" 110 ma_demo_cfg] by auto
qed

text \<open>
  Sizing of the crossover.  When a tick makes the strategy place an order, it is one order, whose
  quantity is exactly what separates the position from the target of the new signal, so that a
  complete fill would leave the position at plus or minus the target.
\<close>

theorem ma_orders_to_target:
  assumes "world_ok cap w" "owner c < length (strats w)" "ids_left 1 w"
    "own (strats w ! owner c) = MACross m" "ma_on_tick t c w = Some w'"
    "next_id (book (eng w')) \<noteq> next_id (book (eng w))"
  shows "\<exists>side px need i tr. place_limit side px need [] (book (eng w)) = Some (i, tr, book (eng w')) \<and>
    0 < need \<and> my_position c w + sgn_qty side need = sgn_qty side (target_position (ma_cfg m)) \<and>
    px = (if side = Buy then ask_px (top c) + slippage_ticks (ma_cfg m)
          else bid_px (top c) - slippage_ticks (ma_cfg m))"
proof -
  have m: "ma_state c w = Some m"
    using assms(2,4) by (simp add: ma_state_def)
  show ?thesis
  proof (rule ma_on_tick_cases [OF assms(5) m])
    fix m1 w1
    assume m1: "ma_cfg m1 = ma_cfg m" and w1: "w1 = set_own c (MACross m1) w"
      and run: "ma_order c (ma_signal m1) m1 w1 = Some w'"
    have ok: "world_ok cap w1" "owner c < length (strats w1)" "ids_left 1 w1"
      using assms(1-3) set_own_ma(1) [OF assms(2) m] by (simp_all add: w1 ids_left_def set_own_parts)
    show ?thesis
    proof (rule ma_order_cases [OF ok run])
      assume "w' = w1"
      then show ?thesis using assms(6) by (simp add: w1 set_own_parts)
    next
      fix side px need i
      assume pl: "ctx_place_limit c side px need w1 = Some (i, w')" "is_s64 px" "is_s64 need" "0 < need"
        and sz: "side = Buy \<and> ma_signal m1 > 0 \<and> need = target_position (ma_cfg m1) - my_position c w1 \<and>
         px = ask_px (top c) + slippage_ticks (ma_cfg m1) \<or>
       side = Sell \<and> \<not> ma_signal m1 > 0 \<and> need = my_position c w1 + target_position (ma_cfg m1) \<and>
         px = bid_px (top c) - slippage_ticks (ma_cfg m1)"
      have "\<exists>tr. place_limit side px need [] (book (eng w1)) = Some (i, tr, book (eng w'))"
        by (rule ctx_place_cases [OF ok(1,2) pl(2,3) ok(3) pl(1)]) (rule exI)
      then obtain tr where tr: "place_limit side px need [] (book (eng w)) = Some (i, tr, book (eng w'))"
        by (auto simp: w1 set_own_parts(1))
      have "my_position c w1 = my_position c w"
        using set_own_parts(6) [OF assms(2)] by (simp add: w1)
      then have "my_position c w + sgn_qty side need = sgn_qty side (target_position (ma_cfg m))"
        "px = (if side = Buy then ask_px (top c) + slippage_ticks (ma_cfg m)
          else bid_px (top c) - slippage_ticks (ma_cfg m))"
        using sz m1 by (auto simp: sgn_qty_def)
      then show ?thesis
        using tr pl(4) by blast
    qed
  next
    fix m1
    assume "w' = set_own c (MACross m1) w"
    then show ?thesis using assms(6) by (simp add: set_own_parts(1))
  qed (use assms(6) in simp)
qed

definition trade_at :: "price \<Rightarrow> tick" where
  "trade_at px = \<lparr>ts_ns = 0, symbol_id = 0, event = EvTrade, tick_side = 0, tick_price = px, tick_qty = 1, ext_id = 0\<rparr>"

definition buy_at :: "price \<Rightarrow> quantity \<Rightarrow> tick" where
  "buy_at px q = \<lparr>ts_ns = 0, symbol_id = 0, event = EvAdd, tick_side = 0, tick_price = px, tick_qty = q, ext_id = 0\<rparr>"

definition ma_world :: "ma_cross \<Rightarrow> strat world" where
  "ma_world m = \<lparr>eng = \<lparr>book = demo_book, trades_scratch = [], last_trades = []\<rparr>, routing = [],
     strats = [strategy_init ''ma_cross'' (MACross m)]\<rparr>"

text \<open>A crossover with windows of one and two prices that has seen one price.\<close>

definition ma_warm :: ma_cross where
  "ma_warm = \<lparr>ma_cfg = \<lparr>fast_window = 1, slow_window = 2, target_position = 5, slippage_ticks = 0\<rparr>,
     fast_win = [100], slow_win = [100], fast_sum = 100, slow_sum = 100, last_sign = 0\<rparr>"

theorem ma_orders_to_target_witness:
  "\<exists>w' side need. ma_on_tick (trade_at 104) two_sided (ma_world ma_warm) = Some w' \<and> 0 < need \<and>
     my_position two_sided (ma_world ma_warm) + sgn_qty side need = sgn_qty side 5"
proof -
  have "map_option (\<lambda>w'. next_id (book (eng w'))) (ma_on_tick (trade_at 104) two_sided (ma_world ma_warm)) = Some 6"
    and id: "next_id demo_book = 5"
    by code_simp+
  then obtain w' where w': "ma_on_tick (trade_at 104) two_sided (ma_world ma_warm) = Some w'"
    "next_id (book (eng w')) \<noteq> next_id (book (eng (ma_world ma_warm)))"
    by (auto simp: ma_world_def)
  have "world_ok 8 (ma_world ma_warm)" "ids_left 1 (ma_world ma_warm)"
    "own (strats (ma_world ma_warm) ! owner two_sided) = MACross ma_warm"
    "owner two_sided < length (strats (ma_world ma_warm))" "target_position (ma_cfg ma_warm) = 5"
    using demo_reach id
    by (simp_all add: world_ok_def ids_left_def ma_world_def two_sided_def strategy_init_def ma_warm_def)
  then show ?thesis
    using ma_orders_to_target [OF _ _ _ _ w'] w'(1) by metis
qed


end
