(* ===== verification/Tick_Files.thy ===== *)
theory Tick_Files
  imports Replay Fix_Properties
begin

text \<open>
  The tick files of \<open>src/mvp/src/backtest/replay.cpp\<close>: the CSV and the binary format, written and read
  back.  The content of a file is a string; that a file cannot be opened is an argument, and the
  exceptions are error values.  An undefined conversion of \<open>sscanf\<close> (a number out of range) is
  \<^term>\<open>None\<close>.
\<close>

section \<open>Writing CSV\<close>

definition csv_header :: string where
  "csv_header = ''ts_ns,symbol,event,side,price,qty,ext_id'' @ [nl]"

definition csv_line :: "tick \<Rightarrow> string" where
  "csv_line t =
     (let ev = (if event t = EvCancel then CHR ''C'' else if event t = EvTrade then CHR ''T'' else CHR ''A'');
          sd = (if tick_side t = 1 then CHR ''S'' else CHR ''B'')
      in dec (ts_ns t) @ '','' @ dec (symbol_id t) @ '','' @ [ev] @ '','' @ [sd] @ '','' @
         to_chars (tick_price t) @ '','' @ to_chars (tick_qty t) @ '','' @ dec (ext_id t) @ [nl])"

definition save_csv :: "string \<Rightarrow> bool \<Rightarrow> tick list \<Rightarrow> string + string" where
  "save_csv path can_open ticks =
     (if \<not> can_open then Inl (''save_csv: cannot open '' @ path)
      else Inr (csv_header @ concat (map csv_line ticks)))"

section \<open>Reading CSV\<close>

text \<open>\<open>std::getline\<close> until it fails: the last line need not end in a newline.\<close>

function getlines :: "string \<Rightarrow> string list" where
  "getlines s =
     (if s = [] then []
      else let l = takeWhile (\<lambda>c. c \<noteq> nl) s; r = drop (length l) s
           in l # (if r = [] then [] else getlines (tl r)))"
  by pat_completeness auto
termination
  by (relation "measure length") (auto simp: Let_def)

declare getlines.simps [simp del]

fun starts_with :: "string \<Rightarrow> string \<Rightarrow> bool" where
  "starts_with [] s \<longleftrightarrow> True"
| "starts_with (p # ps) [] \<longleftrightarrow> False"
| "starts_with (p # ps) (c # cs) \<longleftrightarrow> p = c \<and> starts_with ps cs"

fun contains :: "string \<Rightarrow> string \<Rightarrow> bool" where
  "contains pat [] \<longleftrightarrow> pat = []"
| "contains pat (c # cs) \<longleftrightarrow> starts_with pat (c # cs) \<or> contains pat cs"

fun scan_char :: "char scanner" where
  "scan_char [] = Some None"
| "scan_char (c # cs) = Some (Some (c, cs))"

fun scan_comma :: "unit scanner" where
  "scan_comma [] = Some None"
| "scan_comma (c # cs) = (if c = CHR '','' then Some (Some ((), cs)) else Some None)"

definition tick_of :: "nat \<Rightarrow> nat \<Rightarrow> char \<Rightarrow> char \<Rightarrow> int \<Rightarrow> int \<Rightarrow> nat \<Rightarrow> tick" where
  "tick_of ts symb ev sd px qy ext =
     \<lparr>ts_ns = ts, symbol_id = symb,
      event = (if ev = CHR ''C'' then EvCancel else if ev = CHR ''T'' then EvTrade else EvAdd),
      tick_side = (if sd = CHR ''S'' then 1 else 0), tick_price = px, tick_qty = qy, ext_id = ext\<rparr>"

definition scan_tick :: "tick scanner" where
  "scan_tick =
     then_scan (scan_unsigned (2 ^ 64)) (\<lambda>ts. then_scan scan_comma (\<lambda>_.
     then_scan (scan_unsigned (2 ^ 32)) (\<lambda>symb. then_scan scan_comma (\<lambda>_.
     then_scan scan_char (\<lambda>ev. then_scan scan_comma (\<lambda>_.
     then_scan scan_char (\<lambda>sd. then_scan scan_comma (\<lambda>_.
     then_scan scan_signed (\<lambda>px. then_scan scan_comma (\<lambda>_.
     then_scan scan_signed (\<lambda>qy. then_scan scan_comma (\<lambda>_.
     then_scan (scan_unsigned (2 ^ 64)) (\<lambda>ext s. Some (Some (tick_of ts symb ev sd px qy ext, s))
     )))))))))))))"

text \<open>One line: empty lines and lines with fewer than seven fields are skipped.\<close>

definition load_line :: "string \<Rightarrow> tick list option" where
  "load_line line =
     (if line = [] then Some []
      else (case scan_tick (takeWhile (\<lambda>c. c \<noteq> CHR 0x00) line) of
              None \<Rightarrow> None | Some None \<Rightarrow> Some [] | Some (Some (t, r)) \<Rightarrow> Some [t]))"

fun load_lines :: "string list \<Rightarrow> tick list option" where
  "load_lines [] = Some []"
| "load_lines (l # ls) = do { ts \<leftarrow> load_line l; us \<leftarrow> load_lines ls; Some (ts @ us) }"

definition load_csv :: "string \<Rightarrow> string option \<Rightarrow> (string + tick list) option" where
  "load_csv path file =
     (case file of
        None \<Rightarrow> Some (Inl (''load_csv: cannot open '' @ path))
      | Some content \<Rightarrow> do {
          let ls = getlines content;
          ts \<leftarrow> load_lines (if ls \<noteq> [] \<and> contains ''ts_ns'' (hd ls) then tl ls else ls);
          Some (Inr ts) })"

section \<open>The binary format\<close>

text \<open>
  A dump of the structs: 40 bytes per tick, little-endian, with two bytes of padding (of any value)
  before the price.
\<close>

definition sizeof_Tick :: nat where "sizeof_Tick = 40"

fun le_bytes :: "nat \<Rightarrow> nat \<Rightarrow> string" where
  "le_bytes 0 n = []"
| "le_bytes (Suc k) n = char_of (n mod 256) # le_bytes k (n div 256)"

fun le_val :: "string \<Rightarrow> nat" where
  "le_val [] = 0"
| "le_val (c # cs) = byte c + 256 * le_val cs"

definition dump_tick :: "char \<times> char \<Rightarrow> tick \<Rightarrow> string" where
  "dump_tick pad t =
     le_bytes 8 (ts_ns t) @ le_bytes 4 (symbol_id t) @ le_bytes 1 (event t) @ le_bytes 1 (tick_side t) @
     [fst pad, snd pad] @ le_bytes 8 (u64 (tick_price t)) @ le_bytes 8 (u64 (tick_qty t)) @ le_bytes 8 (ext_id t)"

definition undump_tick :: "string \<Rightarrow> tick" where
  "undump_tick s =
     \<lparr>ts_ns = le_val (take 8 s), symbol_id = le_val (take 4 (drop 8 s)), event = le_val (take 1 (drop 12 s)),
      tick_side = le_val (take 1 (drop 13 s)), tick_price = s64 (int (le_val (take 8 (drop 16 s)))),
      tick_qty = s64 (int (le_val (take 8 (drop 24 s)))), ext_id = le_val (take 8 (drop 32 s))\<rparr>"

fun dump_ticks :: "(nat \<Rightarrow> char \<times> char) \<Rightarrow> tick list \<Rightarrow> string" where
  "dump_ticks pad [] = []"
| "dump_ticks pad (t # ts) = dump_tick (pad 0) t @ dump_ticks (\<lambda>i. pad (Suc i)) ts"

definition save_binary :: "(nat \<Rightarrow> char \<times> char) \<Rightarrow> string \<Rightarrow> bool \<Rightarrow> tick list \<Rightarrow> string + string" where
  "save_binary pad path can_open ticks =
     (if \<not> can_open then Inl (''save_binary: cannot open '' @ path) else Inr (dump_ticks pad ticks))"

fun undump_ticks :: "nat \<Rightarrow> string \<Rightarrow> tick list" where
  "undump_ticks 0 s = []"
| "undump_ticks (Suc n) s = undump_tick (take sizeof_Tick s) # undump_ticks n (drop sizeof_Tick s)"

definition load_binary :: "string \<Rightarrow> string option \<Rightarrow> string + tick list" where
  "load_binary path file =
     (case file of
        None \<Rightarrow> Inl (''load_binary: cannot open '' @ path)
      | Some content \<Rightarrow>
          if length content mod sizeof_Tick \<noteq> 0 then Inl ''load_binary: size not multiple of Tick''
          else Inr (undump_ticks (length content div sizeof_Tick) content))"

section \<open>Round trip of the binary format\<close>

text \<open>The ranges of the fields, as their types guarantee.\<close>

definition tick_typed :: "tick \<Rightarrow> bool" where
  "tick_typed t \<longleftrightarrow>
     int (ts_ns t) < 2 ^ 64 \<and> int (symbol_id t) < 2 ^ 32 \<and> event t < 256 \<and> tick_side t < 256 \<and>
     is_s64 (tick_price t) \<and> is_s64 (tick_qty t) \<and> int (ext_id t) < 2 ^ 64"

lemma le_bytes_length [simp]: "length (le_bytes k n) = k"
  by (induction k n rule: le_bytes.induct) simp_all

lemma le_val_bytes: "n < 256 ^ k \<Longrightarrow> le_val (le_bytes k n) = n"
proof (induction k n rule: le_bytes.induct)
  case (2 k n)
  then have "n div 256 < 256 ^ k"
    by (simp add: less_mult_imp_div_less mult.commute)
  then show ?case
    using 2 by (simp add: byte_def)
qed simp

lemma s64_u64: "is_s64 x \<Longrightarrow> s64 (int (u64 x)) = x"
  by (simp add: s64_def u64_def is_s64_def int64_min_def int64_max_def mod_simps)

lemma undump_dump:
  assumes "tick_typed t"
  shows "undump_tick (dump_tick pad t) = t"
proof -
  have v: "le_val (le_bytes 8 (ts_ns t)) = ts_ns t" "le_val (le_bytes 4 (symbol_id t)) = symbol_id t"
    "le_val (le_bytes 1 (event t)) = event t" "le_val (le_bytes 1 (tick_side t)) = tick_side t"
    "le_val (le_bytes 8 (ext_id t)) = ext_id t" "le_val (le_bytes 8 (u64 x)) = u64 x" for x
    using assms u64_less [of x] by (simp_all add: tick_typed_def le_val_bytes byte_def)
  show ?thesis
    using assms unfolding undump_tick_def dump_tick_def by (simp add: v s64_u64 tick_typed_def byte_def)
qed

lemma dump_tick_length [simp]: "length (dump_tick pad t) = sizeof_Tick"
  by (simp add: dump_tick_def sizeof_Tick_def)

lemma dump_ticks_length: "length (dump_ticks pad ts) = sizeof_Tick * length ts"
  by (induction ts arbitrary: pad) simp_all

lemma undump_ticks_dump:
  "\<forall>t \<in> set ts. tick_typed t \<Longrightarrow> undump_ticks (length ts) (dump_ticks pad ts) = ts"
  by (induction ts arbitrary: pad) (simp_all add: undump_dump)

section \<open>Round trip of the CSV format\<close>

definition norm_tick :: "tick \<Rightarrow> tick" where
  "norm_tick t = t\<lparr>event := (if event t = EvCancel \<or> event t = EvTrade then event t else EvAdd),
     tick_side := (if tick_side t = 1 then 1 else 0)\<rparr>"

definition csv_body :: "tick \<Rightarrow> string" where
  "csv_body t = butlast (csv_line t)"

lemma csv_line_body: "csv_line t = csv_body t @ [nl]"
  by (simp add: csv_body_def csv_line_def Let_def butlast_append)

lemma number_stops_comma [simp]: "number_stops (CHR '','' # r)" "number_stops []"
  by (simp_all add: number_stops_def is_digit_def byte_def)

lemma scan_tick_line:
  assumes "tick_typed t"
  shows "scan_tick (csv_body t) = Some (Some (norm_tick t, []))"
proof -
  have r: "int (ts_ns t) < 2 ^ 64" "int (symbol_id t) < 2 ^ 32" "is_s64 (tick_price t)" "is_s64 (tick_qty t)"
    "int (ext_id t) < 2 ^ 64"
    using assms by (auto simp: tick_typed_def)
  have last: "scan_unsigned (2 ^ 64) (dec (ext_id t)) = Some (Some (ext_id t, []))"
    using scan_fields(1) [of "[]" "ext_id t" "2 ^ 64"] r(5) by simp
  note f = scan_fields(1) [OF number_stops_comma(1) r(1)] scan_fields(1) [OF number_stops_comma(1) r(2)]
    scan_fields(2) [OF number_stops_comma(1) r(3)] scan_fields(2) [OF number_stops_comma(1) r(4)] last
  let ?ev = "if event t = EvCancel then CHR ''C'' else if event t = EvTrade then CHR ''T'' else CHR ''A''"
  let ?sd = "if tick_side t = 1 then CHR ''S'' else CHR ''B''"
  have body: "csv_body t = dec (ts_ns t) @ CHR '','' # dec (symbol_id t) @ CHR '','' # ?ev # CHR '','' # ?sd #
      CHR '','' # to_chars (tick_price t) @ CHR '','' # to_chars (tick_qty t) @ CHR '','' # dec (ext_id t)"
    by (simp add: csv_body_def csv_line_def Let_def butlast_append)
  have "tick_of (ts_ns t) (symbol_id t) ?ev ?sd (tick_price t) (tick_qty t) (ext_id t) = norm_tick t"
    by (simp add: tick_of_def norm_tick_def)
  then show ?thesis
    unfolding body scan_tick_def then_scan_def by (simp only: f scan_comma.simps scan_char.simps option.case prod.case if_True refl)
qed

lemma csv_body_plain: "nl \<notin> set (csv_body t)" "CHR 0x00 \<notin> set (csv_body t)" "csv_body t \<noteq> []"
proof -
  have d: "nl \<notin> set (dec n)" "CHR 0x00 \<notin> set (dec n)" for n
    using dec_props [of n] digit_plain by blast+
  have i: "nl \<notin> set (to_chars v)" "CHR 0x00 \<notin> set (to_chars v)" for v
    using d by (auto simp: to_chars_def nl_def)
  show "nl \<notin> set (csv_body t)" "CHR 0x00 \<notin> set (csv_body t)" "csv_body t \<noteq> []"
    using d i by (auto simp: csv_body_def csv_line_def Let_def butlast_append nl_def)
qed

lemma load_line_csv: "tick_typed t \<Longrightarrow> load_line (csv_body t) = Some [norm_tick t]"
proof -
  assume t: "tick_typed t"
  have "takeWhile (\<lambda>c. c \<noteq> CHR 0x00) (csv_body t) = csv_body t"
    using csv_body_plain(2) [of t] by (auto simp: takeWhile_eq_all_conv)
  then show ?thesis
    unfolding load_line_def using csv_body_plain(3) [of t] by (simp only: scan_tick_line [OF t]) simp
qed

lemma getlines_line:
  assumes "nl \<notin> set l"
  shows "getlines (l @ nl # r) = l # getlines r"
proof -
  have "takeWhile (\<lambda>c. c \<noteq> nl) (l @ nl # r) = l"
    using assms by (induction l) auto
  then show ?thesis
    by (subst getlines.simps) (simp add: Let_def getlines.simps [of "[]"])
qed

lemma getlines_csv: "getlines (concat (map csv_line ts)) = map csv_body ts"
proof (induction ts)
  case Nil
  then show ?case by (subst getlines.simps) simp
next
  case (Cons t ts)
  then show ?case
    using getlines_line [OF csv_body_plain(1)] by (simp add: csv_line_body)
qed

lemma load_lines_csv:
  "\<forall>t \<in> set ts. tick_typed t \<Longrightarrow> load_lines (map csv_body ts) = Some (map norm_tick ts)"
  by (induction ts) (simp_all add: load_line_csv)

section \<open>Properties\<close>

text \<open>
  C33.  Both file formats give back what was written.  The binary file of any ticks loads as exactly
  these ticks, whatever the padding bytes; the CSV file loads as the same ticks, with an unknown event
  or side replaced by the default that its letter stands for.
\<close>

theorem tick_files_round_trip:
  assumes "\<forall>t \<in> set ticks. tick_typed t"
  shows "(\<exists>content. save_binary pad path True ticks = Inr content \<and> load_binary path (Some content) = Inr ticks) \<and>
    (\<exists>content. save_csv path True ticks = Inr content \<and>
       load_csv path (Some content) = Some (Inr (map norm_tick ticks)))"
proof
  have "0 < sizeof_Tick"
    by (simp add: sizeof_Tick_def)
  then show "\<exists>content. save_binary pad path True ticks = Inr content \<and> load_binary path (Some content) = Inr ticks"
    using undump_ticks_dump [OF assms] by (simp add: save_binary_def load_binary_def dump_ticks_length)
  let ?h = "''ts_ns,symbol,event,side,price,qty,ext_id''"
  have "nl \<notin> set ?h" "contains ''ts_ns'' ?h"
    by (simp_all add: nl_def)
  then show "\<exists>content. save_csv path True ticks = Inr content \<and>
      load_csv path (Some content) = Some (Inr (map norm_tick ticks))"
    using getlines_line [of ?h "concat (map csv_line ticks)"] load_lines_csv [OF assms]
    by (simp add: save_csv_def load_csv_def csv_header_def getlines_csv)
qed

theorem tick_files_round_trip_witness:
  "\<exists>content. save_csv ''t'' True [sell_at 99 (-4)] = Inr content \<and>
     load_csv ''t'' (Some content) = Some (Inr [sell_at 99 (-4)])"
proof -
  have "\<forall>t \<in> set [sell_at 99 (-4)]. tick_typed t" "map norm_tick [sell_at 99 (-4)] = [sell_at 99 (-4)]"
    by code_simp+
  then show ?thesis
    using tick_files_round_trip [of "[sell_at 99 (-4)]" _ "''t''"] by metis
qed

end
