(* ===== verification/Feed.thy ===== *)
theory Feed
  imports C_Text
begin

text \<open>
  The UDP market data feed of \<open>src/mvp/src/md/feed.h\<close> and \<open>feed.cpp\<close>.  The results of the system
  calls are arguments; the datagrams that the kernel accepted are part of the state.
\<close>

record feed_config =
  dest_host :: string
  dest_port :: nat
  multicast :: bool
  ttl :: int

definition feed_config_default :: feed_config where
  "feed_config_default = \<lparr>dest_host = ''127.0.0.1'', dest_port = 9879, multicast = False, ttl = 1\<rparr>"

record feed =
  feed_cfg :: feed_config
  feed_fd :: int
  feed_dest :: "(string \<times> nat) option"
  feed_ttl :: "int option"
  feed_seq :: nat
  feed_published :: nat
  datagrams :: "string list"

definition feed_init :: "feed_config \<Rightarrow> feed" where
  "feed_init c = \<lparr>feed_cfg = c, feed_fd = - 1, feed_dest = None, feed_ttl = None, feed_seq = 0,
     feed_published = 0, datagrams = []\<rparr>"

text \<open>\<open>sock\<close> is the result of \<open>socket\<close> and \<open>pton\<close> whether \<open>inet_pton\<close> accepts the address.\<close>

definition feed_open :: "int \<Rightarrow> bool \<Rightarrow> feed \<Rightarrow> bool \<times> feed" where
  "feed_open sock pton f =
     (let f0 = f\<lparr>feed_fd := sock\<rparr>
      in if sock < 0 then (False, f0)
         else if \<not> pton then (False, f0\<lparr>feed_fd := - 1\<rparr>)
         else let f1 = f0\<lparr>feed_dest := Some (dest_host (feed_cfg f), dest_port (feed_cfg f))\<rparr>
              in (True, if multicast (feed_cfg f) then f1\<lparr>feed_ttl := Some (ttl (feed_cfg f) mod 256)\<rparr> else f1))"

definition feed_close :: "feed \<Rightarrow> feed" where
  "feed_close f = (if feed_fd f \<ge> 0 then f\<lparr>feed_fd := - 1\<rparr> else f)"

text \<open>The symbol is cut to 31 bytes and, as a C string, at its first NUL.\<close>

definition l1_line :: "nat \<Rightarrow> string \<Rightarrow> double \<Rightarrow> double \<Rightarrow> double \<Rightarrow> double \<Rightarrow> string" where
  "l1_line seq symb bid_px bid_sz ask_px ask_sz =
     ''L1|'' @ dec seq @ ''|'' @ takeWhile (\<lambda>c. c \<noteq> CHR 0x00) (take 31 symb) @ ''|'' @ print_f 2 bid_px @ ''|'' @
     print_f 0 bid_sz @ ''|'' @ print_f 2 ask_px @ ''|'' @ print_f 0 ask_sz @ [nl]"

text \<open>
  \<open>sendto n k\<close> is the result of the \<open>sendto\<close> of sequence number \<open>n\<close> with \<open>k\<close> bytes.  The line is
  printed into 256 bytes; a longer one is read out of bounds (\<^term>\<open>None\<close>).
\<close>

definition publish_l1 ::
  "(nat \<Rightarrow> nat \<Rightarrow> int) \<Rightarrow> string \<Rightarrow> double \<Rightarrow> double \<Rightarrow> double \<Rightarrow> double \<Rightarrow> feed \<Rightarrow> (int \<times> feed) option" where
  "publish_l1 sendto symb bid_px bid_sz ask_px ask_sz f =
     (if feed_fd f < 0 then Some (- 1, f)
      else let f1 = f\<lparr>feed_seq := inc64 (feed_seq f)\<rparr>;
               t = l1_line (feed_seq f1) symb bid_px bid_sz ask_px ask_sz;
               len = length t
           in if len > 256 then None
              else let sent = sendto (feed_seq f1) len
                   in Some (sent,
                        if sent > 0
                        then f1\<lparr>feed_published := inc64 (feed_published f1),
                                datagrams := datagrams f1 @ [take len (take 255 t @ [CHR 0x00])]\<rparr>
                        else f1))"

end
