(* ===== verification/Gateway.thy ===== *)
theory Gateway
  imports Engine Fix_Properties Feed
begin

text \<open>
  The FIX gateway of \<open>src/mvp/src/fix/gateway.h\<close> and \<open>gateway.cpp\<close>: the sessions, the handlers of
  the message types, the outbound messages and the receive loop.  System calls are arguments: the
  results of \<open>send\<close> and \<open>sendto\<close> as functions of the number of the call and the number of bytes
  offered, the results of \<open>recv\<close> as a list of chunks.  The bytes that \<open>send\<close> accepted are kept in the
  session.  \<^term>\<open>None\<close> is undefined behaviour: a conversion of a double that does not fit, a signed
  overflow, a read out of bounds.
\<close>

section \<open>State\<close>

record gateway_config =
  bind_host :: string
  bind_port :: nat
  comp_id :: string

definition gateway_config_default :: gateway_config where
  "gateway_config_default = \<lparr>bind_host = ''127.0.0.1'', bind_port = 9878, comp_id = ''ENGINE''\<rparr>"

record session =
  s_fd :: int
  sender_comp :: string
  out_seq :: nat
  in_seq :: nat
  logged_on :: bool
  s_builder :: builder
  rx_buf :: string
  s_running :: bool
  wire :: string
  send_calls :: nat

definition session_init :: "int \<Rightarrow> session" where
  "session_init fd = \<lparr>s_fd = fd, sender_comp = [], out_seq = 1, in_seq = 0, logged_on = False,
     s_builder = builder_init, rx_buf = [], s_running = True, wire = [], send_calls = 0\<rparr>"

record gateway =
  g_cfg :: gateway_config
  g_engine :: engine
  g_feed :: "feed option"
  listen_fd :: int
  bound_port :: nat
  g_running :: bool
  accepted :: nat
  orders :: nat
  execs :: nat
  next_exec_id :: nat

definition gateway_init :: "gateway_config \<Rightarrow> engine \<Rightarrow> feed option \<Rightarrow> gateway" where
  "gateway_init c e f = \<lparr>g_cfg = c, g_engine = e, g_feed = f, listen_fd = - 1, bound_port = 0,
     g_running = False, accepted = 0, orders = 0, execs = 0, next_exec_id = 1\<rparr>"

text \<open>The network: the results of \<open>send\<close> on a session's socket and of \<open>sendto\<close> on the feed's.\<close>

record net =
  send_rc :: "nat \<Rightarrow> nat \<Rightarrow> int"
  sendto_rc :: "nat \<Rightarrow> nat \<Rightarrow> int"

text \<open>The sequence numbers of a session are \<open>uint32_t\<close>.\<close>

definition inc32 :: "nat \<Rightarrow> nat" where
  "inc32 n = nat ((int n + 1) mod 2 ^ 32)"

definition EX_NEW :: char where "EX_NEW = CHR ''0''"
definition EX_PARTIAL_FILL :: char where "EX_PARTIAL_FILL = CHR ''1''"
definition EX_FILL :: char where "EX_FILL = CHR ''2''"
definition EX_CANCELED :: char where "EX_CANCELED = CHR ''4''"
definition EX_REJECTED :: char where "EX_REJECTED = CHR ''8''"
definition OS_NEW :: char where "OS_NEW = CHR ''0''"
definition OS_PARTIAL_FILL :: char where "OS_PARTIAL_FILL = CHR ''1''"
definition OS_FILLED :: char where "OS_FILLED = CHR ''2''"
definition OS_CANCELED :: char where "OS_CANCELED = CHR ''4''"
definition OS_REJECTED :: char where "OS_REJECTED = CHR ''8''"

section \<open>Outbound messages\<close>

text \<open>A \<open>send\<close> that claims more bytes than it was offered is undefined.\<close>

function send_raw :: "net \<Rightarrow> string \<Rightarrow> session \<Rightarrow> session option" where
  "send_raw net bytes s =
     (if bytes = [] then Some s
      else let n = send_rc net (send_calls s) (length bytes);
               s1 = s\<lparr>send_calls := Suc (send_calls s)\<rparr>
           in if n \<le> 0 then Some (s1\<lparr>s_running := False\<rparr>)
              else if n > int (length bytes) then None
              else send_raw net (drop (nat n) bytes) (s1\<lparr>wire := wire s1 @ take (nat n) bytes\<rparr>))"
  by pat_completeness auto
termination
  by (relation "measure (\<lambda>(net, bytes, s). length bytes)") auto

declare send_raw.simps [simp del]

text \<open>\<open>begin\<close> with the next sequence number of the session.\<close>

definition begin_out :: "char \<Rightarrow> session \<Rightarrow> gateway \<Rightarrow> session" where
  "begin_out ty s g =
     s\<lparr>s_builder := begin_msg ty (comp_id (g_cfg g)) (sender_comp s) (int (out_seq s)) (s_builder s),
       out_seq := inc32 (out_seq s)\<rparr>"

definition finish_out :: "net \<Rightarrow> builder \<Rightarrow> session \<Rightarrow> session option" where
  "finish_out net b s = (let b' = finalize b in send_raw net (bbuf b') (s\<lparr>s_builder := b'\<rparr>))"

definition send_logon_ack :: "net \<Rightarrow> session \<Rightarrow> gateway \<Rightarrow> session option" where
  "send_logon_ack net s g =
     (let s1 = begin_out (CHR ''A'') s g
      in finish_out net (add_int HeartBtInt 30 (add_int EncryptMethod 0 (s_builder s1))) s1)"

definition send_logout :: "net \<Rightarrow> string \<Rightarrow> session \<Rightarrow> gateway \<Rightarrow> session option" where
  "send_logout net txt s g =
     (let s1 = begin_out (CHR ''5'') s g
      in finish_out net (if txt \<noteq> [] then add_str Text txt (s_builder s1) else s_builder s1) s1)"

record exec_report =
  x_cl_ord_id :: string
  x_order_id :: nat
  x_exec_type :: char
  x_ord_status :: char
  x_side :: char
  x_symbol :: string
  x_order_qty :: double
  x_cum_qty :: double
  x_leaves_qty :: double
  x_last_qty :: double
  x_last_px :: double
  x_avg_px :: double

definition send_exec_report ::
  "net \<Rightarrow> exec_report \<Rightarrow> session \<Rightarrow> gateway \<Rightarrow> (session \<times> gateway) option" where
  "send_exec_report net x s g = do {
     let eid = next_exec_id g;
     let g1 = g\<lparr>next_exec_id := inc64 eid\<rparr>;
     let s1 = begin_out (CHR ''8'') s g1;
     let b1 = add_str OrderID (dec (x_order_id x)) (s_builder s1);
     let b2 = add_str ClOrdID (x_cl_ord_id x) b1;
     let b3 = add_str ExecID (''E'' @ dec eid) b2;
     let b4 = add_char ExecType (x_exec_type x) b3;
     let b5 = add_char OrdStatus (x_ord_status x) b4;
     let b6 = add_str Symbol (x_symbol x) b5;
     let b7 = add_char SideTag (x_side x) b6;
     b8 \<leftarrow> add_double OrderQty (x_order_qty x) 0 b7;
     b9 \<leftarrow> add_double CumQty (x_cum_qty x) 0 b8;
     b10 \<leftarrow> add_double LeavesQty (x_leaves_qty x) 0 b9;
     b11 \<leftarrow> add_double LastQty (x_last_qty x) 0 b10;
     b12 \<leftarrow> add_double LastPx (x_last_px x) 2 b11;
     b13 \<leftarrow> add_double AvgPx (x_avg_px x) 4 b12;
     s2 \<leftarrow> finish_out net b13 s1;
     Some (s2, g1\<lparr>execs := inc64 (execs g1)\<rparr>) }"

definition send_md_snapshot ::
  "net \<Rightarrow> string \<Rightarrow> string \<Rightarrow> double \<Rightarrow> double \<Rightarrow> double \<Rightarrow> double \<Rightarrow> session \<Rightarrow> gateway \<Rightarrow> session option" where
  "send_md_snapshot net md_req_id symb bid_px bid_sz ask_px ask_sz s g = do {
     let s1 = begin_out (CHR ''W'') s g;
     let b1 = (if md_req_id \<noteq> [] then add_str MDReqID md_req_id (s_builder s1) else s_builder s1);
     let b2 = add_str Symbol symb b1;
     let b3 = add_int NoMDEntries 2 b2;
     let b4 = add_char MDEntryType (CHR ''0'') b3;
     b5 \<leftarrow> add_double MDEntryPx bid_px 2 b4;
     b6 \<leftarrow> add_double MDEntrySize bid_sz 0 b5;
     let b7 = add_char MDEntryType (CHR ''1'') b6;
     b8 \<leftarrow> add_double MDEntryPx ask_px 2 b7;
     b9 \<leftarrow> add_double MDEntrySize ask_sz 0 b8;
     finish_out net b9 s1 }"

section \<open>Orders\<close>

definition dzero :: double where "dzero = Fin False 0"

text \<open>Prices are in ticks of one hundredth: \<open>price * 100.0 + 0.5\<close>, truncated, and \<open>ticks / 100.0\<close>.\<close>

definition to_ticks :: "double \<Rightarrow> int option" where
  "to_ticks p = to_int64 (fadd (fmul p (Fin False 100)) (Fin False (1 / 2)))"

definition from_ticks :: "int \<Rightarrow> double" where
  "from_ticks k = fdiv (double_of k) (Fin False 100)"

text \<open>The top of the book as read under the engine's mutex; 0 and \<open>INT64_MAX\<close> stand for an empty side.\<close>

record top =
  top_bid_px :: price
  top_bid_sz :: quantity
  top_ask_px :: price
  top_ask_sz :: quantity

definition read_top :: "engine \<Rightarrow> top option" where
  "read_top e = do {
     let bid = best_bid (book e);
     let ask = best_ask (book e);
     bs \<leftarrow> (if bid > 0 then qty_at Buy bid (book e) else Some 0);
     as \<leftarrow> (if ask < int64_max then qty_at Sell ask (book e) else Some 0);
     Some \<lparr>top_bid_px = bid, top_bid_sz = bs, top_ask_px = ask, top_ask_sz = as\<rparr> }"

definition ask_double :: "price \<Rightarrow> double" where
  "ask_double px = (if px < int64_max then from_ticks px else dzero)"

text \<open>The reports of a placement: one per trade, and one for what is left, or a single one without trades.\<close>

fun sum_trades :: "quantity \<Rightarrow> trade list \<Rightarrow> quantity option" where
  "sum_trades filled [] = Some filled"
| "sum_trades filled (t # ts) = do { f \<leftarrow> chk64 (filled + trade_qty t); sum_trades f ts }"

fun fill_reports :: "exec_report \<Rightarrow> quantity \<Rightarrow> quantity \<Rightarrow> double \<Rightarrow> trade list \<Rightarrow> exec_report list option" where
  "fill_reports base q cum notional [] = Some []"
| "fill_reports base q cum notional (t # ts) = do {
     cum' \<leftarrow> chk64 (cum + trade_qty t);
     let px = from_ticks (trade_price t);
     let notional' = fadd notional (fmul px (double_of (trade_qty t)));
     let avg = fdiv notional' (double_of cum');
     lv \<leftarrow> chk64 (q - cum');
     let final_fill = (ts = [] \<and> lv = 0);
     xs \<leftarrow> fill_reports base q cum' notional' ts;
     Some (base\<lparr>x_exec_type := (if final_fill then EX_FILL else EX_PARTIAL_FILL),
                x_ord_status := (if final_fill then OS_FILLED else OS_PARTIAL_FILL),
                x_cum_qty := double_of cum', x_leaves_qty := double_of lv,
                x_last_qty := double_of (trade_qty t), x_last_px := px, x_avg_px := avg\<rparr> # xs) }"

definition base_report :: "string \<Rightarrow> nat \<Rightarrow> char \<Rightarrow> string \<Rightarrow> double \<Rightarrow> exec_report" where
  "base_report cl_ord_id order_id side_c symb order_qty =
     \<lparr>x_cl_ord_id = cl_ord_id, x_order_id = order_id, x_exec_type = EX_REJECTED, x_ord_status = OS_REJECTED,
      x_side = side_c, x_symbol = symb, x_order_qty = order_qty, x_cum_qty = dzero, x_leaves_qty = dzero,
      x_last_qty = dzero, x_last_px = dzero, x_avg_px = dzero\<rparr>"

definition order_reports :: "exec_report \<Rightarrow> quantity \<Rightarrow> trade list \<Rightarrow> exec_report list option" where
  "order_reports base q trades = do {
     filled \<leftarrow> sum_trades 0 trades;
     leaves \<leftarrow> chk64 (q - filled);
     if trades = [] then
       Some [base\<lparr>x_exec_type := EX_NEW, x_ord_status := OS_NEW, x_leaves_qty := double_of leaves\<rparr>]
     else do {
       xs \<leftarrow> fill_reports base q 0 dzero trades;
       Some (xs @ (if leaves > 0
                   then [base\<lparr>x_exec_type := EX_NEW, x_ord_status := OS_PARTIAL_FILL,
                              x_cum_qty := double_of filled, x_leaves_qty := double_of leaves\<rparr>]
                   else [])) } }"

section \<open>Handlers\<close>

text \<open>
  A handler works in two phases.  The first one runs under the engine's mutex and fixes the messages
  to be sent; the second one, outside the mutex, sends them in order.
\<close>

datatype out_msg = Report exec_report | Snapshot string string top | Publish string top

definition side_char :: "message \<Rightarrow> char" where
  "side_char m = (if msg_get SideTag m \<noteq> [] then hd (msg_get SideTag m) else CHR ''1'')"

definition new_order_plan :: "message \<Rightarrow> gateway \<Rightarrow> (out_msg list \<times> gateway) option" where
  "new_order_plan m g =
     (let g0 = g\<lparr>orders := inc64 (orders g)\<rparr>;
          cl_ord_id = msg_get ClOrdID m;
          symb = msg_get Symbol m;
          side_c = side_char m;
          order_qty = msg_get_double OrderQty dzero m;
          price = msg_get_double PriceTag dzero m
      in if le_zero order_qty \<or> le_zero price \<or> (side_c \<noteq> CHR ''1'' \<and> side_c \<noteq> CHR ''2'')
         then Some ([Report (base_report cl_ord_id 0 side_c symb order_qty)], g0)
         else do {
           let sd = (if side_c = CHR ''1'' then Buy else Sell);
           px_ticks \<leftarrow> to_ticks price;
           q \<leftarrow> to_int64 order_qty;
           (order_id, e) \<leftarrow> engine_place_limit sd px_ticks q (g_engine g0);
           tp \<leftarrow> read_top e;
           xs \<leftarrow> order_reports (base_report cl_ord_id order_id side_c symb (double_of q)) q (last_trades e);
           Some (map Report xs @ (if g_feed g0 \<noteq> None then [Publish symb tp] else []),
                 g0\<lparr>g_engine := e\<rparr>) })"

definition cancel_plan :: "message \<Rightarrow> gateway \<Rightarrow> (out_msg list \<times> gateway) option" where
  "cancel_plan m g = do {
     let cl_ord_id = msg_get ClOrdID m;
     let oid = u64 (msg_get_int OrderID 0 m);
     let symb = msg_get Symbol m;
     (ok, e) \<leftarrow> engine_cancel oid (g_engine g);
     let x = (base_report cl_ord_id oid (side_char m) symb dzero)
       \<lparr>x_exec_type := (if ok then EX_CANCELED else EX_REJECTED),
        x_ord_status := (if ok then OS_CANCELED else OS_REJECTED)\<rparr>;
     Some ([Report x], g\<lparr>g_engine := e\<rparr>) }"

definition md_plan :: "message \<Rightarrow> gateway \<Rightarrow> (out_msg list \<times> gateway) option" where
  "md_plan m g = do {
     tp \<leftarrow> read_top (g_engine g);
     Some ([Snapshot (msg_get MDReqID m) (msg_get Symbol m) tp], g) }"

fun perform :: "net \<Rightarrow> out_msg \<Rightarrow> session \<Rightarrow> gateway \<Rightarrow> (session \<times> gateway) option" where
  "perform net (Report x) s g = send_exec_report net x s g"
| "perform net (Snapshot req symb tp) s g = do {
     s' \<leftarrow> send_md_snapshot net req symb (from_ticks (top_bid_px tp)) (double_of (top_bid_sz tp))
            (ask_double (top_ask_px tp)) (double_of (top_ask_sz tp)) s g;
     Some (s', g) }"
| "perform net (Publish symb tp) s g =
     (case g_feed g of
        None \<Rightarrow> Some (s, g)
      | Some f \<Rightarrow> do {
          (sent, f') \<leftarrow> publish_l1 (sendto_rc net) symb (from_ticks (top_bid_px tp)) (double_of (top_bid_sz tp))
                          (ask_double (top_ask_px tp)) (double_of (top_ask_sz tp)) f;
          Some (s, g\<lparr>g_feed := Some f'\<rparr>) })"

fun perform_all :: "net \<Rightarrow> out_msg list \<Rightarrow> session \<Rightarrow> gateway \<Rightarrow> (session \<times> gateway) option" where
  "perform_all net [] s g = Some (s, g)"
| "perform_all net (x # xs) s g = do { (s', g') \<leftarrow> perform net x s g; perform_all net xs s' g' }"

definition on_logon :: "net \<Rightarrow> message \<Rightarrow> session \<Rightarrow> gateway \<Rightarrow> (session \<times> gateway) option" where
  "on_logon net m s g = do {
     let s1 = s\<lparr>sender_comp := msg_get SenderCompID m, logged_on := True\<rparr>;
     s2 \<leftarrow> send_logon_ack net s1 g;
     Some (s2, g) }"

definition on_logout :: "net \<Rightarrow> message \<Rightarrow> session \<Rightarrow> gateway \<Rightarrow> (session \<times> gateway) option" where
  "on_logout net m s g = do { s1 \<leftarrow> send_logout net ''bye'' s g; Some (s1\<lparr>s_running := False\<rparr>, g) }"

definition on_heartbeat :: "net \<Rightarrow> message \<Rightarrow> session \<Rightarrow> gateway \<Rightarrow> (session \<times> gateway) option" where
  "on_heartbeat net m s g = Some (s, g)"

definition on_new_order :: "net \<Rightarrow> message \<Rightarrow> session \<Rightarrow> gateway \<Rightarrow> (session \<times> gateway) option" where
  "on_new_order net m s g = do { (xs, g1) \<leftarrow> new_order_plan m g; perform_all net xs s g1 }"

definition on_cancel :: "net \<Rightarrow> message \<Rightarrow> session \<Rightarrow> gateway \<Rightarrow> (session \<times> gateway) option" where
  "on_cancel net m s g = do { (xs, g1) \<leftarrow> cancel_plan m g; perform_all net xs s g1 }"

definition on_md_request :: "net \<Rightarrow> message \<Rightarrow> session \<Rightarrow> gateway \<Rightarrow> (session \<times> gateway) option" where
  "on_md_request net m s g = do { (xs, g1) \<leftarrow> md_plan m g; perform_all net xs s g1 }"

definition handle_message :: "net \<Rightarrow> message \<Rightarrow> session \<Rightarrow> gateway \<Rightarrow> (session \<times> gateway) option" where
  "handle_message net m s g =
     (let mt = msg_type m
      in if \<not> logged_on s \<and> mt \<noteq> CHR ''A'' then do {
           s1 \<leftarrow> send_logout net ''not logged on'' s g;
           Some (s1\<lparr>s_running := False\<rparr>, g) }
         else if mt = CHR ''A'' then on_logon net m s g
         else if mt = CHR ''5'' then on_logout net m s g
         else if mt = CHR ''0'' then on_heartbeat net m s g
         else if mt = CHR ''D'' then on_new_order net m s g
         else if mt = CHR ''F'' then on_cancel net m s g
         else if mt = CHR ''V'' then on_md_request net m s g
         else Some (s, g))"

section \<open>The receive loop\<close>

text \<open>The inner loop of \<open>session_loop\<close> on the receive buffer \<open>rx\<close>.\<close>

function drain_frames :: "net \<Rightarrow> string \<Rightarrow> session \<Rightarrow> gateway \<Rightarrow> (session \<times> gateway) option" where
  "drain_frames net rx s g =
     (case split_frame rx of
        Incomplete \<Rightarrow> Some (s\<lparr>rx_buf := rx\<rparr>, g)
      | Malformed \<Rightarrow> do {
          s1 \<leftarrow> send_logout net ''malformed FIX frame'' s g;
          Some (s1\<lparr>s_running := False, rx_buf := rx\<rparr>, g) }
      | FrameOk f n \<Rightarrow>
          (case parse_frame f of (ok, m) \<Rightarrow>
             if \<not> ok then do {
               s1 \<leftarrow> send_logout net ''parse failed'' s g;
               Some (s1\<lparr>s_running := False, rx_buf := rx\<rparr>, g) }
             else
               (case handle_message net m (s\<lparr>in_seq := inc32 (in_seq s)\<rparr>) g of
                  None \<Rightarrow> None
                | Some (s1, g1) \<Rightarrow> drain_frames net (drop n rx) s1 g1)))"
  by pat_completeness auto
termination
proof (relation "measure (\<lambda>(net, rx, s, g). length rx)")
  show "((net, drop n rx, s1, g1), net, rx, s, g) \<in> measure (\<lambda>(net, rx, s, g). length rx)"
    if "split_frame rx = FrameOk f n" for net n rx s1 g1 s g f
    using split_frame_ok(1,2) [OF that] by auto
qed simp

declare drain_frames.simps [simp del]

definition close_session :: "session \<Rightarrow> session" where
  "close_session s = (if s_fd s \<ge> 0 then s\<lparr>s_fd := - 1\<rparr> else s)"

text \<open>
  The results of the successive \<open>recv\<close> calls; an empty chunk, and the end of the list, stand for a
  result that is not positive.
\<close>

fun session_loop :: "net \<Rightarrow> string list \<Rightarrow> session \<Rightarrow> gateway \<Rightarrow> (session \<times> gateway) option" where
  "session_loop net [] s g = Some (close_session s, g)"
| "session_loop net (c # cs) s g =
     (if \<not> (s_running s \<and> g_running g) \<or> c = [] then Some (close_session s, g)
      else do { (s', g') \<leftarrow> drain_frames net (rx_buf s @ c) s g; session_loop net cs s' g' })"

section \<open>Acceptor and shutdown\<close>

text \<open>
  The results of the system calls of \<open>start\<close>: the socket, whether the address parses, \<open>bind\<close>,
  \<open>listen\<close>, and the port that \<open>getsockname\<close> gives.
\<close>

record listen_env =
  le_socket :: int
  le_pton :: bool
  le_bind :: int
  le_listen :: int
  le_port :: nat

record server =
  gw :: gateway
  sessions :: "session list"
  acceptor_joinable :: bool

definition gateway_start :: "listen_env \<Rightarrow> server \<Rightarrow> bool \<times> server" where
  "gateway_start env v =
     (let g0 = (gw v)\<lparr>listen_fd := le_socket env\<rparr>; failed = (False, v\<lparr>gw := g0\<lparr>listen_fd := - 1\<rparr>\<rparr>)
      in if le_socket env < 0 then (False, v\<lparr>gw := g0\<rparr>)
         else if \<not> le_pton env then failed
         else if le_bind env < 0 then failed
         else if le_listen env < 0 then failed
         else (True, v\<lparr>gw := g0\<lparr>bound_port := le_port env, g_running := True\<rparr>, acceptor_joinable := True\<rparr>))"

text \<open>The results of \<open>accept\<close>: a descriptor, an interrupted call, or another error.\<close>

datatype accept_result = Accepted int | Interrupted | AcceptError

fun acceptor_loop :: "accept_result list \<Rightarrow> server \<Rightarrow> server" where
  "acceptor_loop [] v = v"
| "acceptor_loop (r # rs) v =
     (if \<not> g_running (gw v) then v
      else (case r of
              Accepted fd \<Rightarrow> acceptor_loop rs
                (v\<lparr>gw := (gw v)\<lparr>accepted := inc64 (accepted (gw v))\<rparr>, sessions := sessions v @ [session_init fd]\<rparr>)
            | Interrupted \<Rightarrow> acceptor_loop rs v
            | AcceptError \<Rightarrow> v))"

definition stop_session :: "session \<Rightarrow> session" where
  "stop_session s = (let s1 = s\<lparr>s_running := False\<rparr> in if s_fd s1 \<ge> 0 then s1\<lparr>s_fd := - 1\<rparr> else s1)"

text \<open>The stopped sessions are returned: they leave the gateway's vector.\<close>

definition gateway_stop :: "server \<Rightarrow> session list \<times> server" where
  "gateway_stop v =
     (if \<not> g_running (gw v) then ([], v)
      else (map stop_session (sessions v),
            v\<lparr>gw := (gw v)\<lparr>g_running := False,
                        listen_fd := (if listen_fd (gw v) \<ge> 0 then - 1 else listen_fd (gw v))\<rparr>, sessions := [], acceptor_joinable := False\<rparr>))"

end
