(* ===== verification/Gateway_Wire.thy ===== *)
theory Gateway_Wire
  imports Gateway
begin

text \<open>
  What the gateway puts on the wire.  Every outbound message is one frame of the codec, with the
  session's next sequence number; the theory gives each sending function as the frame it appends.
\<close>

section \<open>The socket\<close>

text \<open>
  The documented behaviour of \<open>send\<close>: it never accepts more than it was offered.  On a connection that
  stays up it accepts at least one byte.
\<close>

definition send_bounded :: "net \<Rightarrow> bool" where
  "send_bounded net \<longleftrightarrow> (\<forall>i k. send_rc net i k \<le> int k)"

definition delivers :: "net \<Rightarrow> bool" where
  "delivers net \<longleftrightarrow> send_bounded net \<and> (\<forall>i k. 0 < k \<longrightarrow> 0 < send_rc net i k)"

lemma send_raw_spec:
  assumes "send_bounded net"
  shows "\<exists>k c r. send_raw net bytes s = Some (s\<lparr>wire := wire s @ take k bytes, send_calls := c, s_running := r\<rparr>) \<and>
    (k = length bytes \<and> r = s_running s \<or> k < length bytes \<and> \<not> r \<and> \<not> delivers net)"
proof (induction "length bytes" arbitrary: bytes s rule: less_induct)
  case less
  define n where "n = send_rc net (send_calls s) (length bytes)"
  define s1 where "s1 = s\<lparr>send_calls := Suc (send_calls s)\<rparr>"
  have n: "n \<le> int (length bytes)"
    using assms by (simp add: n_def send_bounded_def)
  have run: "send_raw net bytes s =
      (if n \<le> 0 then Some (s1\<lparr>s_running := False\<rparr>)
       else send_raw net (drop (nat n) bytes) (s1\<lparr>wire := wire s1 @ take (nat n) bytes\<rparr>))"
    if "bytes \<noteq> []"
    using that n by (subst send_raw.simps) (simp add: n_def s1_def Let_def)
  show ?case
  proof (cases "bytes = []")
    case True
    then show ?thesis
      by (subst send_raw.simps) (simp add: exI [of _ "send_calls s"] exI [of _ "s_running s"])
  next
    case False
    show ?thesis
    proof (cases "n \<le> 0")
      case True
      then have "\<not> delivers net"
        using False by (auto simp: delivers_def n_def not_less [symmetric])
      then show ?thesis
        using run [OF False] True False
        by (intro exI [of _ 0] exI [of _ "Suc (send_calls s)"] exI [of _ False]) (simp add: s1_def)
    next
      case pos: False
      let ?s = "s1\<lparr>wire := wire s1 @ take (nat n) bytes\<rparr>"
      have "length (drop (nat n) bytes) < length bytes"
        using pos False by simp
      from less [OF this, of ?s] obtain k c r where
        rec: "send_raw net (drop (nat n) bytes) ?s =
          Some (?s\<lparr>wire := wire ?s @ take k (drop (nat n) bytes), send_calls := c, s_running := r\<rparr>)"
        and k: "k = length bytes - nat n \<and> r = s_running ?s \<or> k < length bytes - nat n \<and> \<not> r \<and> \<not> delivers net"
        by auto
      have "take (nat n) bytes @ take k (drop (nat n) bytes) = take (nat n + k) bytes"
        by (simp add: take_add)
      then have "send_raw net bytes s =
          Some (s\<lparr>wire := wire s @ take (nat n + k) bytes, send_calls := c, s_running := r\<rparr>)"
        using run [OF False] pos rec by (simp add: s1_def)
      moreover have "nat n + k = length bytes \<and> r = s_running s \<or>
          nat n + k < length bytes \<and> \<not> r \<and> \<not> delivers net"
        using k n by (auto simp: s1_def)
      ultimately show ?thesis by blast
    qed
  qed
qed

section \<open>One message\<close>

text \<open>\<open>sent s f s'\<close>: between \<open>s\<close> and \<open>s'\<close> exactly the frame \<open>f\<close> was sent and numbered.\<close>

definition sent :: "session \<Rightarrow> string \<Rightarrow> session \<Rightarrow> bool" where
  "sent s f s' \<longleftrightarrow>
     (\<exists>b c. s' = s\<lparr>s_builder := b, send_calls := c, out_seq := inc32 (out_seq s), wire := wire s @ f\<rparr>)"

definition head_fields :: "char \<Rightarrow> session \<Rightarrow> gateway \<Rightarrow> (int \<times> string) list" where
  "head_fields ty s g = std_header ty (comp_id (g_cfg g)) (sender_comp s) (int (out_seq s))"

definition out_frame :: "char \<Rightarrow> session \<Rightarrow> gateway \<Rightarrow> (int \<times> string) list \<Rightarrow> string" where
  "out_frame ty s g fs = frame_of (enc_fields (head_fields ty s g @ fs))"

definition fits_frame :: "char \<Rightarrow> session \<Rightarrow> gateway \<Rightarrow> (int \<times> string) list \<Rightarrow> bool" where
  "fits_frame ty s g fs \<longleftrightarrow> length (enc_fields (head_fields ty s g @ fs)) < 1000000"

lemma begin_out_has: "builder_has (s_builder (begin_out ty s g)) (head_fields ty s g)"
  by (simp add: begin_out_def builder_begin head_fields_def std_header_def)

lemma finish_sent:
  assumes "delivers net" "builder_has b (head_fields ty s g @ fs)" "fits_frame ty s g fs"
  obtains s' where "finish_out net b (begin_out ty s g) = Some s'" "sent s (out_frame ty s g fs) s'"
proof -
  let ?s = "(begin_out ty s g)\<lparr>s_builder := finalize b\<rparr>"
  have frame: "bbuf (finalize b) = out_frame ty s g fs"
    using finalize_frame [OF assms(2)] assms(3) by (simp add: fits_frame_def out_frame_def)
  have "send_bounded net"
    using assms(1) by (simp add: delivers_def)
  from send_raw_spec [OF this, of "out_frame ty s g fs" ?s] obtain c where
    "send_raw net (out_frame ty s g fs) ?s =
      Some (?s\<lparr>wire := wire ?s @ out_frame ty s g fs, send_calls := c, s_running := s_running ?s\<rparr>)"
    using assms(1) by auto
  then have "finish_out net b (begin_out ty s g) =
      Some (s\<lparr>s_builder := finalize b, send_calls := c, out_seq := inc32 (out_seq s), wire := wire s @ out_frame ty s g fs\<rparr>)"
    by (simp add: finish_out_def Let_def frame begin_out_def)
  then show ?thesis
    using that unfolding sent_def by blast
qed

definition logout_fields :: "string \<Rightarrow> (int \<times> string) list" where
  "logout_fields txt = (if txt \<noteq> [] then [(Text, txt)] else [])"

definition logon_fields :: "(int \<times> string) list" where
  "logon_fields = [(EncryptMethod, to_chars 0), (HeartBtInt, to_chars 30)]"

lemma logout_sent:
  assumes "delivers net" "fits_frame (CHR ''5'') s g (logout_fields txt)"
  obtains s' where "send_logout net txt s g = Some s'" "sent s (out_frame (CHR ''5'') s g (logout_fields txt)) s'"
proof -
  let ?s = "begin_out (CHR ''5'') s g"
  have "builder_has (if txt \<noteq> [] then add_str Text txt (s_builder ?s) else s_builder ?s)
      (head_fields (CHR ''5'') s g @ logout_fields txt)"
    using builder_adds(1) [OF begin_out_has] begin_out_has by (simp add: logout_fields_def)
  from finish_sent [OF assms(1) this assms(2)] show ?thesis
    using that unfolding send_logout_def Let_def by metis
qed

lemma logon_sent:
  assumes "delivers net" "fits_frame (CHR ''A'') s g logon_fields"
  obtains s' where "send_logon_ack net s g = Some s'" "sent s (out_frame (CHR ''A'') s g logon_fields) s'"
proof -
  let ?s = "begin_out (CHR ''A'') s g"
  have "builder_has (add_int HeartBtInt 30 (add_int EncryptMethod 0 (s_builder ?s)))
      (head_fields (CHR ''A'') s g @ logon_fields)"
    using builder_adds(2) [OF builder_adds(2) [OF begin_out_has]] by (simp add: logon_fields_def)
  from finish_sent [OF assms(1) this assms(2)] show ?thesis
    using that unfolding send_logon_ack_def Let_def by metis
qed

text \<open>The fields of an execution report and of a snapshot.\<close>

definition report_fields :: "nat \<Rightarrow> exec_report \<Rightarrow> (int \<times> string) list" where
  "report_fields eid x =
     [(OrderID, dec (x_order_id x)), (ClOrdID, x_cl_ord_id x), (ExecID, ''E'' @ dec eid),
      (ExecType, [x_exec_type x]), (OrdStatus, [x_ord_status x]), (Symbol, x_symbol x), (SideTag, [x_side x]),
      (OrderQty, print_f 0 (x_order_qty x)), (CumQty, print_f 0 (x_cum_qty x)),
      (LeavesQty, print_f 0 (x_leaves_qty x)), (LastQty, print_f 0 (x_last_qty x)),
      (LastPx, print_f 2 (x_last_px x)), (AvgPx, print_f 4 (x_avg_px x))]"

definition short_report :: "exec_report \<Rightarrow> bool" where
  "short_report x \<longleftrightarrow>
     length (print_f 0 (x_order_qty x)) \<le> 63 \<and> length (print_f 0 (x_cum_qty x)) \<le> 63 \<and>
     length (print_f 0 (x_leaves_qty x)) \<le> 63 \<and> length (print_f 0 (x_last_qty x)) \<le> 63 \<and>
     length (print_f 2 (x_last_px x)) \<le> 63 \<and> length (print_f 4 (x_avg_px x)) \<le> 63"

definition snapshot_fields :: "string \<Rightarrow> string \<Rightarrow> double \<Rightarrow> double \<Rightarrow> double \<Rightarrow> double \<Rightarrow> (int \<times> string) list" where
  "snapshot_fields req symb bid_px bid_sz ask_px ask_sz =
     (if req \<noteq> [] then [(MDReqID, req)] else []) @
     [(Symbol, symb), (NoMDEntries, to_chars 2), (MDEntryType, ''0''), (MDEntryPx, print_f 2 bid_px),
      (MDEntrySize, print_f 0 bid_sz), (MDEntryType, ''1''), (MDEntryPx, print_f 2 ask_px),
      (MDEntrySize, print_f 0 ask_sz)]"

definition short_quotes :: "double \<Rightarrow> double \<Rightarrow> double \<Rightarrow> double \<Rightarrow> bool" where
  "short_quotes bid_px bid_sz ask_px ask_sz \<longleftrightarrow>
     length (print_f 2 bid_px) \<le> 63 \<and> length (print_f 0 bid_sz) \<le> 63 \<and>
     length (print_f 2 ask_px) \<le> 63 \<and> length (print_f 0 ask_sz) \<le> 63"

definition add_pairs :: "(int \<times> string) list \<Rightarrow> builder \<Rightarrow> builder" where
  "add_pairs fs b = fold (\<lambda>(t, v). add_str t v) fs b"

lemma add_pairs_has: "builder_has b fs \<Longrightarrow> builder_has (add_pairs gs b) (fs @ gs)"
proof (induction gs arbitrary: b fs)
  case (Cons f gs)
  then show ?case
    using Cons.IH [OF builder_adds(1) [OF Cons.prems, of "fst f" "snd f"]]
    by (simp add: add_pairs_def split_beta)
qed (simp add: add_pairs_def)

lemma add_as_str:
  "add_int t n b = add_str t (to_chars n) b" "add_char t c b = add_str t [c] b"
  by (simp_all add: add_int_def add_char_def add_str_def)

lemma begin_out_cfg [simp]:
  "begin_out ty s (g\<lparr>next_exec_id := n\<rparr>) = begin_out ty s g"
  by (simp add: begin_out_def)

lemma report_sent:
  assumes "delivers net" "short_report x" "fits_frame (CHR ''8'') s g (report_fields (next_exec_id g) x)"
  obtains s' where
    "send_exec_report net x s g =
       Some (s', g\<lparr>next_exec_id := inc64 (next_exec_id g), execs := inc64 (execs g)\<rparr>)"
    "sent s (out_frame (CHR ''8'') s g (report_fields (next_exec_id g) x)) s'"
proof -
  let ?b = "add_pairs (report_fields (next_exec_id g) x) (s_builder (begin_out (CHR ''8'') s g))"
  obtain s' where s': "finish_out net ?b (begin_out (CHR ''8'') s g) = Some s'"
    "sent s (out_frame (CHR ''8'') s g (report_fields (next_exec_id g) x)) s'"
    by (rule finish_sent [OF assms(1) add_pairs_has [OF begin_out_has] assms(3)])
  have "send_exec_report net x s g =
      Some (s', g\<lparr>next_exec_id := inc64 (next_exec_id g), execs := inc64 (execs g)\<rparr>)"
    using s'(1) assms(2)
    by (simp add: send_exec_report_def Let_def add_double_text short_report_def add_as_str
        report_fields_def add_pairs_def)
  then show ?thesis using that s'(2) by blast
qed

lemma snapshot_sent:
  assumes "delivers net" "short_quotes bp bs ap az"
    and "fits_frame (CHR ''W'') s g (snapshot_fields req symb bp bs ap az)"
  obtains s' where "send_md_snapshot net req symb bp bs ap az s g = Some s'"
    "sent s (out_frame (CHR ''W'') s g (snapshot_fields req symb bp bs ap az)) s'"
proof -
  let ?b = "add_pairs (snapshot_fields req symb bp bs ap az) (s_builder (begin_out (CHR ''W'') s g))"
  obtain s' where s': "finish_out net ?b (begin_out (CHR ''W'') s g) = Some s'"
    "sent s (out_frame (CHR ''W'') s g (snapshot_fields req symb bp bs ap az)) s'"
    by (rule finish_sent [OF assms(1) add_pairs_has [OF begin_out_has] assms(3)])
  have "send_md_snapshot net req symb bp bs ap az s g = Some s'"
    using s'(1) assms(2)
    by (cases "req = []") (simp_all add: send_md_snapshot_def Let_def add_double_text short_quotes_def
        add_as_str snapshot_fields_def add_pairs_def)
  then show ?thesis using that s'(2) by blast
qed

section \<open>Sizes\<close>

definition tags_ok :: "(int \<times> string) list \<Rightarrow> bool" where
  "tags_ok fs \<longleftrightarrow> (\<forall>f \<in> set fs. 0 \<le> fst f \<and> fst f < 1000)"

definition no_soh :: "(int \<times> string) list \<Rightarrow> bool" where
  "no_soh fs \<longleftrightarrow> (\<forall>f \<in> set fs. SOH \<notin> set (snd f))"

lemma enc_fields_bound:
  "tags_ok fs \<Longrightarrow> length (enc_fields fs) \<le> 5 * length fs + sum_list (map (\<lambda>f. length (snd f)) fs)"
proof (induction fs)
  case (Cons f fs)
  have "length (to_chars (fst f)) \<le> 3"
    using Cons.prems dec_length [of "nat (fst f)" 3] by (simp add: tags_ok_def to_chars_def nat_less_iff)
  then show ?case
    using Cons by (simp add: tags_ok_def enc_field_def)
qed simp

lemma dec_u64: "n < 2 ^ 64 \<Longrightarrow> length (dec n) \<le> 20"
  using dec_length [of n 20] by simp

lemma fields_ok: "tags_ok fs \<Longrightarrow> no_soh fs \<Longrightarrow> \<forall>f \<in> set fs. field_ok f"
  by (auto simp: tags_ok_def no_soh_def field_ok_def int32_max_def)

section \<open>Reading a sent message\<close>

definition decoded :: "char \<Rightarrow> session \<Rightarrow> gateway \<Rightarrow> (int \<times> string) list \<Rightarrow> message" where
  "decoded ty s g fs = \<lparr>msg_fields = map to_field (frame_fields (head_fields ty s g @ fs))\<rparr>"

text \<open>The body of every message of the gateway can be read back.\<close>

definition body_ok :: "char \<Rightarrow> session \<Rightarrow> gateway \<Rightarrow> (int \<times> string) list \<Rightarrow> bool" where
  "body_ok ty s g fs \<longleftrightarrow> fits_frame ty s g fs \<and> tags_ok fs \<and> no_soh fs"

definition comps_ok :: "session \<Rightarrow> gateway \<Rightarrow> bool" where
  "comps_ok s g \<longleftrightarrow> SOH \<notin> set (comp_id (g_cfg g)) \<and> SOH \<notin> set (sender_comp s)"

lemma head_ok:
  assumes "comps_ok s g" "ty \<noteq> SOH"
  shows "tags_ok (head_fields ty s g)" "no_soh (head_fields ty s g)"
  using assms to_chars_no_soh
  by (auto simp: head_fields_def std_header_def tags_ok_def no_soh_def comps_ok_def MsgType_def
      SenderCompID_def TargetCompID_def MsgSeqNum_def)

lemma out_frame_read:
  assumes "comps_ok s g" "ty \<noteq> SOH" "body_ok ty s g fs"
  shows "split_frame (out_frame ty s g fs @ rest) = FrameOk (out_frame ty s g fs) (length (out_frame ty s g fs))"
    "parse_frame (out_frame ty s g fs) = (True, decoded ty s g fs)"
proof -
  let ?fs = "head_fields ty s g @ fs"
  have len: "length (enc_fields ?fs) < 1000000"
    using assms(3) by (simp only: body_ok_def fits_frame_def)
  have "\<forall>f \<in> set ?fs. field_ok f"
    using fields_ok [OF head_ok [OF assms(1,2)]] fields_ok [of fs] assms(3) by (auto simp: body_ok_def)
  from parse_built [OF this len] show "parse_frame (out_frame ty s g fs) = (True, decoded ty s g fs)"
    by (simp only: out_frame_def decoded_def)
  show "split_frame (out_frame ty s g fs @ rest) = FrameOk (out_frame ty s g fs) (length (out_frame ty s g fs))"
    unfolding out_frame_def by (rule split_frame_of [OF len])
qed

lemma decoded_get:
  assumes "t \<notin> {8, 9, 10}"
  shows "msg_get t (decoded ty s g fs) =
    (case map_of (head_fields ty s g @ fs) t of None \<Rightarrow> [] | Some v \<Rightarrow> v)"
proof -
  let ?fs = "head_fields ty s g @ fs"
  obtain lenv csv where ff: "frame_fields ?fs = [(8, ''FIX.4.4''), (9, lenv)] @ ?fs @ [(10, csv)]"
    by (simp add: frame_fields_def Let_def)
  have "msg_get t (decoded ty s g fs) = (case map_of (frame_fields ?fs) t of None \<Rightarrow> [] | Some v \<Rightarrow> v)"
    by (simp only: decoded_def msg_get_def get_from_to_field message.simps)
  also have "map_of (frame_fields ?fs) t = map_of ?fs t"
    unfolding ff using assms by (simp add: map_add_def split: option.splits)
  finally show ?thesis .
qed

lemma decoded_head:
  assumes "out_seq s < 2 ^ 32"
  shows "msg_get SenderCompID (decoded ty s g fs) = comp_id (g_cfg g)"
    "msg_get TargetCompID (decoded ty s g fs) = sender_comp s"
    "msg_get_int MsgSeqNum 0 (decoded ty s g fs) = int (out_seq s)"
    "msg_type (decoded ty s g fs) = ty"
proof -
  show "msg_get SenderCompID (decoded ty s g fs) = comp_id (g_cfg g)"
    "msg_get TargetCompID (decoded ty s g fs) = sender_comp s" "msg_type (decoded ty s g fs) = ty"
    by (simp_all add: decoded_get msg_type_def head_fields_def std_header_def MsgType_def SenderCompID_def
        TargetCompID_def MsgSeqNum_def map_add_def)
  have "msg_get MsgSeqNum (decoded ty s g fs) = to_chars (int (out_seq s))"
    by (simp add: decoded_get head_fields_def std_header_def MsgType_def SenderCompID_def TargetCompID_def
        MsgSeqNum_def map_add_def)
  moreover have "from_chars_signed int64_min int64_max (to_chars (int (out_seq s))) = Some (int (out_seq s))"
    using assms by (intro from_chars_to_chars) (simp_all add: int64_min_def int64_max_def)
  ultimately show "msg_get_int MsgSeqNum 0 (decoded ty s g fs) = int (out_seq s)"
    by (simp add: msg_get_int_def to_chars_ne)
qed

end
