(* ===== verification/Gateway_Orders.thy ===== *)
theory Gateway_Orders
  imports Gateway_Wire
begin

text \<open>
  The numbers of the gateway: the conversion between decimal prices and ticks, and the execution
  reports of a placement.
\<close>

section \<open>Prices\<close>

lemma to_ticks_cents:
  assumes "n < 2 ^ 49"
  shows "to_ticks (round64 False (of_nat n / 100)) = Some (int n)"
proof -
  define N where "N = (of_nat n :: rat)"
  define p where "p = round_mag (N / 100)"
  define x where "x = round_mag (p * 100)"
  define y where "y = round_mag (x + 1 / 2)"
  have "(of_nat n :: rat) < of_nat (2 ^ 49)"
    using assms by (simp only: of_nat_less_iff)
  then have N: "0 \<le> N" "N < 562949953421312"
    by (simp_all add: N_def)
  have p: "0 \<le> p" "\<bar>p - N / 100\<bar> \<le> 1 / 2048"
    using cents_close(2) [OF assms] round_mag_nonneg [of "N / 100"] N(1) by (simp_all add: p_def N_def)
  have p50: "(2 :: rat) powi 50 = 1125899906842624"
    by simp
  have "p * 100 < 2 powi 50"
    unfolding p50 using p(2) N by linarith
  from round_mag_error [OF _ this] round64_Fin [OF _ this] p(1)
  have x: "\<bar>x - p * 100\<bar> \<le> 1 / 16" "round64 s (p * 100) = Fin s x" "0 \<le> x" for s
    using round_mag_nonneg [of "p * 100"] by (simp_all add: x_def)
  have "x + 1 / 2 < 2 powi 50"
    unfolding p50 using p(2) x(1) N by linarith
  from round_mag_error [OF _ this] round64_Fin [OF _ this] x(3)
  have y: "\<bar>y - (x + 1 / 2)\<bar> \<le> 1 / 16" "round64 s (x + 1 / 2) = Fin s y" for s
    by (simp_all add: y_def)
  have "round64 False (of_nat n / 100) = Fin False p"
    using cents_close(1) [OF assms] by (simp add: p_def N_def)
  then have "to_ticks (round64 False (of_nat n / 100)) = to_int64 (Fin False y)"
    using x(2,3) y(2) by (simp add: to_ticks_def signed_mag_def Let_def add_nonneg_eq_0_iff)
  also have "\<dots> = Some (int n)"
  proof (rule to_int64_between)
    have "N \<le> y" "y < N + 1"
      using p(2) x(1) y(1) by linarith+
    then show "of_int (int n) \<le> y" "y < of_int (int n) + 1"
      by (simp_all add: N_def)
    show "0 \<le> int n" "int n \<le> int64_max"
      using assms by (simp_all add: int64_max_def)
  qed
  finally show ?thesis .
qed

lemma from_ticks_cents:
  assumes "n < 2 ^ 49"
  shows "from_ticks (int n) = round64 False (of_nat n / 100)"
  using assms by (simp add: from_ticks_def double_of_exact)

lemma from_ticks_fin:
  assumes "is_s64 k"
  shows "fin_le (from_ticks k) (2 ^ 57)"
proof -
  have "(2 :: rat) ^ 57 < 2 ^ 1024"
    by (rule power_strict_increasing) simp_all
  moreover have "(2 :: rat) ^ 63 / 100 \<le> 2 ^ 57"
    by simp
  ultimately show ?thesis
    unfolding from_ticks_def by (intro fin_le_div [OF fin_le_int [OF assms] _ _ dyadic_pow]) simp_all
qed

section \<open>The reports of a placement\<close>

text \<open>The report of one trade, after which \<open>c\<close> of the \<open>q\<close> units have been filled.\<close>

definition trade_report :: "exec_report \<Rightarrow> quantity \<Rightarrow> quantity \<Rightarrow> trade \<Rightarrow> bool \<Rightarrow> double \<Rightarrow> exec_report" where
  "trade_report base q c t at_end avg =
     base\<lparr>x_exec_type := (if at_end \<and> c = q then EX_FILL else EX_PARTIAL_FILL),
          x_ord_status := (if at_end \<and> c = q then OS_FILLED else OS_PARTIAL_FILL),
          x_cum_qty := double_of c, x_leaves_qty := double_of (q - c),
          x_last_qty := double_of (trade_qty t), x_last_px := from_ticks (trade_price t), x_avg_px := avg\<rparr>"

definition filled_by :: "nat \<Rightarrow> trade list \<Rightarrow> quantity" where
  "filled_by k ts = sum_list (map trade_qty (take k ts))"

definition trades_ok :: "trade list \<Rightarrow> bool" where
  "trades_ok ts \<longleftrightarrow> (\<forall>t \<in> set ts. 0 < trade_qty t \<and> is_s64 (trade_qty t) \<and> is_s64 (trade_price t))"

lemma filled_by_simps [simp]:
  "filled_by 0 ts = 0" "filled_by (Suc k) (t # ts) = trade_qty t + filled_by k ts"
  by (simp_all add: filled_by_def)

lemma filled_by_nonneg: "trades_ok ts \<Longrightarrow> 0 \<le> filled_by k ts"
proof (induction ts arbitrary: k)
  case (Cons t ts)
  then show ?case by (cases k) (auto simp: trades_ok_def)
qed (simp add: filled_by_def)

lemma notional_step:
  assumes "fin_le notional (of_int i * 2 powi 120)" "0 \<le> i" "i + 1 \<le> 2 ^ 53"
    and "is_s64 p" "is_s64 n"
  shows "fin_le (fadd notional (fmul (from_ticks p) (double_of n))) (of_int (i + 1) * 2 powi 120)"
proof -
  have p120: "(2 :: rat) ^ 57 * 2 ^ 63 = 2 powi 120"
    by simp
  have big: "(2 :: rat) powi 120 * 2 ^ 53 < 2 ^ 1024"
  proof -
    have "(2 :: rat) powi 120 * 2 ^ 53 = 2 ^ 173" by simp
    also have "\<dots> < 2 ^ 1024" by (rule power_strict_increasing) simp_all
    finally show ?thesis .
  qed
  have "dyadic (2 ^ 57 * 2 ^ 63)"
    using dyadic_pow [of 120] by simp
  moreover have "(2 :: rat) ^ 57 * 2 ^ 63 < 2 ^ 1024"
    unfolding p120 using big by (rule order_le_less_trans [rotated]) simp
  ultimately have "fin_le (fmul (from_ticks p) (double_of n)) (2 powi 120)"
    using fin_le_mul [OF from_ticks_fin [OF assms(4)] fin_le_int [OF assms(5)]] unfolding p120 by blast
  from fin_le_add [OF assms(1) this]
  have *: "dyadic (of_int (i + 1) * 2 powi 120) \<Longrightarrow> of_int (i + 1) * 2 powi 120 < (2 :: rat) ^ 1024 \<Longrightarrow> ?thesis"
    by (simp add: algebra_simps)
  have "(of_int (i + 1) :: rat) \<le> of_int (2 ^ 53)"
    using assms(3) by (simp only: of_int_le_iff)
  then have "of_int (i + 1) * 2 powi 120 \<le> (2 :: rat) powi 120 * 2 ^ 53"
    by simp
  then have "of_int (i + 1) * 2 powi 120 < (2 :: rat) ^ 1024"
    using big by (rule order_le_less_trans)
  then show ?thesis
    using assms(2,3) by (intro * dyadic_scaled) simp_all
qed

definition avg_bound :: rat where
  "avg_bound = 2 ^ 173"

lemma average_bound:
  assumes "fin_le notional (of_int i * 2 powi 120)" "i \<le> 2 ^ 53" "0 < c" "is_s64 c"
  shows "fin_le (fdiv notional (double_of c)) avg_bound"
proof -
  obtain n where n: "double_of c = Fin False n" "1 \<le> n"
    by (rule double_of_pos [OF assms(3,4)])
  have "(of_int i :: rat) \<le> of_int (2 ^ 53)"
    using assms(2) by (simp only: of_int_le_iff)
  then have le: "of_int i * 2 powi 120 \<le> (2 :: rat) ^ 173"
    by simp
  have "(2 :: rat) ^ 173 / n \<le> 2 ^ 173 / 1"
    using n(2) by (intro divide_left_mono) simp_all
  then have "(2 :: rat) ^ 173 / n \<le> 2 ^ 173"
    by simp
  moreover have "(2 :: rat) ^ 173 < 2 ^ 1024"
    by (rule power_strict_increasing) simp_all
  ultimately show ?thesis
    unfolding n(1) avg_bound_def using n(2)
    by (intro fin_le_div [OF fin_le_mono [OF assms(1) le] _ _ dyadic_pow]) simp_all
qed

lemma fill_reports_spec:
  assumes "trades_ok ts" "0 \<le> cum" "is_s64 q" "cum + filled_by (length ts) ts \<le> q"
    and "fin_le notional (of_int i * 2 powi 120)" "0 \<le> i" "i + int (length ts) \<le> 2 ^ 53"
  shows "\<exists>xs. fill_reports base q cum notional ts = Some xs \<and> length xs = length ts \<and>
    (\<forall>j < length ts. \<exists>avg. fin_le avg avg_bound \<and>
       xs ! j = trade_report base q (cum + filled_by (Suc j) ts) (ts ! j) (Suc j = length ts) avg)"
  using assms
proof (induction ts arbitrary: cum notional i)
  case Nil
  then show ?case by simp
next
  case (Cons t ts)
  define c where "c = cum + trade_qty t"
  define n where "n = fadd notional (fmul (from_ticks (trade_price t)) (double_of (trade_qty t)))"
  have ok: "trades_ok ts" and t: "0 < trade_qty t" "is_s64 (trade_qty t)" "is_s64 (trade_price t)"
    using Cons.prems(1) by (auto simp: trades_ok_def)
  have sum: "0 < c" "c + filled_by (length ts) ts \<le> q" "c \<le> q"
    using Cons.prems(2,4) t filled_by_nonneg [OF ok, of "length ts"] by (simp_all add: c_def)
  have s64: "is_s64 c" "is_s64 (q - c)"
    using sum Cons.prems(3) by (simp_all add: is_s64_def int64_min_def)
  have notional: "fin_le n (of_int (i + 1) * 2 powi 120)"
    unfolding n_def using Cons.prems(5-7) t by (intro notional_step) simp_all
  define avg where "avg = fdiv n (double_of c)"
  have avg: "fin_le avg avg_bound"
    unfolding avg_def using Cons.prems(7) sum(1) s64(1) by (intro average_bound [OF notional]) simp_all
  from Cons.IH [OF ok _ Cons.prems(3) sum(2) notional] obtain xs where
    xs: "fill_reports base q c n ts = Some xs" "length xs = length ts"
    and each: "\<forall>j < length ts. \<exists>avg. fin_le avg avg_bound \<and>
      xs ! j = trade_report base q (c + filled_by (Suc j) ts) (ts ! j) (Suc j = length ts) avg"
    using sum(1) Cons.prems(6,7) by auto
  have run: "fill_reports base q cum notional (t # ts) =
      Some (trade_report base q c t (ts = []) avg # xs)"
  proof -
    have "(q - c = 0) = (c = q)"
      by auto
    then show ?thesis
      using xs(1) s64 unfolding fill_reports.simps c_def [symmetric] n_def [symmetric] Let_def
      by (simp add: chk64_def trade_report_def avg_def)
  qed
  show ?case
  proof (intro exI [of _ "trade_report base q c t (ts = []) avg # xs"] conjI allI impI)
    fix j assume "j < length (t # ts)"
    then show "\<exists>avg'. fin_le avg' avg_bound \<and> (trade_report base q c t (ts = []) avg # xs) ! j =
        trade_report base q (cum + filled_by (Suc j) (t # ts)) ((t # ts) ! j) (Suc j = length (t # ts)) avg'"
      using each avg by (cases j) (auto simp: c_def add.assoc)
  qed (use run xs(2) in simp_all)
qed

lemma sum_trades_spec:
  assumes "trades_ok ts" "0 \<le> f" "f + filled_by (length ts) ts \<le> q" "is_s64 q"
  shows "sum_trades f ts = Some (f + filled_by (length ts) ts)"
  using assms
proof (induction ts arbitrary: f)
  case (Cons t ts)
  have ok: "trades_ok ts" "0 < trade_qty t"
    using Cons.prems(1) by (auto simp: trades_ok_def)
  then have "is_s64 (f + trade_qty t)"
    using Cons.prems(2-4) filled_by_nonneg [of ts "length ts"] by (simp add: is_s64_def int64_min_def)
  then show ?case
    using Cons.IH [of "f + trade_qty t"] Cons.prems ok by (simp add: chk64_def add.assoc)
qed simp

text \<open>The report of what is left, or of an order without trades.\<close>

definition rest_report :: "exec_report \<Rightarrow> quantity \<Rightarrow> trade list \<Rightarrow> exec_report" where
  "rest_report base q ts =
     base\<lparr>x_exec_type := EX_NEW, x_ord_status := (if ts = [] then OS_NEW else OS_PARTIAL_FILL),
          x_cum_qty := (if ts = [] then x_cum_qty base else double_of (filled_by (length ts) ts)),
          x_leaves_qty := double_of (q - filled_by (length ts) ts)\<rparr>"

lemma order_reports_spec:
  assumes "trades_ok ts" "is_s64 q" "filled_by (length ts) ts \<le> q \<or> ts = []" "int (length ts) \<le> 2 ^ 53"
  obtains fs where
    "order_reports base q ts =
       Some (fs @ (if ts = [] \<or> filled_by (length ts) ts < q then [rest_report base q ts] else []))"
    "length fs = length ts"
    "\<And>j. j < length ts \<Longrightarrow> \<exists>avg. fin_le avg avg_bound \<and>
       fs ! j = trade_report base q (filled_by (Suc j) ts) (ts ! j) (Suc j = length ts) avg"
proof (cases "ts = []")
  case True
  then show ?thesis
    using that [of "[]"] assms(2) by (simp add: order_reports_def rest_report_def chk64_def)
next
  case False
  then have le: "filled_by (length ts) ts \<le> q"
    using assms(3) by blast
  have sum: "sum_trades 0 ts = Some (filled_by (length ts) ts)"
    using sum_trades_spec [OF assms(1) _ _ assms(2), of 0] le by simp
  have "is_s64 (q - filled_by (length ts) ts)"
    using le assms(2) filled_by_nonneg [OF assms(1), of "length ts"] by (simp add: is_s64_def int64_min_def)
  moreover have "fin_le dzero (of_int 0 * 2 powi 120)"
    by (simp add: dzero_def fin_le_0)
  from fill_reports_spec [OF assms(1) _ assms(2) _ this, of 0 base] obtain fs where
    "fill_reports base q 0 dzero ts = Some fs" "length fs = length ts"
    "\<forall>j < length ts. \<exists>avg. fin_le avg avg_bound \<and>
       fs ! j = trade_report base q (filled_by (Suc j) ts) (ts ! j) (Suc j = length ts) avg"
    using le assms(4) by auto
  ultimately show ?thesis
    using that [of fs] False sum by (simp add: order_reports_def rest_report_def chk64_def)
qed

end
