(* ===== verification/Gateway_Session.thy ===== *)
theory Gateway_Session
  imports Gateway_Orders
begin

text \<open>
  A whole session of the gateway: the invariants of a session and of the shared gateway, that every
  handler returns and keeps them, and the receive loop on a stream cut into chunks.
\<close>

section \<open>Outputs that can be sent\<close>

text \<open>The largest value that a received message may carry for its echo to fit into a frame.\<close>

definition max_value :: nat where
  "max_value = 300000"

definition plain_value :: "string \<Rightarrow> bool" where
  "plain_value v \<longleftrightarrow> SOH \<notin> set v \<and> length v \<le> max_value"

definition top_ok :: "top \<Rightarrow> bool" where
  "top_ok tp \<longleftrightarrow> is_s64 (top_bid_px tp) \<and> is_s64 (top_bid_sz tp) \<and> is_s64 (top_ask_px tp) \<and> is_s64 (top_ask_sz tp)"

fun out_ok :: "out_msg \<Rightarrow> bool" where
  "out_ok (Report x) \<longleftrightarrow>
     short_report x \<and> x_order_id x < 2 ^ 64 \<and> plain_value (x_cl_ord_id x) \<and> plain_value (x_symbol x) \<and>
     x_exec_type x \<noteq> SOH \<and> x_ord_status x \<noteq> SOH \<and> x_side x \<noteq> SOH"
| "out_ok (Snapshot req symb tp) \<longleftrightarrow> plain_value req \<and> plain_value symb \<and> top_ok tp"
| "out_ok (Publish symb tp) \<longleftrightarrow> top_ok tp"

definition sess_ok :: "session \<Rightarrow> gateway \<Rightarrow> bool" where
  "sess_ok s g \<longleftrightarrow>
     plain_value (sender_comp s) \<and> SOH \<notin> set (comp_id (g_cfg g)) \<and> length (comp_id (g_cfg g)) \<le> 90000 \<and>
     out_seq s < 2 ^ 32"

lemma print_f_no_soh: "SOH \<notin> set (print_f N d)"
  using print_f_plain [of SOH N d] by (auto simp: SOH_def is_digit_def byte_def)

lemma int_print:
  assumes "is_s64 k"
  shows "length (print_f 0 (double_of k)) \<le> 22" "length (print_f 2 (from_ticks k)) \<le> 23"
proof -
  have "fin_le (double_of k) (10 ^ 19)"
    by (rule fin_le_mono [OF fin_le_int [OF assms]]) simp
  from print_f_length [OF this, of 0] show "length (print_f 0 (double_of k)) \<le> 22" by simp
  have "fin_le (from_ticks k) (10 ^ 18)"
    by (rule fin_le_mono [OF from_ticks_fin [OF assms]]) simp
  from print_f_length [OF this, of 2] show "length (print_f 2 (from_ticks k)) \<le> 23" by simp
qed

lemma zero_print: "length (print_f N dzero) \<le> N + 3"
proof -
  have "fin_le dzero (10 ^ 0)"
    by (simp add: dzero_def fin_le_0)
  from print_f_length [OF this, of N] show ?thesis by simp
qed

lemma ask_print: "is_s64 k \<Longrightarrow> length (print_f 2 (ask_double k)) \<le> 23"
  using int_print(2) [of k] zero_print [of 2] by (simp add: ask_double_def)

lemma top_short:
  "top_ok tp \<Longrightarrow> short_quotes (from_ticks (top_bid_px tp)) (double_of (top_bid_sz tp))
     (ask_double (top_ask_px tp)) (double_of (top_ask_sz tp))"
  using int_print ask_print by (fastforce simp: top_ok_def short_quotes_def)

section \<open>Sending keeps the stream well formed\<close>

definition emits :: "session \<Rightarrow> gateway \<Rightarrow> session \<Rightarrow> bool" where
  "emits s g s' \<longleftrightarrow> (\<exists>ty fs. ty \<noteq> SOH \<and> body_ok ty s g fs \<and> sent s (out_frame ty s g fs) s')"

lemma fits_bound:
  assumes "sess_ok s g" "tags_ok fs" "ty \<noteq> SOH"
    and "5 * length fs + sum_list (map (\<lambda>f. length (snd f)) fs) \<le> 609000"
  shows "fits_frame ty s g fs"
proof -
  have c: "comps_ok s g"
    using assms(1) by (simp add: sess_ok_def plain_value_def comps_ok_def)
  have "to_chars (int (out_seq s)) = dec (out_seq s)"
    by (simp add: to_chars_def)
  then have "length (to_chars (int (out_seq s))) \<le> 20"
    using assms(1) dec_u64 [of "out_seq s"] by (simp add: sess_ok_def)
  then have "5 * length (head_fields ty s g) + sum_list (map (\<lambda>f. length (snd f)) (head_fields ty s g)) \<le> 390041"
    using assms(1) by (simp add: head_fields_def std_header_def sess_ok_def plain_value_def max_value_def)
  moreover have "length (enc_fields (head_fields ty s g)) \<le>
      5 * length (head_fields ty s g) + sum_list (map (\<lambda>f. length (snd f)) (head_fields ty s g))"
    by (rule enc_fields_bound [OF head_ok(1) [OF c assms(3)]])
  ultimately show ?thesis
    using enc_fields_bound [OF assms(2)] assms(4) by (simp add: fits_frame_def)
qed

lemma tag_values [simp]:
  "OrderID = 37" "ClOrdID = 11" "ExecID = 17" "ExecType = 150" "OrdStatus = 39" "Symbol = 55" "SideTag = 54"
  "OrderQty = 38" "CumQty = 14" "LeavesQty = 151" "LastQty = 32" "LastPx = 31" "AvgPx = 6" "MDReqID = 262"
  "NoMDEntries = 268" "MDEntryType = 269" "MDEntryPx = 270" "MDEntrySize = 271" "EncryptMethod = 98"
  "HeartBtInt = 108" "Text = 58" "PriceTag = 44"
  by (simp_all add: OrderID_def ClOrdID_def ExecID_def ExecType_def OrdStatus_def Symbol_def SideTag_def
      OrderQty_def CumQty_def LeavesQty_def LastQty_def LastPx_def AvgPx_def MDReqID_def NoMDEntries_def
      MDEntryType_def MDEntryPx_def MDEntrySize_def EncryptMethod_def HeartBtInt_def Text_def PriceTag_def)

lemma dec_no_soh: "SOH \<notin> set (dec n)"
  using dec_props [of n] digits_no_soh by blast

lemma report_body:
  assumes "sess_ok s g" "out_ok (Report x)" "next_exec_id g < 2 ^ 64"
  shows "body_ok (CHR ''8'') s g (report_fields (next_exec_id g) x)"
proof -
  let ?fs = "report_fields (next_exec_id g) x"
  have x: "short_report x" "plain_value (x_cl_ord_id x)" "plain_value (x_symbol x)" "x_order_id x < 2 ^ 64"
    "x_exec_type x \<noteq> SOH" "x_ord_status x \<noteq> SOH" "x_side x \<noteq> SOH"
    using assms(2) by auto
  have tags: "tags_ok ?fs"
    by (simp add: report_fields_def tags_ok_def)
  have "5 * length ?fs + sum_list (map (\<lambda>f. length (snd f)) ?fs) \<le> 609000"
    using x(1-3) dec_u64 [OF x(4)] dec_u64 [OF assms(3)]
    by (simp add: report_fields_def short_report_def plain_value_def max_value_def)
  then have "fits_frame (CHR ''8'') s g ?fs"
    by (intro fits_bound [OF assms(1) tags]) (simp_all add: SOH_def)
  moreover have "no_soh ?fs"
    using x(2,3,5-7) dec_no_soh print_f_no_soh
    by (simp add: report_fields_def no_soh_def plain_value_def) (simp add: SOH_def)
  ultimately show ?thesis
    using tags by (simp add: body_ok_def)
qed

lemma snapshot_body:
  assumes "sess_ok s g" "out_ok (Snapshot req symb tp)"
  shows "body_ok (CHR ''W'') s g (snapshot_fields req symb (from_ticks (top_bid_px tp)) (double_of (top_bid_sz tp))
     (ask_double (top_ask_px tp)) (double_of (top_ask_sz tp)))"
    (is "body_ok _ _ _ ?fs")
proof -
  have x: "plain_value req" "plain_value symb" "top_ok tp"
    using assms(2) by auto
  have tags: "tags_ok ?fs"
    by (simp add: snapshot_fields_def tags_ok_def)
  have two: "to_chars 2 = ''2''"
    by code_simp
  have "5 * length ?fs + sum_list (map (\<lambda>f. length (snd f)) ?fs) \<le> 609000"
    using x(1,2) top_short [OF x(3)]
    by (simp add: snapshot_fields_def short_quotes_def plain_value_def max_value_def two)
  then have "fits_frame (CHR ''W'') s g ?fs"
    by (intro fits_bound [OF assms(1) tags]) (simp_all add: SOH_def)
  moreover have "no_soh ?fs"
    using x(1,2) print_f_no_soh
    by (auto simp: snapshot_fields_def no_soh_def plain_value_def two) (auto simp: SOH_def)
  ultimately show ?thesis
    using tags by (simp add: body_ok_def)
qed

lemma text_body:
  assumes "sess_ok s g" "plain_value txt" 
  shows "body_ok (CHR ''5'') s g (logout_fields txt)"
proof -
  have tags: "tags_ok (logout_fields txt)"
    by (simp add: logout_fields_def tags_ok_def)
  have "fits_frame (CHR ''5'') s g (logout_fields txt)"
    using assms(2) by (intro fits_bound [OF assms(1) tags])
      (simp_all add: SOH_def logout_fields_def plain_value_def max_value_def)
  then show ?thesis
    using tags assms(2) by (simp add: body_ok_def logout_fields_def no_soh_def plain_value_def)
qed

lemma logon_body:
  assumes "sess_ok s g"
  shows "body_ok (CHR ''A'') s g logon_fields"
proof -
  have tags: "tags_ok logon_fields"
    by (simp add: logon_fields_def tags_ok_def)
  have num: "to_chars 0 = ''0''" "to_chars 30 = ''30''"
    by code_simp+
  have "fits_frame (CHR ''A'') s g logon_fields"
    by (intro fits_bound [OF assms(1) tags]) (simp_all add: SOH_def logon_fields_def num)
  then show ?thesis
    using tags by (simp add: body_ok_def logon_fields_def no_soh_def num SOH_def)
qed

section \<open>The stream of a session\<close>

text \<open>
  A frame that any reader of the stream accepts as it is, and that parses to a message of this
  gateway with the sequence number \<open>k\<close>.
\<close>

definition good_frame :: "string \<Rightarrow> nat \<Rightarrow> string \<Rightarrow> bool" where
  "good_frame cmp k f \<longleftrightarrow>
     (\<forall>rest. split_frame (f @ rest) = FrameOk f (length f)) \<and>
     (\<exists>m. parse_frame f = (True, m) \<and> msg_get SenderCompID m = cmp \<and> msg_get_int MsgSeqNum 0 m = int k)"

definition stream_ok :: "string \<Rightarrow> session \<Rightarrow> bool" where
  "stream_ok cmp s \<longleftrightarrow>
     (\<exists>fs. wire s = concat fs \<and> out_seq s = (length fs + 1) mod 2 ^ 32 \<and>
       (\<forall>i < length fs. good_frame cmp ((i + 1) mod 2 ^ 32) (fs ! i)))"

lemma inc32_mod: "inc32 (n mod 2 ^ 32) = (n + 1) mod 2 ^ 32"
proof -
  have "(int (n mod 2 ^ 32) + 1) mod 2 ^ 32 = int ((n + 1) mod 2 ^ 32)"
    by (simp add: zmod_int mod_simps add.commute)
  then show ?thesis
    unfolding inc32_def by (metis nat_int)
qed

lemma inc32_less: "inc32 n < 2 ^ 32"
  by (simp add: inc32_def nat_less_iff)

lemma emits_frame:
  assumes "sess_ok s g" "emits s g s'"
  obtains f where "good_frame (comp_id (g_cfg g)) (out_seq s) f" "wire s' = wire s @ f" "out_seq s' = inc32 (out_seq s)"
proof -
  obtain ty fs where e: "ty \<noteq> SOH" "body_ok ty s g fs" "sent s (out_frame ty s g fs) s'"
    using assms(2) by (auto simp: emits_def)
  have c: "comps_ok s g" "out_seq s < 2 ^ 32"
    using assms(1) by (auto simp: sess_ok_def plain_value_def comps_ok_def)
  have "good_frame (comp_id (g_cfg g)) (out_seq s) (out_frame ty s g fs)"
    unfolding good_frame_def using out_frame_read [OF c(1) e(1,2)] decoded_head [OF c(2)] by auto
  then show ?thesis
    using that e(3) by (auto simp: sent_def)
qed

lemma emits_stream:
  assumes "sess_ok s g" "emits s g s'" "stream_ok (comp_id (g_cfg g)) s"
  shows "stream_ok (comp_id (g_cfg g)) s'"
proof -
  obtain f where f: "good_frame (comp_id (g_cfg g)) (out_seq s) f" "wire s' = wire s @ f"
    "out_seq s' = inc32 (out_seq s)"
    by (rule emits_frame [OF assms(1,2)])
  obtain fs where fs: "wire s = concat fs" "out_seq s = (length fs + 1) mod 2 ^ 32"
    "\<forall>i < length fs. good_frame (comp_id (g_cfg g)) ((i + 1) mod 2 ^ 32) (fs ! i)"
    using assms(3) by (auto simp: stream_ok_def)
  have "wire s' = concat (fs @ [f])" "out_seq s' = (length (fs @ [f]) + 1) mod 2 ^ 32"
    using f(2,3) fs(1,2) inc32_mod [of "length fs + 1"] by simp_all
  moreover have "\<forall>i < length (fs @ [f]). good_frame (comp_id (g_cfg g)) ((i + 1) mod 2 ^ 32) ((fs @ [f]) ! i)"
    using f(1) fs(2,3) by (auto simp: nth_append less_Suc_eq)
  ultimately show ?thesis
    unfolding stream_ok_def by blast
qed

text \<open>What a message leaves alone in its session.\<close>

definition same_peer :: "session \<Rightarrow> session \<Rightarrow> bool" where
  "same_peer s s' \<longleftrightarrow> sender_comp s' = sender_comp s \<and> logged_on s' = logged_on s \<and> rx_buf s' = rx_buf s \<and>
     in_seq s' = in_seq s \<and> s_fd s' = s_fd s \<and> s_running s' = s_running s \<and> (\<exists>r. wire s' = wire s @ r)"

lemma emits_same: "emits s g s' \<Longrightarrow> same_peer s s'"
  by (auto simp: emits_def sent_def same_peer_def)

definition sess_inv :: "session \<Rightarrow> gateway \<Rightarrow> bool" where
  "sess_inv s g \<longleftrightarrow> sess_ok s g \<and> stream_ok (comp_id (g_cfg g)) s"

lemma emits_inv:
  assumes "sess_inv s g" "emits s g s'"
  shows "sess_inv s' g"
proof -
  have ok: "sess_ok s g" "stream_ok (comp_id (g_cfg g)) s"
    using assms(1) by (auto simp: sess_inv_def)
  obtain f where "out_seq s' = inc32 (out_seq s)"
    by (rule emits_frame [OF ok(1) assms(2)])
  then have "out_seq s' < 2 ^ 32"
    by (simp only: inc32_less)
  moreover have "sender_comp s' = sender_comp s"
    using emits_same [OF assms(2)] by (simp add: same_peer_def)
  ultimately have "sess_ok s' g"
    using ok(1) unfolding sess_ok_def by metis
  then show ?thesis
    using emits_stream [OF ok(1) assms(2) ok(2)] unfolding sess_inv_def by blast
qed

lemma sess_inv_cong:
  "sess_inv s g \<Longrightarrow> g_cfg g' = g_cfg g \<Longrightarrow> out_seq s' = out_seq s \<Longrightarrow> wire s' = wire s \<Longrightarrow>
   sender_comp s' = sender_comp s \<Longrightarrow> sess_inv s' g'"
  by (simp add: sess_inv_def sess_ok_def stream_ok_def)

section \<open>Performing outputs\<close>

definition gw_ok :: "nat \<Rightarrow> gateway \<Rightarrow> bool" where
  "gw_ok cap g \<longleftrightarrow> book_reach cap (book (g_engine g)) \<and> cap \<le> 2 ^ 53 \<and> next_exec_id g < 2 ^ 64"

definition same_shared :: "gateway \<Rightarrow> gateway \<Rightarrow> bool" where
  "same_shared g g' \<longleftrightarrow> g_cfg g' = g_cfg g \<and> g_engine g' = g_engine g \<and> g_running g' = g_running g \<and>
     orders g' = orders g \<and> next_exec_id g' < 2 ^ 64"

lemma inc64_less: "inc64 n < 2 ^ 64"
  unfolding inc64_def by (rule u64_less)

lemma publish_ok:
  assumes "top_ok tp"
  obtains r f' where "publish_l1 sendto symb (from_ticks (top_bid_px tp)) (double_of (top_bid_sz tp))
     (ask_double (top_ask_px tp)) (double_of (top_ask_sz tp)) f = Some (r, f')"
proof -
  let ?t = "l1_line (inc64 (feed_seq f)) symb (from_ticks (top_bid_px tp)) (double_of (top_bid_sz tp))
     (ask_double (top_ask_px tp)) (double_of (top_ask_sz tp))"
  have "length (takeWhile (\<lambda>c. c \<noteq> CHR 0x00) (take 31 symb)) \<le> 31"
    using length_takeWhile_le [of "\<lambda>c. c \<noteq> CHR 0x00" "take 31 symb"] by simp
  moreover have "length (print_f 2 (from_ticks (top_bid_px tp))) \<le> 23"
    "length (print_f 0 (double_of (top_bid_sz tp))) \<le> 22" "length (print_f 2 (ask_double (top_ask_px tp))) \<le> 23"
    "length (print_f 0 (double_of (top_ask_sz tp))) \<le> 22"
    using int_print ask_print assms by (simp_all add: top_ok_def)
  ultimately have "length ?t \<le> 256"
    using dec_u64 [OF inc64_less, of "feed_seq f"] by (simp add: l1_line_def)
  then show ?thesis
    using that by (cases "feed_fd f < 0") (simp_all add: publish_l1_def Let_def)
qed

text \<open>The feed's datagrams go to another socket.\<close>

fun on_socket :: "out_msg \<Rightarrow> bool" where
  "on_socket (Report x) = True"
| "on_socket (Snapshot req symb tp) = True"
| "on_socket (Publish symb tp) = False"

lemma perform_ok:
  assumes "delivers net" "sess_inv s g" "gw_ok cap g" "out_ok m"
  obtains s' g' where "perform net m s g = Some (s', g')" "emits s g s' \<or> s' = s \<and> \<not> on_socket m" "same_shared g g'"
proof (cases m)
  case (Report x)
  have body: "body_ok (CHR ''8'') s g (report_fields (next_exec_id g) x)"
    using assms Report by (intro report_body) (auto simp: sess_inv_def gw_ok_def)
  have short: "short_report x" and fits: "fits_frame (CHR ''8'') s g (report_fields (next_exec_id g) x)"
    using assms(4) Report body by (simp_all add: body_ok_def)
  obtain s' where s': "send_exec_report net x s g =
       Some (s', g\<lparr>next_exec_id := inc64 (next_exec_id g), execs := inc64 (execs g)\<rparr>)"
    "sent s (out_frame (CHR ''8'') s g (report_fields (next_exec_id g) x)) s'"
    by (rule report_sent [OF assms(1) short fits])
  have "emits s g s'"
    unfolding emits_def using body s'(2) by (intro exI [of _ "CHR ''8''"]) (auto simp: SOH_def)
  then show ?thesis
    using that s'(1) Report inc64_less by (simp add: same_shared_def)
next
  case (Snapshot req symb tp)
  have body: "body_ok (CHR ''W'') s g (snapshot_fields req symb (from_ticks (top_bid_px tp)) (double_of (top_bid_sz tp))
     (ask_double (top_ask_px tp)) (double_of (top_ask_sz tp)))" (is "body_ok _ _ _ ?fs")
    using assms Snapshot by (intro snapshot_body) (auto simp: sess_inv_def)
  have top: "top_ok tp" and fits: "fits_frame (CHR ''W'') s g ?fs"
    using assms(4) Snapshot body by (simp_all add: body_ok_def)
  obtain s' where s': "send_md_snapshot net req symb (from_ticks (top_bid_px tp)) (double_of (top_bid_sz tp))
     (ask_double (top_ask_px tp)) (double_of (top_ask_sz tp)) s g = Some s'"
    "sent s (out_frame (CHR ''W'') s g ?fs) s'"
    by (rule snapshot_sent [OF assms(1) top_short [OF top] fits])
  have "emits s g s'"
    unfolding emits_def using body s'(2) by (intro exI [of _ "CHR ''W''"]) (auto simp: SOH_def)
  then show ?thesis
    using that s'(1) Snapshot assms(3) by (simp add: same_shared_def gw_ok_def)
next
  case (Publish symb tp)
  show ?thesis
  proof (cases "g_feed g")
    case None
    then show ?thesis
      using that [of s g] Publish assms(3) by (simp add: same_shared_def gw_ok_def)
  next
    case (Some f)
    obtain r f' where "publish_l1 (sendto_rc net) symb (from_ticks (top_bid_px tp)) (double_of (top_bid_sz tp))
       (ask_double (top_ask_px tp)) (double_of (top_ask_sz tp)) f = Some (r, f')"
      by (rule publish_ok [of tp]) (use assms(4) Publish in auto)
    then show ?thesis
      using that [of s "g\<lparr>g_feed := Some f'\<rparr>"] Some Publish assms(3) by (simp add: same_shared_def gw_ok_def)
  qed
qed

lemma gw_ok_shared: "gw_ok cap g \<Longrightarrow> same_shared g g' \<Longrightarrow> gw_ok cap g'"
  by (simp add: gw_ok_def same_shared_def)

lemma sess_inv_shared: "sess_inv s g \<Longrightarrow> same_shared g g' \<Longrightarrow> sess_inv s g'"
  by (rule sess_inv_cong) (auto simp: same_shared_def)

lemma perform_all_ok:
  assumes "delivers net" "sess_inv s g" "gw_ok cap g" "\<forall>m \<in> set ms. out_ok m"
  obtains s' g' where "perform_all net ms s g = Some (s', g')" "sess_inv s' g'" "same_shared g g'" "same_peer s s'"
proof -
  have "\<exists>s' g'. perform_all net ms s g = Some (s', g') \<and> sess_inv s' g' \<and> same_shared g g' \<and> same_peer s s'"
    using assms(2-)
  proof (induction ms arbitrary: s g)
    case Nil
    then show ?case by (simp add: same_shared_def same_peer_def gw_ok_def)
  next
    case (Cons m ms)
    obtain s1 g1 where p: "perform net m s g = Some (s1, g1)" "emits s g s1 \<or> s1 = s \<and> \<not> on_socket m" "same_shared g g1"
      by (rule perform_ok [OF assms(1) Cons.prems(1,2)]) (use Cons.prems(3) in auto)
    have peer: "same_peer s s1"
      using p(2) emits_same by (auto simp: same_peer_def)
    have "sess_inv s1 g"
      using p(2) emits_inv [OF Cons.prems(1)] Cons.prems(1) by auto
    from Cons.IH [OF sess_inv_shared [OF this p(3)] gw_ok_shared [OF Cons.prems(2) p(3)]] Cons.prems(3)
    obtain s' g' where "perform_all net ms s1 g1 = Some (s', g')" "sess_inv s' g'" "same_shared g1 g'" "same_peer s1 s'"
      by auto
    then show ?case
      using p(1,3) peer by (auto simp: same_shared_def same_peer_def)
  qed
  then show ?thesis using that by blast
qed

section \<open>Handlers\<close>

lemma filled_by_mono: "trades_ok ts \<Longrightarrow> filled_by k ts \<le> filled_by (length ts) ts"
proof (induction ts arbitrary: k)
  case (Cons t ts)
  have ok: "trades_ok ts" "0 < trade_qty t"
    using Cons.prems by (auto simp: trades_ok_def)
  show ?case
    using Cons.IH [OF ok(1)] filled_by_nonneg [OF ok(1), of "length ts"] ok(2) by (cases k) auto
qed (simp add: filled_by_def)

definition order_qty_of :: "message \<Rightarrow> double" where
  "order_qty_of m = msg_get_double OrderQty dzero m"

definition price_of :: "message \<Rightarrow> double" where
  "price_of m = msg_get_double PriceTag dzero m"

definition rejected :: "message \<Rightarrow> bool" where
  "rejected m \<longleftrightarrow> le_zero (order_qty_of m) \<or> le_zero (price_of m) \<or>
     (side_char m \<noteq> CHR ''1'' \<and> side_char m \<noteq> CHR ''2'')"

definition order_side :: "message \<Rightarrow> side" where
  "order_side m = (if side_char m = CHR ''1'' then Buy else Sell)"

text \<open>
  The orders on which the handler has defined behaviour: the quantity of a rejected order prints
  within the buffer, price and quantity of an accepted one fit into 64 bits.
\<close>

definition order_defined :: "message \<Rightarrow> bool" where
  "order_defined m \<longleftrightarrow>
     (if rejected m then length (print_f 0 (order_qty_of m)) \<le> 63
      else to_ticks (price_of m) \<noteq> None \<and> to_int64 (order_qty_of m) \<noteq> None)"

definition plain_msg :: "message \<Rightarrow> bool" where
  "plain_msg m \<longleftrightarrow> (\<forall>t. plain_value (msg_get t m))"

lemma to_int64_s64: "to_int64 d = Some k \<Longrightarrow> is_s64 k"
  by (cases d) (auto simp: to_int64_def is_s64_def Let_def split: if_splits)

lemma read_top_ok:
  assumes "book_abs (book e) A" "ainv A"
  obtains tp where "read_top e = Some tp" "top_ok tp"
proof -
  have px: "is_s64 (oprice x)" if "x \<in> set (aside s A)" for x s
    using ainv_orderD [OF assms(2) that] by (simp add: order_ok_def)
  have "is_s64 (best_bid (book e))"
    using px [of _ Buy] by (cases "abids A") (simp_all add: best_bid_abs [OF assms(1)])
  moreover have "is_s64 (best_ask (book e))"
    using px [of _ Sell] by (cases "aasks A")
      (simp_all add: best_ask_abs [OF assms(1)], simp add: is_s64_def int64_min_def int64_max_def)
  moreover obtain bs where "(if best_bid (book e) > 0 then qty_at Buy (best_bid (book e)) (book e) else Some 0) = Some bs"
    "is_s64 bs"
    by (cases "0 < best_bid (book e)") (auto simp: qty_at_abs [OF assms(1)])
  moreover obtain az where
    "(if best_ask (book e) < int64_max then qty_at Sell (best_ask (book e)) (book e) else Some 0) = Some az" "is_s64 az"
    by (cases "best_ask (book e) < int64_max") (auto simp: qty_at_abs [OF assms(1)])
  ultimately show ?thesis
    using that unfolding read_top_def Let_def by (simp add: top_ok_def)
qed

lemma side_char_ok: "plain_msg m \<Longrightarrow> side_char m \<noteq> SOH"
  by (cases "msg_get SideTag m") (auto simp: plain_msg_def plain_value_def side_char_def SOH_def dest: spec [of _ SideTag])

lemma placed_trades:
  assumes "book_reach cap (book e)" "cmd_grd (Place sd px q) (book e)"
  obtains e' A' where "engine_place_limit sd px q e = Some (next_id (book e), e')"
    "book_reach cap (book e')" "book_abs (book e') A'" "ainv A'" "next_id (book e') = Suc (next_id (book e))"
    "trades_ok (last_trades e')" "filled_by (length (last_trades e')) (last_trades e') \<le> q \<or> last_trades e' = []"
    "length (last_trades e') \<le> cap"
proof -
  obtain A tr A' e' where A: "book_abs (book e) A" "ainv A" "acap A = cap"
    and ap: "aplace sd px q A = (next_id (book e), tr, A')"
    and run: "engine_place_limit sd px q e = Some (next_id (book e), e')" "last_trades e' = tr"
      "book_abs (book e') A'" "ainv A'" "book_reach cap (book e')" "next_id (book e') = Suc (next_id (book e))"
    by (rule engine_place_cases [OF assms])
  obtain r ys where f: "fill (opposite sd) (anext_id A) px q (aside (opposite sd) A) = (tr, r, ys)"
    by (rule aplace_parts [OF ap])
  note pos = ainv_pos [OF A(2), of "opposite sd"]
  have q: "is_s64 q" using assms(2) by simp
  have none: "tr = []" if "q \<le> 0"
    using f that by simp
  have fill: "sum_list (map trade_qty tr) = q - r" "0 \<le> r" if "0 < q"
    using fill_traded(1) [OF f] fill_remaining(1) [OF f _ pos] that by auto
  have each: "0 < trade_qty t \<and> is_s64 (trade_qty t) \<and> is_s64 (trade_price t)" if t: "t \<in> set tr" for t
  proof -
    have "0 < q" using none t by (cases "0 < q") auto
    have p: "0 < trade_qty t" using fill_trades [OF f pos t] by blast
    have "trade_qty t \<le> sum_list (map trade_qty tr)"
      using fill_trades [OF f pos] t by (intro member_le_sum_list) (auto simp: less_imp_le)
    then have "is_s64 (trade_qty t)"
      using p fill [OF \<open>0 < q\<close>] q by (simp add: is_s64_def int64_min_def)
    moreover have "trade_price t \<in> oprice ` set (aside (opposite sd) A)"
    proof -
      have "trade_price t \<in> set (map trade_price tr)"
        using t by simp
      then show ?thesis
        unfolding fill_prefix(3) [OF f] by (auto dest: in_set_takeD)
    qed
    then have "is_s64 (trade_price t)"
      using ainv_orderD [OF A(2)] by (auto simp: order_ok_def)
    ultimately show ?thesis using p by blast
  qed
  have "length (aside (opposite sd) A) \<le> cap"
    using A(2,3) length_resting [of A sd] by (simp add: ainv_def)
  then have "length tr \<le> cap"
    using fill_prefix(1) [OF f] by simp
  then show ?thesis
    using that [of e' A'] run each fill none q
    by (cases "0 < q") (auto simp: trades_ok_def filled_by_def)
qed

text \<open>The reports of a placement can be sent.\<close>

lemma placed_report_ok:
  assumes "plain_msg m" "order_id < 2 ^ 64" "is_s64 q" "trades_ok ts" "filled_by (length ts) ts \<le> q \<or> ts = []"
    and x: "x = rest_report (base_report (msg_get ClOrdID m) order_id (side_char m) (msg_get Symbol m) (double_of q)) q ts \<or>
      (\<exists>j avg. j < length ts \<and> fin_le avg avg_bound \<and>
        x = trade_report (base_report (msg_get ClOrdID m) order_id (side_char m) (msg_get Symbol m) (double_of q))
          q (filled_by (Suc j) ts) (ts ! j) b avg)"
  shows "out_ok (Report x)"
proof -
  have num: "length (print_f 0 (double_of k)) \<le> 63" "length (print_f 2 (from_ticks k)) \<le> 63" if "is_s64 k" for k
    using int_print [OF that] by simp_all
  have zero: "length (print_f N dzero) \<le> 63" if "N \<le> 60" for N
    using zero_print [of N] that by simp
  have avg: "length (print_f 4 d) \<le> 63" if "fin_le d avg_bound" for d
  proof -
    have "avg_bound \<le> 10 ^ 53"
      by (simp add: avg_bound_def)
    from print_f_length [OF fin_le_mono [OF that this], of 4] show ?thesis by simp
  qed
  have part: "is_s64 (filled_by k ts)" "is_s64 (q - filled_by k ts)" for k
  proof -
    have "filled_by k ts \<le> filled_by (length ts) ts"
      using filled_by_mono [OF assms(4)] by simp
    then have "0 \<le> filled_by k ts" "ts \<noteq> [] \<longrightarrow> filled_by k ts \<le> q"
      using assms(5) filled_by_nonneg [OF assms(4), of k] by auto
    then show "is_s64 (filled_by k ts)" "is_s64 (q - filled_by k ts)"
      using assms(3) is_s64_diff(1) [OF assms(3), of "filled_by k ts"]
        is_s64_between [OF is_s64_0 assms(3), of "filled_by k ts"]
      by (cases "ts = []"; simp add: filled_by_def)+
  qed
  have t: "is_s64 (trade_qty (ts ! j))" "is_s64 (trade_price (ts ! j))" if "j < length ts" for j
    using assms(4) nth_mem [OF that] by (auto simp: trades_ok_def)
  have v: "plain_value (msg_get ClOrdID m)" "plain_value (msg_get Symbol m)" "side_char m \<noteq> SOH"
    using assms(1) side_char_ok by (auto simp: plain_msg_def)
  have chars: "EX_NEW \<noteq> SOH" "EX_FILL \<noteq> SOH" "EX_PARTIAL_FILL \<noteq> SOH" "OS_NEW \<noteq> SOH" "OS_FILLED \<noteq> SOH"
    "OS_PARTIAL_FILL \<noteq> SOH"
    by code_simp+
  from x show ?thesis
  proof
    assume "x = rest_report (base_report (msg_get ClOrdID m) order_id (side_char m) (msg_get Symbol m) (double_of q)) q ts"
    then show ?thesis
      using v chars num(1) [OF assms(3)] num(1) [OF part(1)] num(1) [OF part(2)] zero [of 0] zero [of 2]
        zero [of 4] assms(2)
      by (simp add: rest_report_def base_report_def short_report_def)
  next
    assume "\<exists>j avg. j < length ts \<and> fin_le avg avg_bound \<and>
        x = trade_report (base_report (msg_get ClOrdID m) order_id (side_char m) (msg_get Symbol m) (double_of q))
          q (filled_by (Suc j) ts) (ts ! j) b avg"
    then obtain j a where j: "j < length ts" and a: "fin_le a avg_bound" and
      xj: "x = trade_report (base_report (msg_get ClOrdID m) order_id (side_char m) (msg_get Symbol m) (double_of q))
          q (filled_by (Suc j) ts) (ts ! j) b a"
      by blast
    show ?thesis
      using v chars num(1) [OF assms(3)] num(1) [OF part(1)] num(1) [OF part(2)] num(1) [OF t(1) [OF j]]
        num(2) [OF t(2) [OF j]] avg [OF a] assms(2)
      by (simp add: xj trade_report_def base_report_def short_report_def)
  qed
qed

text \<open>The first phase of the order handler in terms of these definitions.\<close>

lemma new_order_rejected:
  "rejected m \<Longrightarrow> new_order_plan m g =
     Some ([Report (base_report (msg_get ClOrdID m) 0 (side_char m) (msg_get Symbol m) (order_qty_of m))],
       g\<lparr>orders := inc64 (orders g)\<rparr>)"
  by (simp add: new_order_plan_def Let_def rejected_def order_qty_of_def price_of_def)

lemma new_order_accepted:
  assumes "\<not> rejected m" "to_ticks (price_of m) = Some px" "to_int64 (order_qty_of m) = Some q"
    and "engine_place_limit (order_side m) px q (g_engine g) = Some (i, e')" "read_top e' = Some tp"
    and "order_reports (base_report (msg_get ClOrdID m) i (side_char m) (msg_get Symbol m) (double_of q)) q
      (last_trades e') = Some xs"
  shows "new_order_plan m g =
    Some (map Report xs @ (if g_feed g \<noteq> None then [Publish (msg_get Symbol m) tp] else []),
      g\<lparr>orders := inc64 (orders g), g_engine := e'\<rparr>)"
proof -
  have e: "g_engine (g\<lparr>orders := n\<rparr>) = g_engine g" "g_feed (g\<lparr>orders := n\<rparr>) = g_feed g" for n
    by simp_all
  show ?thesis
    unfolding new_order_plan_def Let_def order_qty_of_def [symmetric] price_of_def [symmetric]
      rejected_def [symmetric] order_side_def [symmetric] if_not_P [OF assms(1)] e
    by (simp add: assms(2-6) del: tag_values)
qed

text \<open>The part of a handler under the mutex, and a whole handler.\<close>

definition ids_used :: "gateway \<Rightarrow> gateway \<Rightarrow> bool" where
  "ids_used g g' \<longleftrightarrow> g_cfg g' = g_cfg g \<and> g_running g' = g_running g \<and>
     next_id (book (g_engine g')) \<le> Suc (next_id (book (g_engine g)))"

definition plan_ok :: "nat \<Rightarrow> gateway \<Rightarrow> (out_msg list \<times> gateway) option \<Rightarrow> bool" where
  "plan_ok cap g r \<longleftrightarrow>
     (\<exists>ms g1. r = Some (ms, g1) \<and> (\<forall>m \<in> set ms. out_ok m) \<and> gw_ok cap g1 \<and> ids_used g g1)"

definition handled :: "nat \<Rightarrow> gateway \<Rightarrow> (session \<times> gateway) option \<Rightarrow> bool" where
  "handled cap g r \<longleftrightarrow> (\<exists>s' g'. r = Some (s', g') \<and> sess_inv s' g' \<and> gw_ok cap g' \<and> ids_used g g')"

text \<open>The plan of an accepted order.\<close>

lemma order_planned:
  assumes "gw_ok cap g" "plain_msg m" "int (next_id (book (g_engine g))) + 1 < 2 ^ 64"
    and "\<not> rejected m" "to_ticks (price_of m) = Some px" "to_int64 (order_qty_of m) = Some q"
    and base: "base = base_report (msg_get ClOrdID m) (next_id (book (g_engine g))) (side_char m) (msg_get Symbol m) (double_of q)"
  obtains e' tp xs where
    "engine_place_limit (order_side m) px q (g_engine g) = Some (next_id (book (g_engine g)), e')"
    "new_order_plan m g = Some (map Report xs @ (if g_feed g \<noteq> None then [Publish (msg_get Symbol m) tp] else []),
       g\<lparr>orders := inc64 (orders g), g_engine := e'\<rparr>)"
    "gw_ok cap (g\<lparr>orders := inc64 (orders g), g_engine := e'\<rparr>)" "next_id (book e') = Suc (next_id (book (g_engine g)))"
    "top_ok tp" "\<forall>x \<in> set xs. out_ok (Report x)" "trades_ok (last_trades e')"
    "filled_by (length (last_trades e')) (last_trades e') \<le> q \<or> last_trades e' = []"
    "length xs = length (last_trades e') +
       (if last_trades e' = [] \<or> filled_by (length (last_trades e')) (last_trades e') < q then 1 else 0)"
    "\<And>j. j < length (last_trades e') \<Longrightarrow> \<exists>avg. xs ! j = trade_report base q
       (filled_by (Suc j) (last_trades e')) (last_trades e' ! j) (Suc j = length (last_trades e')) avg"
    "last_trades e' = [] \<or> filled_by (length (last_trades e')) (last_trades e') < q \<Longrightarrow>
       last xs = rest_report base q (last_trades e')"
proof -
  let ?e = "g_engine g"
  have s64: "is_s64 px" "is_s64 q"
    using assms(5,6) to_int64_s64 by (auto simp: to_ticks_def)
  have reach: "book_reach cap (book ?e)" and grd: "cmd_grd (Place (order_side m) px q) (book ?e)"
    using assms(1,3) s64 by (auto simp: gw_ok_def)
  obtain e' A' where run: "engine_place_limit (order_side m) px q ?e = Some (next_id (book ?e), e')"
    "book_reach cap (book e')" "next_id (book e') = Suc (next_id (book ?e))"
    and A': "book_abs (book e') A'" "ainv A'" and tr: "trades_ok (last_trades e')"
    "filled_by (length (last_trades e')) (last_trades e') \<le> q \<or> last_trades e' = []" "length (last_trades e') \<le> cap"
    by (rule placed_trades [OF reach grd])
  obtain tp where tp: "read_top e' = Some tp" "top_ok tp"
    by (rule read_top_ok [OF A'])
  define ts where "ts = last_trades e'"
  define tail where "tail = (if ts = [] \<or> filled_by (length ts) ts < q then [rest_report base q ts] else [])"
  have "int (length ts) \<le> 2 ^ 53"
    using tr(3) assms(1) by (simp add: gw_ok_def ts_def)
  from order_reports_spec [OF tr(1) s64(2) tr(2), folded ts_def, OF this, of base] obtain fs where
    reps: "order_reports base q ts = Some (fs @ tail)" and len: "length fs = length ts"
    and fs: "\<And>j. j < length ts \<Longrightarrow> \<exists>avg. fin_le avg avg_bound \<and>
      fs ! j = trade_report base q (filled_by (Suc j) ts) (ts ! j) (Suc j = length ts) avg"
    unfolding tail_def by blast
  have "next_id (book ?e) < 2 ^ 64"
    using assms(3) by simp
  note report = placed_report_ok [OF assms(2) this s64(2) tr(1,2), folded base ts_def]
  have ok: "\<forall>x \<in> set (fs @ tail). out_ok (Report x)"
  proof
    fix x assume "x \<in> set (fs @ tail)"
    then consider j where "j < length ts" "x = fs ! j" | "x = rest_report base q ts"
      using len by (auto simp: tail_def in_set_conv_nth split: if_splits)
    then show "out_ok (Report x)"
      using fs report by cases blast+
  qed
  have gw: "gw_ok cap (g\<lparr>orders := inc64 (orders g), g_engine := e'\<rparr>)"
    using assms(1) run(2) by (simp add: gw_ok_def)
  have each: "\<exists>avg. (fs @ tail) ! j = trade_report base q (filled_by (Suc j) ts) (ts ! j) (Suc j = length ts) avg"
    if "j < length ts" for j
    using fs [OF that] that len by (auto simp: nth_append)
  show ?thesis
    by (rule that [of e' "fs @ tail" tp, folded ts_def, OF run(1) _ gw run(3) tp(2) ok tr(1,2) [folded ts_def] _ each])
      (use new_order_accepted [OF assms(4-6) run(1) tp(1) reps [unfolded base ts_def]] len in \<open>auto simp: tail_def\<close>)
qed

lemma new_order_plan_ok:
  assumes "gw_ok cap g" "plain_msg m" "order_defined m" "int (next_id (book (g_engine g))) + 1 < 2 ^ 64"
  shows "plan_ok cap g (new_order_plan m g)"
proof (cases "rejected m")
  case True
  note new_order_rejected [OF True, of g]
  moreover have "out_ok (Report (base_report (msg_get ClOrdID m) 0 (side_char m) (msg_get Symbol m) (order_qty_of m)))"
  proof -
    have "EX_REJECTED \<noteq> SOH" "OS_REJECTED \<noteq> SOH"
      by code_simp+
    moreover have "length (print_f 0 (order_qty_of m)) \<le> 63"
      using assms(3) True by (simp add: order_defined_def)
    ultimately show ?thesis
      using assms(2) side_char_ok [OF assms(2)] zero_print [of 0] zero_print [of 2] zero_print [of 4]
      by (simp add: base_report_def short_report_def plain_msg_def)
  qed
  ultimately show ?thesis
    using assms(1) by (simp add: plan_ok_def gw_ok_def ids_used_def)
next
  case False
  obtain px q where num: "to_ticks (price_of m) = Some px" "to_int64 (order_qty_of m) = Some q"
    using assms(3) False by (auto simp: order_defined_def)
  obtain e' tp xs where "new_order_plan m g = Some (map Report xs @ (if g_feed g \<noteq> None then [Publish (msg_get Symbol m) tp] else []),
      g\<lparr>orders := inc64 (orders g), g_engine := e'\<rparr>)"
    "gw_ok cap (g\<lparr>orders := inc64 (orders g), g_engine := e'\<rparr>)" "next_id (book e') = Suc (next_id (book (g_engine g)))"
    "top_ok tp" "\<forall>x \<in> set xs. out_ok (Report x)"
    by (rule order_planned [OF assms(1,2,4) False num refl])
  then show ?thesis
    unfolding plan_ok_def ids_used_def by fastforce
qed

lemma cancel_plan_ok:
  assumes "gw_ok cap g" "plain_msg m"
  shows "plan_ok cap g (cancel_plan m g)"
proof -
  have "book_reach cap (book (g_engine g))"
    using assms(1) by (simp add: gw_ok_def)
  then obtain hit e' where "engine_cancel (u64 (msg_get_int OrderID 0 m)) (g_engine g) = Some (hit, e')"
    "book_reach cap (book e')" "next_id (book e') = next_id (book (g_engine g))"
    by (rule engine_cancel_cases) blast
  moreover have "u64 (msg_get_int OrderID 0 m) < 2 ^ 64"
    by (rule u64_less)
  moreover have "EX_CANCELED \<noteq> SOH" "EX_REJECTED \<noteq> SOH" "OS_CANCELED \<noteq> SOH" "OS_REJECTED \<noteq> SOH"
    by code_simp+
  ultimately show ?thesis
    using assms side_char_ok [OF assms(2)] zero_print [of 0] zero_print [of 2] zero_print [of 4]
    by (simp add: plan_ok_def cancel_plan_def Let_def base_report_def short_report_def plain_msg_def gw_ok_def
        ids_used_def)
qed

lemma md_plan_ok:
  assumes "gw_ok cap g" "plain_msg m"
  shows "plan_ok cap g (md_plan m g)"
proof -
  obtain A where "book_abs (book (g_engine g)) A" "ainv A"
    using book_reach_abs [of cap "book (g_engine g)"] assms(1) by (auto simp: gw_ok_def)
  then obtain tp where "read_top (g_engine g) = Some tp" "top_ok tp"
    by (rule read_top_ok)
  then show ?thesis
    using assms by (simp add: plan_ok_def md_plan_def plain_msg_def ids_used_def)
qed

text \<open>A received frame that the gateway can answer.\<close>

definition frame_fits :: "string \<Rightarrow> bool" where
  "frame_fits f \<longleftrightarrow> length f \<le> max_value \<and>
     (case parse_frame f of (ok, m) \<Rightarrow> ok \<and> msg_type m = CHR ''D'' \<longrightarrow> order_defined m)"

lemma handled_plan:
  assumes "delivers net" "sess_inv s g" "plan_ok cap g r"
  shows "handled cap g (do { (xs, g1) \<leftarrow> r; perform_all net xs s g1 })"
proof -
  obtain ms g1 where r: "r = Some (ms, g1)" "\<forall>m \<in> set ms. out_ok m" "gw_ok cap g1" "ids_used g g1"
    using assms(3) by (auto simp: plan_ok_def)
  have "sess_inv s g1"
    using r(4) by (intro sess_inv_cong [OF assms(2)]) (auto simp: ids_used_def)
  then obtain s' g' where p: "perform_all net ms s g1 = Some (s', g')" "sess_inv s' g'" "same_shared g1 g'"
    by (rule perform_all_ok [OF assms(1) _ r(3,2)])
  have "do { (xs, g1) \<leftarrow> r; perform_all net xs s g1 } = Some (s', g')"
    using r(1) p(1) by simp
  moreover have "ids_used g g'"
    using r(4) p(3) unfolding ids_used_def same_shared_def by metis
  ultimately show ?thesis
    using p(2) gw_ok_shared [OF r(3) p(3)] unfolding handled_def by blast
qed

lemma ids_used_refl [simp]: "ids_used g g"
  by (simp add: ids_used_def)

lemma logout_emits:
  assumes "delivers net" "sess_inv s g" "plain_value txt"
  obtains s' where "send_logout net txt s g = Some s'" "emits s g s'"
proof -
  have body: "body_ok (CHR ''5'') s g (logout_fields txt)"
    using assms(2,3) by (intro text_body) (auto simp: sess_inv_def)
  then have fits: "fits_frame (CHR ''5'') s g (logout_fields txt)"
    by (simp add: body_ok_def)
  obtain s' where s': "send_logout net txt s g = Some s'" "sent s (out_frame (CHR ''5'') s g (logout_fields txt)) s'"
    by (rule logout_sent [OF assms(1) fits])
  have "emits s g s'"
    unfolding emits_def using body s'(2) by (intro exI [of _ "CHR ''5''"]) (auto simp: SOH_def)
  then show ?thesis
    using that s'(1) by blast
qed

lemma logout_ok:
  assumes "delivers net" "sess_inv s g" "plain_value txt"
  obtains s' where "send_logout net txt s g = Some s'" "sess_inv s' g" "same_peer s s'"
  using logout_emits [OF assms] emits_inv [OF assms(2)] emits_same by metis

lemma logon_emits:
  assumes "delivers net" "sess_inv s g" "plain_msg m"
  obtains s' where "on_logon net m s g = Some (s', g)" "sess_inv s' g"
    "emits (s\<lparr>sender_comp := msg_get SenderCompID m, logged_on := True\<rparr>) g s'"
    "sess_inv (s\<lparr>sender_comp := msg_get SenderCompID m, logged_on := True\<rparr>) g"
proof -
  let ?s = "s\<lparr>sender_comp := msg_get SenderCompID m, logged_on := True\<rparr>"
  have inv: "sess_inv ?s g"
    using assms(2,3) by (simp add: sess_inv_def sess_ok_def stream_ok_def plain_msg_def)
  have body: "body_ok (CHR ''A'') ?s g logon_fields"
    using inv by (intro logon_body) (simp add: sess_inv_def)
  then have fits: "fits_frame (CHR ''A'') ?s g logon_fields"
    by (simp add: body_ok_def)
  obtain s' where s': "send_logon_ack net ?s g = Some s'" "sent ?s (out_frame (CHR ''A'') ?s g logon_fields) s'"
    by (rule logon_sent [OF assms(1) fits])
  have "emits ?s g s'"
    unfolding emits_def using body s'(2) by (intro exI [of _ "CHR ''A''"]) (auto simp: SOH_def)
  then show ?thesis
    using that s'(1) emits_inv [OF inv] inv by (simp add: on_logon_def)
qed

lemma logon_ok:
  assumes "delivers net" "sess_inv s g" "gw_ok cap g" "plain_msg m"
  shows "handled cap g (on_logon net m s g)"
  using logon_emits [OF assms(1,2,4)] assms(3) by (metis handled_def ids_used_refl)

lemma literal_plain:
  "plain_value ''bye''" "plain_value ''not logged on''" "plain_value ''malformed FIX frame''"
  "plain_value ''parse failed''"
  by (simp_all add: plain_value_def max_value_def SOH_def)

lemma sess_inv_stop: "sess_inv s g \<Longrightarrow> sess_inv (s\<lparr>s_running := r\<rparr>) g"
  by (erule sess_inv_cong) simp_all

lemma handled_if: "(c \<Longrightarrow> handled cap g x) \<Longrightarrow> (\<not> c \<Longrightarrow> handled cap g y) \<Longrightarrow> handled cap g (if c then x else y)"
  by simp

lemma handle_message_ok:
  assumes "delivers net" "sess_inv s g" "gw_ok cap g" "plain_msg m"
    and "msg_type m = CHR ''D'' \<longrightarrow> order_defined m" "int (next_id (book (g_engine g))) + 1 < 2 ^ 64"
  shows "handled cap g (handle_message net m s g)"
proof -
  have out: "handled cap g (do { s1 \<leftarrow> send_logout net v s g; Some (s1\<lparr>s_running := False\<rparr>, g) })"
    if v: "plain_value v" for v
  proof -
    obtain s1 where "send_logout net v s g = Some s1" "sess_inv s1 g"
      by (rule logout_ok [OF assms(1,2) v])
    then show ?thesis
      using assms(3) sess_inv_stop by (simp add: handled_def)
  qed
  have same: "handled cap g (Some (s, g))"
    using assms(2,3) by (simp add: handled_def)
  have new: "handled cap g (on_new_order net m s g)" if "msg_type m = CHR ''D''"
    unfolding on_new_order_def using assms that by (intro handled_plan new_order_plan_ok) simp_all
  have cancel: "handled cap g (on_cancel net m s g)"
    unfolding on_cancel_def by (rule handled_plan [OF assms(1,2) cancel_plan_ok [OF assms(3,4)]])
  have md: "handled cap g (on_md_request net m s g)"
    unfolding on_md_request_def by (rule handled_plan [OF assms(1,2) md_plan_ok [OF assms(3,4)]])
  show ?thesis
    unfolding handle_message_def Let_def on_logout_def on_heartbeat_def
    by (intro handled_if out literal_plain logon_ok [OF assms(1-4)] new cancel md same)
qed

section \<open>The receive loop\<close>

text \<open>Every frame that starts anywhere in the stream can be answered.\<close>

definition stream_fits :: "string \<Rightarrow> bool" where
  "stream_fits st \<longleftrightarrow> (\<forall>k f n. split_frame (drop k st) = FrameOk f n \<longrightarrow> frame_fits f)"

lemma stream_fits_drop: "stream_fits st \<Longrightarrow> stream_fits (drop k st)"
  by (simp add: stream_fits_def)

lemma split_frame_Nil: "split_frame [] = Incomplete"
  by code_simp

lemma stream_fits_prefix:
  assumes "stream_fits (a @ b)"
  shows "stream_fits a"
  unfolding stream_fits_def
proof (intro allI impI)
  fix k f n assume f: "split_frame (drop k a) = FrameOk f n"
  then have "k \<le> length a"
    using split_frame_Nil by (cases "k \<le> length a") auto
  then have "split_frame (drop k (a @ b)) = FrameOk f n"
    using split_frame_append [OF f, of b] by simp
  then show "frame_fits f"
    using assms unfolding stream_fits_def by blast
qed

lemma frame_msg:
  assumes "frame_fits f" "parse_frame f = (True, m)"
  shows "plain_msg m" "msg_type m = CHR ''D'' \<longrightarrow> order_defined m"
proof -
  have "length (msg_get t m) \<le> max_value" for t
    using parse_frame_value(2) [OF assms(2), of t] assms(1) by (simp add: frame_fits_def)
  then show "plain_msg m"
    using parse_frame_value(1) [OF assms(2)] by (simp add: plain_msg_def plain_value_def)
  show "msg_type m = CHR ''D'' \<longrightarrow> order_defined m"
    using assms by (simp add: frame_fits_def)
qed

definition ids_room :: "gateway \<Rightarrow> nat \<Rightarrow> bool" where
  "ids_room g n \<longleftrightarrow> int (next_id (book (g_engine g))) + int n < 2 ^ 64"

text \<open>A drained buffer: what is left is a rest of it, and no more identifiers than bytes were used.\<close>

definition drained :: "nat \<Rightarrow> string \<Rightarrow> gateway \<Rightarrow> (session \<times> gateway) option \<Rightarrow> bool" where
  "drained cap rx g r \<longleftrightarrow>
     (\<exists>s' g' k. r = Some (s', g') \<and> sess_inv s' g' \<and> gw_ok cap g' \<and> g_cfg g' = g_cfg g \<and>
       g_running g' = g_running g \<and> k \<le> length rx \<and> rx_buf s' = drop k rx \<and>
       next_id (book (g_engine g')) \<le> next_id (book (g_engine g)) + k)"

lemma drained_stop:
  assumes "delivers net" "sess_inv s g" "gw_ok cap g" "plain_value v"
  shows "drained cap rx g (do { s1 \<leftarrow> send_logout net v s g; Some (s1\<lparr>s_running := False, rx_buf := rx\<rparr>, g) })"
proof -
  obtain s1 where s1: "send_logout net v s g = Some s1" "sess_inv s1 g"
    by (rule logout_ok [OF assms(1,2,4)])
  have "sess_inv (s1\<lparr>s_running := False, rx_buf := rx\<rparr>) g"
    by (rule sess_inv_cong [OF s1(2)]) simp_all
  then show ?thesis
    unfolding drained_def using s1(1) assms(3)
    by (intro exI [of _ "s1\<lparr>s_running := False, rx_buf := rx\<rparr>"] exI [of _ g] exI [of _ 0]) simp
qed

lemma drain_frames_ok:
  assumes "delivers net"
  shows "sess_inv s g \<Longrightarrow> gw_ok cap g \<Longrightarrow> stream_fits rx \<Longrightarrow> ids_room g (length rx) \<Longrightarrow>
    drained cap rx g (drain_frames net rx s g)"
proof (induction "length rx" arbitrary: rx s g rule: less_induct)
  case less
  show ?case
  proof (cases "split_frame rx")
    case Incomplete
    have "sess_inv (s\<lparr>rx_buf := rx\<rparr>) g"
      by (rule sess_inv_cong [OF less.prems(1)]) simp_all
    then show ?thesis
      using less.prems(2) unfolding drained_def
      by (subst drain_frames.simps, intro exI [of _ "s\<lparr>rx_buf := rx\<rparr>"] exI [of _ g] exI [of _ 0])
        (simp add: Incomplete)
  next
    case Malformed
    then show ?thesis
      using drained_stop [OF assms less.prems(1,2) literal_plain(3)] by (subst drain_frames.simps) simp
  next
    case (FrameOk f n)
    note n = split_frame_ok(1,2) [OF FrameOk]
    obtain ok m where pf: "parse_frame f = (ok, m)"
      by fastforce
    show ?thesis
    proof (cases ok)
      case False
      then show ?thesis
        using drained_stop [OF assms less.prems(1,2) literal_plain(4)] FrameOk pf
        by (subst drain_frames.simps) simp
    next
      case True
      let ?s = "s\<lparr>in_seq := inc32 (in_seq s)\<rparr>"
      have fits: "frame_fits f"
        using less.prems(3) FrameOk unfolding stream_fits_def by (metis drop0)
      have inv: "sess_inv ?s g"
        by (rule sess_inv_cong [OF less.prems(1)]) simp_all
      have "int (next_id (book (g_engine g))) + 1 < 2 ^ 64"
        using less.prems(4) n unfolding ids_room_def by linarith
      from handle_message_ok [OF assms inv less.prems(2) frame_msg [OF fits] this] pf True
      obtain s1 g1 where h: "handle_message net m ?s g = Some (s1, g1)" "sess_inv s1 g1" "gw_ok cap g1" "ids_used g g1"
        by (auto simp: handled_def)
      have "ids_room g1 (length (drop n rx))"
        using less.prems(4) h(4) n unfolding ids_room_def ids_used_def length_drop by linarith
      then have "drained cap (drop n rx) g1 (drain_frames net (drop n rx) s1 g1)"
        using n by (intro less.hyps h stream_fits_drop [OF less.prems(3)]) simp
      then obtain s' g' k where r: "drain_frames net (drop n rx) s1 g1 = Some (s', g')" "sess_inv s' g'" "gw_ok cap g'"
        "g_cfg g' = g_cfg g1" "g_running g' = g_running g1" "k \<le> length (drop n rx)" "rx_buf s' = drop k (drop n rx)"
        "next_id (book (g_engine g')) \<le> next_id (book (g_engine g1)) + k"
        unfolding drained_def by blast
      have "drain_frames net rx s g = Some (s', g')"
        using FrameOk pf True h(1) r(1) by (subst drain_frames.simps) simp
      then show ?thesis
        unfolding drained_def using r h(4) n
        by (intro exI [of _ s'] exI [of _ g'] exI [of _ "n + k"]) (auto simp: ids_used_def add.commute)
    qed
  qed
qed

lemma session_loop_ok:
  assumes "delivers net" "sess_inv s g" "gw_ok cap g" "stream_fits (rx_buf s @ concat cs)"
    and "ids_room g (length (rx_buf s @ concat cs))"
  shows "\<exists>s' g'. session_loop net cs s g = Some (s', g') \<and> sess_inv s' g' \<and> gw_ok cap g' \<and> g_cfg g' = g_cfg g"
  using assms(2-)
proof (induction cs arbitrary: s g)
  case Nil
  have "sess_inv (close_session s) g"
    by (rule sess_inv_cong [OF Nil(1)]) (simp_all add: close_session_def)
  then show ?case using Nil by simp
next
  case (Cons c cs)
  have fits: "stream_fits (rx_buf s @ c)"
    by (rule stream_fits_prefix [of _ "concat cs"]) (use Cons.prems(3) in simp)
  have "ids_room g (length (rx_buf s @ c))"
    using Cons.prems(4) unfolding ids_room_def by simp
  then have "drained cap (rx_buf s @ c) g (drain_frames net (rx_buf s @ c) s g)"
    by (rule drain_frames_ok [OF assms(1) Cons.prems(1,2) fits])
  then obtain s1 g1 k where r: "drain_frames net (rx_buf s @ c) s g = Some (s1, g1)" "sess_inv s1 g1" "gw_ok cap g1"
    "g_cfg g1 = g_cfg g" "k \<le> length (rx_buf s @ c)" "rx_buf s1 = drop k (rx_buf s @ c)"
    "next_id (book (g_engine g1)) \<le> next_id (book (g_engine g)) + k"
    unfolding drained_def by blast
  have rest: "rx_buf s1 @ concat cs = drop k (rx_buf s @ concat (c # cs))"
    using r(5,6) by simp
  have "ids_room g1 (length (rx_buf s1 @ concat cs))"
    using Cons.prems(4) r(5,7) unfolding rest ids_room_def length_drop by simp
  then have "\<exists>s' g'. session_loop net cs s1 g1 = Some (s', g') \<and> sess_inv s' g' \<and> gw_ok cap g' \<and> g_cfg g' = g_cfg g1"
    using Cons.IH [OF r(2,3)] stream_fits_drop [OF Cons.prems(3), of k] unfolding rest by blast
  moreover have "sess_inv (close_session s) g"
    by (rule sess_inv_cong [OF Cons.prems(1)]) (simp_all add: close_session_def)
  ultimately show ?case
    using r(1,4) Cons.prems(2) by auto
qed

end
