(* ===== verification/Gateway_Reports.thy ===== *)
theory Gateway_Reports
  imports Gateway_Session
begin

text \<open>
  The execution reports that a client reads off the wire after an order, and a small gateway on
  which the witnesses run.
\<close>

section \<open>Reading the reports off the wire\<close>

text \<open>The frame \<open>f\<close> is the report of a trade: \<open>c\<close> of the \<open>q\<close> units of order \<open>i\<close> are filled after it.\<close>

definition shows_fill :: "message \<Rightarrow> nat \<Rightarrow> quantity \<Rightarrow> quantity \<Rightarrow> trade \<Rightarrow> bool \<Rightarrow> string \<Rightarrow> bool" where
  "shows_fill m i q c t at_end f \<longleftrightarrow>
     (\<exists>r. parse_frame f = (True, r) \<and> msg_type r = CHR ''8'' \<and> msg_get OrderID r = dec i \<and>
       msg_get ClOrdID r = msg_get ClOrdID m \<and>
       msg_get OrdStatus r = (if at_end \<and> c = q then ''2'' else ''1'') \<and>
       msg_get CumQty r = to_chars c \<and> msg_get LeavesQty r = to_chars (q - c) \<and>
       msg_get LastQty r = to_chars (trade_qty t) \<and>
       (0 \<le> trade_price t \<and> trade_price t < 2 ^ 49 \<longrightarrow> msg_get LastPx r = cents (nat (trade_price t))))"

text \<open>The frame \<open>f\<close> acknowledges what is left of the order.\<close>

definition shows_rest :: "message \<Rightarrow> nat \<Rightarrow> quantity \<Rightarrow> trade list \<Rightarrow> string \<Rightarrow> bool" where
  "shows_rest m i q ts f \<longleftrightarrow>
     (\<exists>r. parse_frame f = (True, r) \<and> msg_type r = CHR ''8'' \<and> msg_get OrderID r = dec i \<and>
       msg_get ClOrdID r = msg_get ClOrdID m \<and> msg_get ExecType r = ''0'' \<and>
       msg_get OrdStatus r = (if ts = [] then ''0'' else ''1'') \<and>
       msg_get CumQty r = to_chars (filled_by (length ts) ts) \<and>
       msg_get LeavesQty r = to_chars (q - filled_by (length ts) ts))"

definition report_frame :: "exec_report \<Rightarrow> string \<Rightarrow> bool" where
  "report_frame x f \<longleftrightarrow>
     (\<exists>s g eid. comps_ok s g \<and> body_ok (CHR ''8'') s g (report_fields eid x) \<and> out_seq s < 2 ^ 32 \<and>
       f = out_frame (CHR ''8'') s g (report_fields eid x))"

lemma report_frame_read:
  assumes "report_frame x f"
  obtains r where "parse_frame f = (True, r)" "msg_type r = CHR ''8''" "msg_get OrderID r = dec (x_order_id x)"
    "msg_get ClOrdID r = x_cl_ord_id x" "msg_get ExecType r = [x_exec_type x]" "msg_get OrdStatus r = [x_ord_status x]"
    "msg_get OrderQty r = print_f 0 (x_order_qty x)" "msg_get CumQty r = print_f 0 (x_cum_qty x)"
    "msg_get LeavesQty r = print_f 0 (x_leaves_qty x)" "msg_get LastQty r = print_f 0 (x_last_qty x)"
    "msg_get LastPx r = print_f 2 (x_last_px x)"
proof -
  obtain s g eid where c: "comps_ok s g" "body_ok (CHR ''8'') s g (report_fields eid x)" "out_seq s < 2 ^ 32"
    and f: "f = out_frame (CHR ''8'') s g (report_fields eid x)"
    using assms by (auto simp: report_frame_def)
  let ?r = "decoded (CHR ''8'') s g (report_fields eid x)"
  have "parse_frame f = (True, ?r)"
    unfolding f by (rule out_frame_read(2) [OF c(1) _ c(2)]) (simp add: SOH_def)
  then show ?thesis
    using that [of ?r] decoded_head(4) [OF c(3)]
    by (simp add: decoded_get head_fields_def std_header_def report_fields_def MsgType_def SenderCompID_def
        TargetCompID_def MsgSeqNum_def)
qed

lemma perform_report:
  assumes "delivers net" "sess_inv s g" "gw_ok cap g" "out_ok (Report x)"
  obtains s' g' f where "perform net (Report x) s g = Some (s', g')" "wire s' = wire s @ f" "report_frame x f"
    "sess_inv s' g'" "same_shared g g'" "g_feed g' = g_feed g"
proof -
  have body: "body_ok (CHR ''8'') s g (report_fields (next_exec_id g) x)"
    using assms by (intro report_body) (auto simp: sess_inv_def gw_ok_def)
  then have fits: "fits_frame (CHR ''8'') s g (report_fields (next_exec_id g) x)"
    by (simp add: body_ok_def)
  have short: "short_report x"
    using assms(4) by simp
  let ?g = "g\<lparr>next_exec_id := inc64 (next_exec_id g), execs := inc64 (execs g)\<rparr>"
  obtain s' where s': "send_exec_report net x s g = Some (s', ?g)"
    "sent s (out_frame (CHR ''8'') s g (report_fields (next_exec_id g) x)) s'"
    by (rule report_sent [OF assms(1) short fits])
  have "emits s g s'"
    unfolding emits_def using body s'(2) by (intro exI [of _ "CHR ''8''"]) (auto simp: SOH_def)
  then have "sess_inv s' g"
    by (rule emits_inv [OF assms(2)])
  moreover have "same_shared g ?g"
    using inc64_less by (simp add: same_shared_def)
  moreover have "report_frame x (out_frame (CHR ''8'') s g (report_fields (next_exec_id g) x))"
    unfolding report_frame_def using body assms(2)
    by (intro exI [of _ s] exI [of _ g] exI [of _ "next_exec_id g"])
      (auto simp: sess_inv_def sess_ok_def plain_value_def comps_ok_def)
  ultimately show ?thesis
    using that [of s' ?g] s' sess_inv_shared by (auto simp: sent_def)
qed

lemma perform_reports:
  assumes "delivers net" "sess_inv s g" "gw_ok cap g" "\<forall>x \<in> set xs. out_ok (Report x)"
  obtains s' g' fs where "perform_all net (map Report xs) s g = Some (s', g')" "wire s' = wire s @ concat fs"
    "list_all2 report_frame xs fs" "sess_inv s' g'" "same_shared g g'" "g_feed g' = g_feed g"
proof -
  have "\<exists>s' g' fs. perform_all net (map Report xs) s g = Some (s', g') \<and> wire s' = wire s @ concat fs \<and>
    list_all2 report_frame xs fs \<and> sess_inv s' g' \<and> same_shared g g' \<and> g_feed g' = g_feed g"
    using assms(2-)
  proof (induction xs arbitrary: s g)
    case Nil
    then show ?case
      by (intro exI [of _ s] exI [of _ g] exI [of _ "[]"]) (simp add: same_shared_def gw_ok_def)
  next
    case (Cons x xs)
    obtain s1 g1 f where p: "perform net (Report x) s g = Some (s1, g1)" "wire s1 = wire s @ f" "report_frame x f"
      "sess_inv s1 g1" "same_shared g g1" "g_feed g1 = g_feed g"
      by (rule perform_report [OF assms(1) Cons.prems(1,2)]) (use Cons.prems(3) in auto)
    from Cons.IH [OF p(4) gw_ok_shared [OF Cons.prems(2) p(5)]] Cons.prems(3) obtain s' g' fs where
      r: "perform_all net (map Report xs) s1 g1 = Some (s', g')" "wire s' = wire s1 @ concat fs"
      "list_all2 report_frame xs fs" "sess_inv s' g'" "same_shared g1 g'" "g_feed g' = g_feed g1"
      by auto
    have "same_shared g g'"
      using p(5) r(5) by (simp add: same_shared_def)
    then show ?case
      using p r by (intro exI [of _ s'] exI [of _ g'] exI [of _ "f # fs"]) simp
  qed
  then show ?thesis using that by blast
qed

lemma perform_all_append:
  "perform_all net (xs @ ys) s g = do { (s', g') \<leftarrow> perform_all net xs s g; perform_all net ys s' g' }"
  by (induction xs arbitrary: s g) (simp_all split: Option.bind_splits)

lemma perform_publish:
  assumes "top_ok tp"
  obtains g' where "perform_all net (if b then [Publish symb tp] else []) s g = Some (s, g')"
    "g_engine g' = g_engine g" "g_cfg g' = g_cfg g"
proof (cases "b \<and> g_feed g \<noteq> None")
  case True
  then obtain f where f: "g_feed g = Some f" by auto
  obtain r f' where "publish_l1 (sendto_rc net) symb (from_ticks (top_bid_px tp)) (double_of (top_bid_sz tp))
     (ask_double (top_ask_px tp)) (double_of (top_ask_sz tp)) f = Some (r, f')"
    by (rule publish_ok [OF assms])
  then show ?thesis
    using that [of "g\<lparr>g_feed := Some f'\<rparr>"] f True by simp
next
  case False
  then show ?thesis
    using that [of g] by auto
qed

lemma filled_by_nth:
  "trades_ok ts \<Longrightarrow> j < length ts \<Longrightarrow> trade_qty (ts ! j) \<le> filled_by (Suc j) ts \<and> 0 < trade_qty (ts ! j)"
proof (induction ts arbitrary: j)
  case (Cons t ts)
  have ok: "trades_ok ts" "0 < trade_qty t"
    using Cons.prems(1) by (auto simp: trades_ok_def)
  show ?case
    using Cons.IH [OF ok(1)] Cons.prems(2) ok filled_by_nonneg [OF ok(1), of j] by (cases j) fastforce+
qed simp

lemma trade_report_read:
  assumes "report_frame (trade_report (base_report (msg_get ClOrdID m) i sc symb (double_of q)) q c t b avg) f"
    and "\<bar>q\<bar> \<le> 2 ^ 53" "0 \<le> c" "c \<le> q" "0 < trade_qty t" "trade_qty t \<le> q"
  shows "shows_fill m i q c t b f"
proof -
  obtain r where r: "parse_frame f = (True, r)" "msg_type r = CHR ''8''" "msg_get OrderID r = dec i"
    "msg_get ClOrdID r = msg_get ClOrdID m" "msg_get OrdStatus r = [if b \<and> c = q then OS_FILLED else OS_PARTIAL_FILL]"
    "msg_get CumQty r = print_f 0 (double_of c)" "msg_get LeavesQty r = print_f 0 (double_of (q - c))"
    "msg_get LastQty r = print_f 0 (double_of (trade_qty t))" "msg_get LastPx r = print_f 2 (from_ticks (trade_price t))"
    by (rule report_frame_read [OF assms(1)]) (simp add: trade_report_def base_report_def)
  have "print_f 0 (double_of c) = to_chars c" "print_f 0 (double_of (q - c)) = to_chars (q - c)"
    "print_f 0 (double_of (trade_qty t)) = to_chars (trade_qty t)"
    using assms(2-6) by (intro print_f_int; simp)+
  moreover have "print_f 2 (from_ticks (trade_price t)) = cents (nat (trade_price t))"
    if "0 \<le> trade_price t" "trade_price t < 2 ^ 49"
    using that from_ticks_cents [of "nat (trade_price t)"] print_cents [of "nat (trade_price t)"]
    by (simp add: nat_less_iff)
  ultimately show ?thesis
    unfolding shows_fill_def using r by (intro exI [of _ r]) (simp add: OS_FILLED_def OS_PARTIAL_FILL_def)
qed

lemma rest_report_read:
  assumes "report_frame (rest_report (base_report (msg_get ClOrdID m) i sc symb (double_of q)) q ts) f"
    and "\<bar>q\<bar> \<le> 2 ^ 53" "0 \<le> filled_by (length ts) ts" "filled_by (length ts) ts \<le> q \<or> ts = []"
  shows "shows_rest m i q ts f"
proof -
  let ?c = "filled_by (length ts) ts"
  obtain r where r: "parse_frame f = (True, r)" "msg_type r = CHR ''8''" "msg_get OrderID r = dec i"
    "msg_get ClOrdID r = msg_get ClOrdID m" "msg_get ExecType r = [EX_NEW]"
    "msg_get OrdStatus r = [if ts = [] then OS_NEW else OS_PARTIAL_FILL]"
    "msg_get CumQty r = print_f 0 (if ts = [] then dzero else double_of ?c)"
    "msg_get LeavesQty r = print_f 0 (double_of (q - ?c))"
    by (rule report_frame_read [OF assms(1)]) (simp add: rest_report_def base_report_def)
  have zero: "double_of 0 = dzero"
    by (simp add: double_of_exact dzero_def)
  have "print_f 0 (if ts = [] then dzero else double_of ?c) = to_chars ?c"
    using assms(2-4) print_f_int [of ?c] print_f_int [of 0] zero by auto
  moreover have "print_f 0 (double_of (q - ?c)) = to_chars (q - ?c)"
    using assms(2-4) by (intro print_f_int) auto
  ultimately show ?thesis
    unfolding shows_rest_def using r by (intro exI [of _ r]) (simp add: OS_NEW_def OS_PARTIAL_FILL_def EX_NEW_def)
qed

section \<open>A gateway for the witnesses\<close>

text \<open>The book of the earlier witnesses, over sockets that accept at most seven bytes per call.\<close>

definition demo_net :: net where
  "demo_net = \<lparr>send_rc = (\<lambda>i k. int (min 7 k)), sendto_rc = (\<lambda>i k. int k)\<rparr>"

definition demo_gw :: gateway where
  "demo_gw = (gateway_init gateway_config_default \<lparr>book = demo_book, trades_scratch = [], last_trades = []\<rparr> None)
     \<lparr>g_running := True\<rparr>"

definition demo_order :: message where
  "demo_order = \<lparr>msg_fields = [\<lparr>ftag = 35, fvalue = ''D''\<rparr>, \<lparr>ftag = 11, fvalue = ''A1''\<rparr>, \<lparr>ftag = 55, fvalue = ''X''\<rparr>,
     \<lparr>ftag = 54, fvalue = ''1''\<rparr>, \<lparr>ftag = 38, fvalue = ''20''\<rparr>, \<lparr>ftag = 44, fvalue = ''1.02''\<rparr>]\<rparr>"

lemma demo_delivers: "delivers demo_net"
  by (simp add: delivers_def send_bounded_def demo_net_def)

lemma demo_gw_ok: "gw_ok 8 demo_gw"
  using demo_reach by (simp add: gw_ok_def demo_gw_def gateway_init_def)

lemma session_init_wire [simp]: "wire (session_init fd) = []"
  by (simp add: session_init_def)

lemma session_init_inv:
  assumes "SOH \<notin> set (comp_id (g_cfg g))" "length (comp_id (g_cfg g)) \<le> 90000"
  shows "sess_inv (session_init fd) g"
  using assms by (auto simp: sess_inv_def sess_ok_def session_init_def plain_value_def stream_ok_def intro!: exI [of _ "[]"])

lemma demo_cfg: "SOH \<notin> set (comp_id (g_cfg demo_gw))" "length (comp_id (g_cfg demo_gw)) \<le> 90000"
  by (simp_all add: demo_gw_def gateway_init_def gateway_config_default_def SOH_def)

lemma demo_plain: "plain_msg demo_order"
  unfolding plain_msg_def msg_get_def
  using get_from_all [of "msg_fields demo_order" plain_value]
  by (simp add: demo_order_def plain_value_def SOH_def max_value_def)

section \<open>Properties\<close>

text \<open>
  C11.  The execution reports of an accepted order.  The handler returns, the engine has made exactly
  the placement of the order, and the client receives one report per trade and one for what is left
  (or a single one when nothing traded).  Read off the wire, the report of a trade shows the order,
  the cumulated and the remaining quantity after it, the quantity and the price of the trade, and the
  status \<open>Filled\<close> exactly on the trade that completes the order.
\<close>

theorem accepted_order_reports:
  assumes "delivers net" "sess_inv s g" "gw_ok cap g" "plain_msg m"
    and "\<not> rejected m" "to_ticks (price_of m) = Some px" "to_int64 (order_qty_of m) = Some q" "\<bar>q\<bar> \<le> 2 ^ 53"
    and "int (next_id (book (g_engine g))) + 1 < 2 ^ 64"
  shows "\<exists>s' g' e' fs. on_new_order net m s g = Some (s', g') \<and> g_engine g' = e' \<and>
    engine_place_limit (order_side m) px q (g_engine g) = Some (next_id (book (g_engine g)), e') \<and>
    wire s' = wire s @ concat fs \<and>
    (let ts = last_trades e'; i = next_id (book (g_engine g));
         complete = (ts \<noteq> [] \<and> filled_by (length ts) ts = q)
     in length fs = length ts + (if complete then 0 else 1) \<and>
        (\<forall>j < length ts. shows_fill m i q (filled_by (Suc j) ts) (ts ! j) (Suc j = length ts) (fs ! j)) \<and>
        (complete \<or> shows_rest m i q ts (last fs)))"
proof -
  define i where "i = next_id (book (g_engine g))"
  let ?b = "base_report (msg_get ClOrdID m) i (side_char m) (msg_get Symbol m) (double_of q)"
  obtain e' tp xs where run: "engine_place_limit (order_side m) px q (g_engine g) = Some (i, e')"
    and plan: "new_order_plan m g = Some (map Report xs @ (if g_feed g \<noteq> None then [Publish (msg_get Symbol m) tp] else []),
       g\<lparr>orders := inc64 (orders g), g_engine := e'\<rparr>)"
    and gw: "gw_ok cap (g\<lparr>orders := inc64 (orders g), g_engine := e'\<rparr>)" and tp: "top_ok tp" and ok: "\<forall>x \<in> set xs. out_ok (Report x)"
    and tr: "trades_ok (last_trades e')" "filled_by (length (last_trades e')) (last_trades e') \<le> q \<or> last_trades e' = []"
    and xs: "length xs = length (last_trades e') +
       (if last_trades e' = [] \<or> filled_by (length (last_trades e')) (last_trades e') < q then 1 else 0)"
    and fill: "\<And>j. j < length (last_trades e') \<Longrightarrow> \<exists>avg. xs ! j = trade_report ?b q
       (filled_by (Suc j) (last_trades e')) (last_trades e' ! j) (Suc j = length (last_trades e')) avg"
    and rest: "last_trades e' = [] \<or> filled_by (length (last_trades e')) (last_trades e') < q \<Longrightarrow>
       last xs = rest_report ?b q (last_trades e')"
    by (rule order_planned [OF assms(3,4,9,5-7) refl, folded i_def]) blast
  let ?g1 = "g\<lparr>orders := inc64 (orders g), g_engine := e'\<rparr>"
    and ?pub = "if g_feed g \<noteq> None then [Publish (msg_get Symbol m) tp] else []"
  define ts where "ts = last_trades e'"
  note defs = ts_def [symmetric]
  have "sess_inv s ?g1"
    by (rule sess_inv_cong [OF assms(2)]) simp_all
  from perform_reports [OF assms(1) this gw ok] obtain s1 g2 fs where
    p: "perform_all net (map Report xs) s ?g1 = Some (s1, g2)" "wire s1 = wire s @ concat fs"
    "list_all2 report_frame xs fs" "same_shared ?g1 g2"
    by blast
  obtain g3 where pub: "perform_all net ?pub s1 g2 = Some (s1, g3)" "g_engine g3 = g_engine g2"
    by (rule perform_publish [OF tp])
  have ret: "on_new_order net m s g = Some (s1, g3)"
    unfolding on_new_order_def plan using p(1) pub(1) by (simp add: perform_all_append)
  have len: "length fs = length xs" and each: "report_frame (xs ! j) (fs ! j)" if "j < length xs" for j
    using list_all2_lengthD [OF p(3)] list_all2_nthD [OF p(3) that] by simp_all
  have fills: "shows_fill m i q (filled_by (Suc j) ts) (ts ! j) (Suc j = length ts) (fs ! j)" if j: "j < length ts" for j
  proof -
    obtain avg where "report_frame (trade_report ?b q (filled_by (Suc j) ts) (ts ! j) (Suc j = length ts) avg) (fs ! j)"
      using fill [of j] each [of j] j xs unfolding defs by (metis trans_less_add1)
    moreover have "filled_by (Suc j) ts \<le> q" "trade_qty (ts ! j) \<le> filled_by (Suc j) ts" "0 < trade_qty (ts ! j)"
      using filled_by_mono [OF tr(1), of "Suc j"] tr(2) filled_by_nth [OF tr(1)] j unfolding defs by auto
    ultimately show ?thesis
      using trade_report_read assms(8) by auto
  qed
  have left: "shows_rest m i q ts (last fs)" if "ts = [] \<or> filled_by (length ts) ts < q"
  proof -
    have n: "length xs = Suc (length ts)"
      using that xs unfolding defs by simp
    then have "last fs = fs ! length ts" "last xs = xs ! length ts"
      using len [of 0] by (simp_all add: last_conv_nth length_0_conv [symmetric] del: length_0_conv)
    then have "report_frame (rest_report ?b q ts) (last fs)"
      using each [of "length ts"] n rest that unfolding defs by simp
    then show ?thesis
      using rest_report_read assms(8) tr(2) filled_by_nonneg [OF tr(1)] unfolding defs by blast
  qed
  define complete where "complete \<longleftrightarrow> ts \<noteq> [] \<and> filled_by (length ts) ts = q"
  have "complete \<longleftrightarrow> \<not> (ts = [] \<or> filled_by (length ts) ts < q)"
    using tr(2) unfolding defs complete_def by auto
  moreover have "length fs = length xs"
    by (rule list_all2_lengthD [OF p(3), symmetric])
  ultimately show ?thesis
    unfolding i_def [symmetric] using ret run pub(2) p(2,4) xs fills left
    by (intro exI [of _ s1] exI [of _ g3] exI [of _ e'] exI [of _ fs])
      (simp add: Let_def defs complete_def [symmetric] same_shared_def)
qed

theorem accepted_order_reports_witness:
  "\<exists>s' g' f1 f2 f3. on_new_order demo_net demo_order (session_init 5) demo_gw = Some (s', g') \<and>
     wire s' = f1 @ f2 @ f3 \<and> shows_rest demo_order 5 20 (last_trades (g_engine g')) f3"
proof -
  have num: "\<not> rejected demo_order" "to_ticks (price_of demo_order) = Some 102" "to_int64 (order_qty_of demo_order) = Some 20"
    by code_simp+
  have eng: "next_id (book (g_engine demo_gw)) = 5" "order_side demo_order = Buy"
    "map_option (\<lambda>r. length (last_trades (snd r))) (engine_place_limit Buy 102 20 (g_engine demo_gw)) = Some 2"
    "map_option (\<lambda>r. filled_by 2 (last_trades (snd r))) (engine_place_limit Buy 102 20 (g_engine demo_gw)) = Some 12"
    by code_simp+
  obtain s' g' e' fs where r: "on_new_order demo_net demo_order (session_init 5) demo_gw = Some (s', g')" "g_engine g' = e'"
    "engine_place_limit Buy 102 20 (g_engine demo_gw) = Some (5, e')"
    "wire s' = concat fs" and
    fs: "let ts = last_trades e'; i = 5; complete = (ts \<noteq> [] \<and> filled_by (length ts) ts = 20)
     in length fs = length ts + (if complete then 0 else 1) \<and>
        (\<forall>j < length ts. shows_fill demo_order i 20 (filled_by (Suc j) ts) (ts ! j) (Suc j = length ts) (fs ! j)) \<and>
        (complete \<or> shows_rest demo_order i 20 ts (last fs))"
    using accepted_order_reports [OF demo_delivers session_init_inv [OF demo_cfg, of 5] demo_gw_ok demo_plain num]
    by (auto simp: eng(1,2))
  have "length (last_trades e') = 2" "filled_by 2 (last_trades e') = 12"
    using eng(3,4) r(3) by simp_all
  then have "length fs = 3" "shows_rest demo_order 5 20 (last_trades e') (last fs)"
    using fs by (auto simp: Let_def)
  moreover from this(1) obtain a b c where "fs = [a, b, c]"
    by (auto simp: numeral_3_eq_3 length_Suc_conv)
  ultimately show ?thesis
    using r(1,2,4) by (intro exI [of _ s'] exI [of _ g'] exI [of _ a] exI [of _ b] exI [of _ c]) simp
qed

end
