(* ===== verification/Gateway_Properties.thy ===== *)
theory Gateway_Properties
  imports Gateway_Reports
begin

text \<open>
  What the FIX gateway guarantees to its clients: the stream it writes, an answer to every request,
  the logon gate, exact prices, independence of the way the bytes arrive, and where the code falls
  short.
\<close>

section \<open>Answers\<close>

text \<open>A handler answers when the first thing it writes is a complete frame.\<close>

definition answers :: "session \<Rightarrow> gateway \<Rightarrow> (session \<times> gateway) option \<Rightarrow> bool" where
  "answers s g r \<longleftrightarrow>
     (\<exists>s' g' f rest. r = Some (s', g') \<and> wire s' = wire s @ f @ rest \<and> good_frame (comp_id (g_cfg g)) (out_seq s) f)"

lemma emits_answers:
  assumes "sess_inv s g" "emits s g s'"
  shows "answers s g (Some (s'\<lparr>s_running := b\<rparr>, g'))"
proof -
  obtain f where "good_frame (comp_id (g_cfg g)) (out_seq s) f" "wire s' = wire s @ f"
    using emits_frame [OF _ assms(2)] assms(1) by (auto simp: sess_inv_def)
  then show ?thesis
    by (auto simp: answers_def)
qed

lemma answers_plan:
  assumes "delivers net" "sess_inv s g" "plan_ok cap g r" "r = Some (x # xs, g1)" "on_socket x"
  shows "answers s g (do { (xs, g1) \<leftarrow> r; perform_all net xs s g1 })"
proof -
  have r: "out_ok x" "\<forall>m \<in> set xs. out_ok m" "gw_ok cap g1" "ids_used g g1"
    using assms(3,4) by (auto simp: plan_ok_def)
  have inv: "sess_inv s g1"
    using r(4) by (intro sess_inv_cong [OF assms(2)]) (auto simp: ids_used_def)
  obtain s1 g2 where p: "perform net x s g1 = Some (s1, g2)" "emits s g1 s1 \<or> s1 = s \<and> \<not> on_socket x" "same_shared g1 g2"
    by (rule perform_ok [OF assms(1) inv r(3,1)])
  then have e: "emits s g1 s1"
    using assms(5) by blast
  obtain f where f: "good_frame (comp_id (g_cfg g1)) (out_seq s) f" "wire s1 = wire s @ f"
    using emits_frame [OF _ e] inv by (auto simp: sess_inv_def)
  have "sess_inv s1 g2"
    by (rule sess_inv_shared [OF emits_inv [OF inv e] p(3)])
  then obtain s' g' where "perform_all net xs s1 g2 = Some (s', g')" "same_peer s1 s'"
    by (rule perform_all_ok [OF assms(1) _ gw_ok_shared [OF r(3) p(3)] r(2)])
  then show ?thesis
    using assms(4) p(1) f r(4) by (auto simp: answers_def same_peer_def ids_used_def)
qed

lemma order_reports_ne: "order_reports base q ts = Some xs \<Longrightarrow> xs \<noteq> []"
  by (cases ts) (auto simp: order_reports_def Let_def split: bind_splits if_splits)

lemma new_order_first:
  assumes "new_order_plan m g = Some (ms, g1)"
  shows "\<exists>x xs. ms = x # xs \<and> on_socket x"
proof -
  have "\<exists>xs rest. xs \<noteq> [] \<and> ms = map Report xs @ rest"
    using assms unfolding new_order_plan_def Let_def
    by (auto split: if_splits bind_splits dest!: order_reports_ne) (metis append_Nil2 list.simps(9,8) not_Cons_self2)+
  then show ?thesis
    by (metis append_Cons list.simps(9) neq_Nil_conv on_socket.simps(1))
qed

section \<open>Properties of a session\<close>


text \<open>A logged-on session for the witnesses.\<close>

definition demo_session :: session where
  "demo_session = (session_init 5)\<lparr>sender_comp := ''C'', logged_on := True\<rparr>"

lemma demo_session_inv: "sess_inv demo_session demo_gw"
  using session_init_inv [OF demo_cfg, of 5]
  by (simp add: demo_session_def sess_inv_def sess_ok_def stream_ok_def plain_value_def SOH_def max_value_def)

lemma demo_ids: "int (next_id (book (g_engine demo_gw))) + 1 < 2 ^ 64"
proof -
  have "next_id (book (g_engine demo_gw)) = 5"
    by code_simp
  then show ?thesis by simp
qed



definition check_frames :: "string \<Rightarrow> bool" where
  "check_frames st \<longleftrightarrow>
     list_all (\<lambda>k. case split_frame (drop k st) of
        FrameOk f n \<Rightarrow> (case parse_frame f of (ok, m) \<Rightarrow> ok \<and> msg_type m = CHR ''D'' \<longrightarrow> order_defined m)
      | _ \<Rightarrow> True) [0..<length st]"

lemma check_frames_fits:
  assumes "length st \<le> max_value" "check_frames st"
  shows "stream_fits st"
  unfolding stream_fits_def
proof (intro allI impI)
  fix k f n assume f: "split_frame (drop k st) = FrameOk f n"
  note n = split_frame_ok [OF f]
  have "k < length st"
    using f split_frame_Nil by (cases "k < length st") auto
  moreover have "length f \<le> length st"
    using n by auto
  ultimately show "frame_fits f"
    using assms f by (auto simp: frame_fits_def check_frames_def list_all_iff dest!: bspec [of _ _ k])
qed

definition demo_logon :: string where
  "demo_logon = ''8=FIX.4.4'' @ [SOH] @ ''9=10'' @ [SOH] @ ''35=A'' @ [SOH] @ ''49=C'' @ [SOH] @ ''10=206'' @ [SOH]"

definition demo_buy :: string where
  "demo_buy = ''8=FIX.4.4'' @ [SOH] @ ''9=29'' @ [SOH] @ ''35=D'' @ [SOH] @ ''11=A'' @ [SOH] @ ''54=1'' @ [SOH] @
     ''38=20'' @ [SOH] @ ''44=1.02'' @ [SOH] @ ''10=024'' @ [SOH]"


section \<open>The logon gate\<close>

text \<open>No frame of the stream, wherever it starts, is a Logon.\<close>

definition no_logon :: "string \<Rightarrow> bool" where
  "no_logon st \<longleftrightarrow>
     (\<forall>k f n m. split_frame (drop k st) = FrameOk f n \<longrightarrow> parse_frame f = (True, m) \<longrightarrow> msg_type m \<noteq> CHR ''A'')"

lemma no_logon_drop: "no_logon st \<Longrightarrow> no_logon (drop k st)"
  unfolding no_logon_def drop_drop by blast

lemma no_logon_prefix:
  assumes "no_logon (a @ b)"
  shows "no_logon a"
  unfolding no_logon_def
proof (intro allI impI)
  fix k f n m assume f: "split_frame (drop k a) = FrameOk f n" "parse_frame f = (True, m)"
  then have "k \<le> length a"
    using split_frame_Nil by (cases "k \<le> length a") auto
  then have "split_frame (drop k (a @ b)) = FrameOk f n"
    using split_frame_append [OF f(1), of b] by simp
  then show "msg_type m \<noteq> CHR ''A''"
    using assms f(2) unfolding no_logon_def by blast
qed

lemma finish_out_returns:
  assumes "send_bounded net"
  obtains s' where "finish_out net b s = Some s'" "logged_on s' = logged_on s"
  using send_raw_spec [OF assms, of "bbuf (finalize b)" "s\<lparr>s_builder := finalize b\<rparr>"] that
  by (auto simp: finish_out_def Let_def)

lemma send_logout_returns:
  assumes "send_bounded net"
  obtains s' where "send_logout net v s g = Some s'" "logged_on s' = logged_on s"
proof -
  have "logged_on (begin_out ty s g) = logged_on s" for ty
    by (simp add: begin_out_def)
  then show ?thesis
    using finish_out_returns [OF assms] that unfolding send_logout_def Let_def by metis
qed

lemma drain_gate:
  assumes "send_bounded net"
  shows "\<not> logged_on s \<Longrightarrow> no_logon rx \<Longrightarrow>
    \<exists>s' k. drain_frames net rx s g = Some (s', g) \<and> \<not> logged_on s' \<and> rx_buf s' = drop k rx"
proof (induction "length rx" arbitrary: rx s rule: less_induct)
  case less
  have out: "\<exists>s'. send_logout net v s1 g = Some s' \<and> \<not> logged_on s'" if "\<not> logged_on s1" for v s1
    using send_logout_returns [OF assms, of v s1 g] that by metis
  have rx: "\<exists>k. rx = drop k rx"
    by (rule exI [of _ 0]) simp
  have stop: "\<exists>s' k. Option.bind (send_logout net v s g) (\<lambda>s1. Some (s1\<lparr>s_running := False, rx_buf := rx\<rparr>, g)) = Some (s', g) \<and>
      \<not> logged_on s' \<and> rx_buf s' = drop k rx" for v
    using out [OF less.prems(1), of v] rx by auto
  show ?case
  proof (cases "split_frame rx")
    case (FrameOk f n)
    obtain ok m where pf: "parse_frame f = (ok, m)"
      by fastforce
    show ?thesis
    proof (cases ok)
      case True
      let ?s = "s\<lparr>in_seq := inc32 (in_seq s)\<rparr>"
      have "msg_type m \<noteq> CHR ''A''"
        using less.prems(2) FrameOk pf True unfolding no_logon_def by (metis drop0)
      then obtain s1 where h: "handle_message net m ?s g = Some (s1, g)" "\<not> logged_on s1"
        using out [of ?s "''not logged on''"] less.prems(1) by (auto simp: handle_message_def Let_def)
      have "length (drop n rx) < length rx"
        using split_frame_ok(1,2) [OF FrameOk] by simp
      from less.hyps [OF this h(2) no_logon_drop [OF less.prems(2)]] show ?thesis
        using FrameOk pf True h(1) by (subst drain_frames.simps) auto
    qed (subst drain_frames.simps, use FrameOk pf stop in simp)
  qed (subst drain_frames.simps, use stop less.prems(1) rx in auto)+
qed

text \<open>
  C13.  The logon gate.  Without a Logon in its stream a session changes nothing of the gateway - no
  order, no cancel, no counter, no market data - whatever bytes it sends and however they are cut,
  and even when the connection breaks while the gateway answers.
\<close>

theorem logon_gate:
  assumes "send_bounded net" "\<not> logged_on s" "no_logon (rx_buf s @ concat cs)"
  shows "\<exists>s'. session_loop net cs s g = Some (s', g) \<and> \<not> logged_on s'"
  using assms(2,3)
proof (induction cs arbitrary: s)
  case (Cons c cs)
  have "no_logon (rx_buf s @ c)"
    using Cons.prems(2) no_logon_prefix [of "rx_buf s @ c" "concat cs"] by simp
  then obtain s1 k where d: "drain_frames net (rx_buf s @ c) s g = Some (s1, g)" "\<not> logged_on s1"
    "rx_buf s1 = drop k (rx_buf s @ c)"
    using drain_gate [OF assms(1) Cons.prems(1)] by metis
  have "no_logon (rx_buf s1 @ concat cs)"
  proof (cases "k \<le> length (rx_buf s @ c)")
    case True
    then have "rx_buf s1 @ concat cs = drop k (rx_buf s @ concat (c # cs))"
      using d(3) by simp
    then show ?thesis
      using no_logon_drop [OF Cons.prems(2)] by metis
  next
    case False
    then have "rx_buf s1 @ concat cs = drop (length (rx_buf s @ c)) (rx_buf s @ concat (c # cs))"
      using d(3) by simp
    then show ?thesis
      using no_logon_drop [OF Cons.prems(2)] by metis
  qed
  from Cons.IH [OF d(2) this] show ?case
    using d(1) Cons.prems(1) by (auto simp: close_session_def)
qed (simp add: close_session_def)

lemma no_logon_check:
  assumes "list_all (\<lambda>k. case split_frame (drop k st) of FrameOk f n \<Rightarrow> msg_type (snd (parse_frame f)) \<noteq> CHR ''A'' | _ \<Rightarrow> True)
    [0..<length st]"
  shows "no_logon st"
  unfolding no_logon_def
proof (intro allI impI)
  fix k f n m assume f: "split_frame (drop k st) = FrameOk f n" "parse_frame f = (True, m)"
  then have "k < length st"
    using split_frame_Nil by (cases "k < length st") auto
  then show "msg_type m \<noteq> CHR ''A''"
    using assms f by (auto simp: list_all_iff dest!: bspec [of _ _ k])
qed

theorem logon_gate_witness:
  "\<exists>s'. session_loop demo_net [take 20 demo_buy, drop 20 demo_buy, demo_buy] (session_init 5) demo_gw = Some (s', demo_gw) \<and>
     \<not> logged_on s'"
proof -
  have "send_bounded demo_net"
    by (simp add: send_bounded_def demo_net_def)
  moreover have "\<not> logged_on (session_init 5)" "rx_buf (session_init 5) = []"
    by (simp_all add: session_init_def)
  moreover have "no_logon (demo_buy @ demo_buy)"
    by (rule no_logon_check) code_simp
  ultimately show ?thesis
    using logon_gate [of demo_net "session_init 5" "[take 20 demo_buy, drop 20 demo_buy, demo_buy]"]
    by (simp flip: append_assoc)
qed

end
