(* ===== verification/Gateway_Numbers.thy ===== *)
theory Gateway_Numbers
  imports Gateway_Properties
begin

text \<open>
  Numbers on their way through the gateway: decimal prices and quantities that survive the trip
  through doubles and ticks, the representable doubles as a type, and the rejected quantity whose
  echo does not fit its buffer.
\<close>

section \<open>Decimal texts\<close>

lemma cents_digits:
  "\<forall>c \<in> set (dec (k div 100)). is_digit c" "dec (k div 100) \<noteq> []"
  "\<forall>c \<in> set (pad0 2 (dec (k mod 100))). is_digit c" "length (pad0 2 (dec (k mod 100))) = 2"
  "dec_val (dec (k div 100) @ pad0 2 (dec (k mod 100))) = int k"
proof -
  have len: "length (dec (k mod 100)) \<le> 2"
    by (rule dec_length) simp_all
  note p = pad0_props [OF len]
  show "\<forall>c \<in> set (dec (k div 100)). is_digit c" "dec (k div 100) \<noteq> []"
    "\<forall>c \<in> set (pad0 2 (dec (k mod 100))). is_digit c" "length (pad0 2 (dec (k mod 100))) = 2"
    using dec_props [of "k div 100"] p by simp_all
  have "int (k div 100) * 100 + int (k mod 100) = int k"
    by (simp add: zdiv_int zmod_int)
  then show "dec_val (dec (k div 100) @ pad0 2 (dec (k mod 100))) = int k"
    using dec_props [of "k div 100"] p by (simp add: dec_val_append)
qed

lemma strtod_cents: "strtod (cents k) = Some (round64 False (of_nat k / 100))"
proof -
  have ne: "pad0 2 (dec (k mod 100)) \<noteq> []"
    using cents_digits(4) [of k] by force
  have hundredth: "10 powi (- int 2) = (inverse 100 :: rat)"
    by (simp add: power_int_minus)
  have val: "of_int (int k) * 10 powi (- int 2) = (of_nat k / 100 :: rat)"
    unfolding hundredth of_int_of_nat_eq divide_inverse by (rule refl)
  have "''.'' @ pad0 2 (dec (k mod 100)) = CHR ''.'' # pad0 2 (dec (k mod 100))"
    by (rule append.simps(2) [of _ "[]", unfolded append.simps(1)])
  then show ?thesis
    using strtod_decimal [OF cents_digits(1,2,3) [of k]]
    unfolding cents_digits(4,5) val if_not_P [OF ne] cents_def by metis
qed

lemma strtod_dec: "strtod (dec n) = Some (double_of (int n))"
  using strtod_decimal [of "dec n" "[]"] dec_props [of n] by (simp add: double_of_def)

lemma no_nul:
  assumes "\<forall>c \<in> set s. is_digit c \<or> c = CHR ''.''"
  shows "takeWhile (\<lambda>c. c \<noteq> CHR 0x00) s = s"
  using assms digit_plain by (auto simp: takeWhile_eq_all_conv)

lemma cents_plain: "takeWhile (\<lambda>c. c \<noteq> CHR 0x00) (cents k) = cents k"
  by (rule no_nul) (use cents_digits [of k] in \<open>auto simp: cents_def\<close>)

lemma dec_plain: "takeWhile (\<lambda>c. c \<noteq> CHR 0x00) (dec n) = dec n"
  by (rule no_nul) (use dec_props [of n] in auto)

section \<open>Properties\<close>

text \<open>
  C16.  Exact prices and quantities.  A price of \<open>k\<close> hundredths below \<open>2\<^sup>4\<^sup>9\<close> written with two decimals,
  read by \<open>get_double\<close> and converted, gives exactly \<open>k\<close> ticks, and \<open>k\<close> ticks are printed as the same
  text again; a whole quantity up to \<open>2\<^sup>5\<^sup>3\<close> makes the same trip unchanged.
\<close>

theorem price_round_trip:
  assumes "k < 2 ^ 49" "n \<le> 2 ^ 53"
    and "msg_get PriceTag m = cents k" "msg_get OrderQty m = dec n"
  shows "to_ticks (msg_get_double PriceTag d m) = Some (int k) \<and> print_f 2 (from_ticks (int k)) = cents k \<and>
    to_int64 (msg_get_double OrderQty d m) = Some (int n) \<and> print_f 0 (double_of (int n)) = dec n"
proof -
  have "length (dec (k div 100)) \<le> 20" "length (dec n) \<le> 20"
    using assms(1,2) by (intro dec_u64; simp)+
  then have len: "length (cents k) < 64" "cents k \<noteq> []" "length (dec n) < 64" "dec n \<noteq> []"
    using cents_digits(4) [of k] dec_props [of n] by (simp_all add: cents_def)
  then have get: "msg_get_double PriceTag d m = round64 False (of_nat k / 100)"
    "msg_get_double OrderQty d m = double_of (int n)"
    unfolding msg_get_double_def Let_def assms(3,4)
    by (simp_all add: cents_plain dec_plain strtod_cents strtod_dec)
  have "int n \<le> 2 ^ 53"
    using assms(2) by (simp add: of_nat_le_iff flip: of_nat_power)
  then have "to_int64 (double_of (int n)) = Some (int n)" "print_f 0 (double_of (int n)) = to_chars (int n)"
    by (intro to_int64_double_of print_f_int; simp)+
  then show ?thesis
    using to_ticks_cents [OF assms(1)] print_cents [OF assms(1)] from_ticks_cents [OF assms(1)]
    unfolding get by (simp add: to_chars_def)
qed

theorem price_round_trip_witness:
  "to_ticks (msg_get_double PriceTag dzero demo_order) = Some 102 \<and> print_f 2 (from_ticks 102) = ''1.02''"
proof -
  have "msg_get PriceTag demo_order = cents 102" "msg_get OrderQty demo_order = dec 20" "cents 102 = ''1.02''"
    by code_simp+
  then show ?thesis
    using price_round_trip [of 102 20 demo_order dzero] by simp
qed

section \<open>Representable doubles\<close>

lemma fadd_ok [intro]: "double_ok x \<Longrightarrow> double_ok y \<Longrightarrow> double_ok (fadd x y)"
  by (cases x; cases y) (simp_all add: Let_def round64_ok del: double_ok.simps(1), simp_all)

lemma fmul_ok [intro]: "double_ok x \<Longrightarrow> double_ok y \<Longrightarrow> double_ok (fmul x y)"
  by (cases x; cases y) (simp_all add: round64_ok binary64_nonneg)

lemma fdiv_ok [intro]: "double_ok x \<Longrightarrow> double_ok y \<Longrightarrow> double_ok (fdiv x y)"
  by (cases x; cases y) (simp_all add: round64_ok binary64_nonneg)

lemmas doubles_closed = fadd_ok fmul_ok fdiv_ok

lemma double_of_ok [simp, intro]: "double_ok (double_of k)"
  by (simp add: double_of_def round64_ok)

lemma dzero_ok [simp, intro]: "double_ok dzero"
  by (simp add: dzero_def)

lemma from_ticks_ok [simp, intro]: "double_ok (from_ticks k)"
proof -
  have "double_ok (Fin False 100)"
    by (simp add: binary64I [of 100 0])
  then show ?thesis
    unfolding from_ticks_def by blast
qed

lemma takeWhile_both: "\<forall>c \<in> set (takeWhile P s @ takeWhile P t). P c"
  by (auto dest: set_takeWhileD)

lemma dec_val_nonneg: "0 \<le> dec_val (takeWhile is_digit s @ takeWhile is_digit t)"
proof -
  have "0 \<le> dec_val ds" if "\<forall>c \<in> set ds. is_digit c" for ds
    using that by (induction ds rule: rev_induct) (simp_all add: dec_val_snoc, simp_all add: dec_val_def is_digit_def digit_val_def)
  from this [OF takeWhile_both] show ?thesis .
qed

lemma hex_val_nonneg: "0 \<le> hex_val (takeWhile is_hex s @ takeWhile is_hex t)"
proof -
  have "0 \<le> hex_val ds" if "\<forall>c \<in> set ds. is_hex c" for ds
    using that
    by (induction ds rule: rev_induct) (auto simp: hex_val_def is_hex_def is_digit_def digit_val_def)
  from this [OF takeWhile_both] show ?thesis .
qed

lemma mantissa_val:
  assumes "mantissa P s = (a, b, r)"
  shows "\<exists>s t. a = takeWhile P s \<and> b = takeWhile P t"
  using assms exI [of "\<lambda>t. [] = takeWhile P t" "[]"] by (auto simp: mantissa_def Let_def split: if_splits)

lemma strtod_ok:
  assumes "strtod s = Some d"
  shows "double_ok d"
proof -
  have "0 \<le> dec_val (a @ b)" if "mantissa is_digit u = (a, b, r)" for u a b r
    using mantissa_val [OF that] dec_val_nonneg by auto
  moreover have "0 \<le> hex_val (a @ b)" if "mantissa is_hex u = (a, b, r)" for u a b r
    using mantissa_val [OF that] hex_val_nonneg by auto
  ultimately show ?thesis
    using assms unfolding strtod_def Let_def by (auto split: prod.splits if_splits intro!: round64_ok)
qed

lemma get_double_ok: "double_ok d \<Longrightarrow> double_ok (msg_get_double t d m)"
  using strtod_ok by (auto simp: msg_get_double_def Let_def split: option.splits)

definition report_typed :: "exec_report \<Rightarrow> bool" where
  "report_typed x \<longleftrightarrow> double_ok (x_order_qty x) \<and> double_ok (x_cum_qty x) \<and> double_ok (x_leaves_qty x) \<and>
     double_ok (x_last_qty x) \<and> double_ok (x_last_px x) \<and> double_ok (x_avg_px x)"

lemma base_typed: "double_ok q \<Longrightarrow> report_typed (base_report c i sd symb q)"
  by (auto simp: base_report_def report_typed_def)

lemma fill_reports_typed:
  "fill_reports base q cum notional ts = Some xs \<Longrightarrow> report_typed base \<Longrightarrow> double_ok notional \<Longrightarrow>
    \<forall>x \<in> set xs. report_typed x"
proof (induction ts arbitrary: cum notional xs)
  case (Cons t ts)
  let ?n = "fadd notional (fmul (from_ticks (trade_price t)) (double_of (trade_qty t)))"
  have n: "double_ok ?n"
    using Cons.prems(3) by (intro doubles_closed double_of_ok from_ticks_ok)
  then have avg: "double_ok (fdiv ?n (double_of c))" for c
    by (rule doubles_closed(3)) (rule double_of_ok)
  show ?case
    using Cons.prems(1,2) Cons.IH [OF _ Cons.prems(2) n] avg
    by (auto simp: Let_def report_typed_def split: bind_splits)
qed simp

lemma order_reports_typed:
  assumes "order_reports base q ts = Some xs" "report_typed base"
  shows "\<forall>x \<in> set xs. report_typed x"
  using assms fill_reports_typed [OF _ assms(2) dzero_ok] unfolding order_reports_def
  by (auto simp: report_typed_def split: bind_splits if_splits)



section \<open>A rejected quantity that does not fit its buffer\<close>

text \<open>
  C19.  The order handler rejects a quantity that is not positive by echoing it.  When its decimal
  expansion has more than 64 characters, \<open>add_double\<close> appends bytes from beyond its 64-byte buffer: the
  handler has no defined result, in every state of the session and of the gateway.
\<close>

theorem reject_overreads:
  assumes "rejected m" "64 < length (print_f 0 (order_qty_of m))"
  shows "on_new_order net m s g = None"
proof -
  have "add_double OrderQty (order_qty_of m) 0 b = None" for b
    using assms(2) by (simp add: add_double_def Let_def)
  then show ?thesis
    unfolding on_new_order_def new_order_rejected [OF assms(1)]
    by (simp add: send_exec_report_def Let_def base_report_def del: tag_values)
qed

lemma dec_length_ge: "10 ^ k \<le> n \<Longrightarrow> k < length (dec n)"
proof (induction k arbitrary: n)
  case 0
  then show ?case
    using dec_props [of n] by simp
next
  case (Suc k)
  have "\<not> n < 10"
    using Suc.prems le_trans [of 10 "10 ^ Suc k" n] by simp
  moreover have "10 ^ k \<le> n div 10"
    using div_le_mono [OF Suc.prems, of 10] by simp
  ultimately show ?case
    using Suc.IH dec_large [of n] by simp
qed

text \<open>The quantity \<open>-1e70\<close>.\<close>

definition demo_huge :: message where
  "demo_huge = \<lparr>msg_fields = [\<lparr>ftag = 35, fvalue = ''D''\<rparr>, \<lparr>ftag = 54, fvalue = ''1''\<rparr>,
     \<lparr>ftag = 38, fvalue = ''-1e70''\<rparr>, \<lparr>ftag = 44, fvalue = ''1''\<rparr>]\<rparr>"

lemma demo_huge_qty: "order_qty_of demo_huge = round64 True (10 powi 70)"
proof -
  have m: "mantissa is_digit ''1e70'' = (''1'', [], ''e70'')" "exponent_of (CHR ''e'') ''e70'' = 70"
    "\<not> starts_ci ''inf'' ''1e70''" "\<not> starts_ci ''nan'' ''1e70''" "\<not> starts_ci ''0x'' ''1e70''"
    "dropWhile is_space ''-1e70'' = ''-1e70''" "dec_val ''1'' = 1" "msg_get OrderQty demo_huge = ''-1e70''"
    by code_simp+
  have "strtod ''-1e70'' = Some (round64 True (10 powi 70))"
    unfolding strtod_def Let_def m(6) by (simp add: m split: prod.splits)
  then show ?thesis
    unfolding order_qty_of_def msg_get_double_def Let_def m(8) by simp
qed

theorem reject_overreads_witness: "on_new_order demo_net demo_huge demo_session demo_gw = None"
proof -
  define x :: rat where "x = 10 powi 70"
  define q where "q = round_mag x"
  have x: "0 \<le> x" "x < 2 powi 240" "2 ^ 220 \<le> x"
    by (simp_all add: x_def)
  have q: "order_qty_of demo_huge = Fin True q"
    unfolding demo_huge_qty q_def x_def [symmetric] by (rule round64_Fin [OF x(1,2)]) simp_all
  have "2 ^ 220 \<le> q"
    unfolding q_def by (rule round_mag_ge [OF x(3,1) dyadic_pow])
  then have "of_int (10 ^ 64) \<le> q"
    by (rule order_trans [rotated]) simp
  then have "10 ^ 64 \<le> rne q"
    by (rule rne_ge)
  then have "10 ^ 64 \<le> nat (rne q)"
    by (simp add: le_nat_iff)
  then have "64 < length (dec (nat (rne q)))"
    by (rule dec_length_ge)
  then have "64 < length (print_f 0 (order_qty_of demo_huge))"
    by (simp add: q fixed_mag_def Let_def pad0_def)
  moreover have "rejected demo_huge"
    by (simp add: rejected_def q)
  ultimately show ?thesis
    using reject_overreads by blast
qed

end
