(* ===== verification/Gateway_Chunks.thy ===== *)
theory Gateway_Chunks
  imports Gateway_Numbers
begin

text \<open>
  The receive loop and the way the bytes arrive.  What a handler does depends neither on the receive
  buffer nor on the \<open>running\<close> flag of its session; the first fact makes the loop independent of the
  boundaries between the chunks while the session runs, the second one means that frames already
  received are still handled after the session has been stopped.
\<close>

section \<open>Sessions that handlers cannot tell apart\<close>

text \<open>
  A relation between sessions that agrees on what the handlers read and survives what they write.
\<close>

locale handler_blind =
  fixes sim :: "session \<Rightarrow> session \<Rightarrow> bool"
  assumes reads: "sim s t \<Longrightarrow> sender_comp t = sender_comp s \<and> out_seq t = out_seq s \<and> in_seq t = in_seq s \<and>
      logged_on t = logged_on s \<and> s_builder t = s_builder s \<and> wire t = wire s \<and> send_calls t = send_calls s"
    and calls: "sim s t \<Longrightarrow> sim (s\<lparr>send_calls := n\<rparr>) (t\<lparr>send_calls := n\<rparr>)"
    and writes: "sim s t \<Longrightarrow> sim (s\<lparr>wire := w\<rparr>) (t\<lparr>wire := w\<rparr>)"
    and builds: "sim s t \<Longrightarrow> sim (s\<lparr>s_builder := b\<rparr>) (t\<lparr>s_builder := b\<rparr>)"
    and numbers: "sim s t \<Longrightarrow> sim (s\<lparr>out_seq := k\<rparr>) (t\<lparr>out_seq := k\<rparr>)"
    and counts: "sim s t \<Longrightarrow> sim (s\<lparr>in_seq := k\<rparr>) (t\<lparr>in_seq := k\<rparr>)"
    and stops: "sim s t \<Longrightarrow> sim (s\<lparr>s_running := False\<rparr>) (t\<lparr>s_running := False\<rparr>)"
    and logs_on: "sim s t \<Longrightarrow> sim (s\<lparr>sender_comp := c, logged_on := True\<rparr>) (t\<lparr>sender_comp := c, logged_on := True\<rparr>)"
begin

definition both :: "session option \<Rightarrow> session option \<Rightarrow> bool" where
  "both = rel_option sim"

definition both2 :: "(session \<times> gateway) option \<Rightarrow> (session \<times> gateway) option \<Rightarrow> bool" where
  "both2 = rel_option (rel_prod sim (=))"

lemma both_simps [simp]:
  "both None x \<longleftrightarrow> x = None" "both (Some s) x \<longleftrightarrow> (\<exists>t. x = Some t \<and> sim s t)"
  "both2 None y \<longleftrightarrow> y = None" "both2 (Some (s, g)) y \<longleftrightarrow> (\<exists>t. y = Some (t, g) \<and> sim s t)"
  by (auto simp: both_def both2_def option_rel_Some1)

lemma both_bind:
  assumes "both x y" "\<And>s t. sim s t \<Longrightarrow> both2 (f s) (f' t)"
  shows "both2 (Option.bind x f) (Option.bind y f')"
  using assms by (cases x) auto

lemma both2_bind:
  assumes "both2 x y" "\<And>s t g. sim s t \<Longrightarrow> both2 (f (s, g)) (f' (t, g))"
  shows "both2 (Option.bind x f) (Option.bind y f')"
  using assms by (cases x) auto

lemma same_bind:
  "(\<And>a. both (f a) (f' a)) \<Longrightarrow> both (Option.bind z f) (Option.bind z f')"
  "(\<And>a. both2 (h a) (h' a)) \<Longrightarrow> both2 (Option.bind z h) (Option.bind z h')"
  by (cases z; simp)+

lemma send_raw_sim: "sim s t \<Longrightarrow> both (send_raw net bytes s) (send_raw net bytes t)"
proof (induction "length bytes" arbitrary: bytes s t rule: less_induct)
  case less
  define n where "n = send_rc net (send_calls s) (length bytes)"
  define s1 t1 where "s1 = s\<lparr>send_calls := Suc (send_calls s)\<rparr>" and "t1 = t\<lparr>send_calls := Suc (send_calls s)\<rparr>"
  have sim1: "sim s1 t1" and w: "wire t1 = wire s1"
    using calls [OF less.prems] reads [OF less.prems] by (simp_all add: s1_def t1_def)
  define r where "r u = (if n \<le> 0 then Some (u\<lparr>s_running := False\<rparr>) else if n > int (length bytes) then None
      else send_raw net (drop (nat n) bytes) (u\<lparr>wire := wire u @ take (nat n) bytes\<rparr>))" for u
  have step: "send_raw net bytes s = (if bytes = [] then Some s else r s1)"
    "send_raw net bytes t = (if bytes = [] then Some t else r t1)"
    using reads [OF less.prems] by (subst send_raw.simps; simp add: n_def s1_def t1_def r_def Let_def)+
  have "both (r s1) (r t1)" if "bytes \<noteq> []"
  proof -
    have "0 < n \<Longrightarrow> both (send_raw net (drop (nat n) bytes) (s1\<lparr>wire := wire s1 @ take (nat n) bytes\<rparr>))
        (send_raw net (drop (nat n) bytes) (t1\<lparr>wire := wire s1 @ take (nat n) bytes\<rparr>))"
      using that by (intro less.hyps writes sim1) simp
    then show ?thesis
      using stops [OF sim1] w by (simp add: r_def)
  qed
  then show ?case
    unfolding step using less.prems by simp
qed

lemma finish_out_sim: "sim s t \<Longrightarrow> both (finish_out net b s) (finish_out net b t)"
  unfolding finish_out_def Let_def by (rule send_raw_sim [OF builds])

lemma begin_out_sim:
  assumes "sim s t"
  shows "sim (begin_out ty s g) (begin_out ty t g)" "s_builder (begin_out ty t g) = s_builder (begin_out ty s g)"
  using reads [OF assms] numbers [OF builds [OF assms]] by (simp_all add: begin_out_def)

lemma send_logout_sim: "sim s t \<Longrightarrow> both (send_logout net v s g) (send_logout net v t g)"
  unfolding send_logout_def Let_def using begin_out_sim(2) finish_out_sim [OF begin_out_sim(1)] by simp

lemma report_sim:
  assumes "sim s t"
  shows "both2 (send_exec_report net x s g) (send_exec_report net x t g)"
proof -
  have b: "s_builder (begin_out ty t g1) = s_builder (begin_out ty s g1)" for ty g1
    by (rule begin_out_sim(2) [OF assms])
  have "both (finish_out net b (begin_out ty s g1)) (finish_out net b (begin_out ty t g1))" for b ty g1
    by (rule finish_out_sim [OF begin_out_sim(1) [OF assms]])
  then show ?thesis
    unfolding send_exec_report_def Let_def b by (intro same_bind both_bind) auto
qed

lemma snapshot_sim:
  assumes "sim s t"
  shows "both (send_md_snapshot net req symb bp bs ap as s g) (send_md_snapshot net req symb bp bs ap as t g)"
  unfolding send_md_snapshot_def Let_def begin_out_sim(2) [OF assms]
  by (intro same_bind finish_out_sim begin_out_sim(1) assms)

lemma perform_sim:
  assumes "sim s t"
  shows "both2 (perform net x s g) (perform net x t g)"
proof (cases x)
  case (Report r)
  then show ?thesis
    using report_sim [OF assms] by simp
next
  case (Snapshot req symb tp)
  show ?thesis
    unfolding Snapshot perform.simps by (intro both_bind snapshot_sim assms) simp
next
  case (Publish symb tp)
  then show ?thesis
    using assms by (auto split: option.splits prod.splits intro!: same_bind)
qed

lemma perform_all_sim: "sim s t \<Longrightarrow> both2 (perform_all net xs s g) (perform_all net xs t g)"
proof (induction xs arbitrary: s t g)
  case (Cons x xs)
  show ?case
    unfolding perform_all.simps by (intro both2_bind perform_sim Cons.prems) (simp add: Cons.IH)
qed simp

lemma plan_sim:
  "sim s t \<Longrightarrow> both2 (do { (xs, g1) \<leftarrow> r; perform_all net xs s g1 }) (do { (xs, g1) \<leftarrow> r; perform_all net xs t g1 })"
  by (intro same_bind) (auto intro: perform_all_sim split: prod.splits)

lemma both2_if: "both2 x y \<Longrightarrow> both2 x' y' \<Longrightarrow> both2 (if c then x else x') (if c then y else y')"
  by (cases c) simp_all

lemma handle_message_sim:
  assumes "sim s t"
  shows "both2 (handle_message net m s g) (handle_message net m t g)"
proof -
  have out: "both2 (do { s1 \<leftarrow> send_logout net v s g; Some (s1\<lparr>s_running := False\<rparr>, g) })
      (do { s1 \<leftarrow> send_logout net v t g; Some (s1\<lparr>s_running := False\<rparr>, g) })" for v
    by (intro both_bind send_logout_sim assms) (simp add: stops)
  have logon: "both2 (on_logon net m s g) (on_logon net m t g)"
  proof -
    have "both (send_logon_ack net s1 g) (send_logon_ack net t1 g)" if "sim s1 t1" for s1 t1
      unfolding send_logon_ack_def Let_def begin_out_sim(2) [OF that] by (intro finish_out_sim begin_out_sim(1) that)
    then show ?thesis
      using logs_on [OF assms] unfolding on_logon_def Let_def by (intro both_bind) auto
  qed
  have on: "logged_on t = logged_on s"
    using reads [OF assms] by simp
  show ?thesis
    unfolding handle_message_def Let_def on_logout_def on_heartbeat_def on_new_order_def on_cancel_def on_md_request_def on
    by (intro both2_if out logon plan_sim assms) (simp_all add: assms)
qed

end

section \<open>The receive buffer\<close>

text \<open>Sessions that agree on everything but the receive buffer, and on everything but the flag.\<close>

definition same_core :: "session \<Rightarrow> session \<Rightarrow> bool" where
  "same_core s t \<longleftrightarrow> s_fd t = s_fd s \<and> sender_comp t = sender_comp s \<and> out_seq t = out_seq s \<and> in_seq t = in_seq s \<and>
     logged_on t = logged_on s \<and> s_builder t = s_builder s \<and> wire t = wire s \<and> send_calls t = send_calls s"

definition but_buffer :: "session \<Rightarrow> session \<Rightarrow> bool" where
  "but_buffer s t \<longleftrightarrow> same_core s t \<and> s_running t = s_running s"

definition but_running :: "session \<Rightarrow> session \<Rightarrow> bool" where
  "but_running s t \<longleftrightarrow> same_core s t \<and> rx_buf t = rx_buf s"

interpretation buf: handler_blind but_buffer
  by unfold_locales (simp_all add: but_buffer_def same_core_def)

interpretation run: handler_blind but_running
  by unfold_locales (simp_all add: but_running_def same_core_def)

lemma but_buffer_update: "but_buffer s t \<Longrightarrow> t\<lparr>rx_buf := y\<rparr> = s\<lparr>rx_buf := y\<rparr>"
  by (cases s; cases t) (simp add: but_buffer_def same_core_def)

text \<open>Draining does not read the buffer of the session: it is handed over as an argument.\<close>

lemma drain_buffer: "but_buffer s t \<Longrightarrow> drain_frames net rx t g = drain_frames net rx s g"
proof (induction "length rx" arbitrary: rx s t g rule: less_induct)
  case less
  note upd = but_buffer_update
  have stop: "Option.bind (send_logout net v t g) (\<lambda>s1. Some (s1\<lparr>s_running := False, rx_buf := rx\<rparr>, g)) =
      Option.bind (send_logout net v s g) (\<lambda>s1. Some (s1\<lparr>s_running := False, rx_buf := rx\<rparr>, g))" for v
    using buf.send_logout_sim [OF less.prems, of net v g] upd [OF buf.stops]
    by (cases "send_logout net v s g") auto
  show ?case
  proof (cases "split_frame rx")
    case (FrameOk f n)
    obtain ok m where pf: "parse_frame f = (ok, m)"
      by fastforce
    have seq: "in_seq t = in_seq s"
      using less.prems by (simp add: but_buffer_def same_core_def)
    have h: "buf.both2 (handle_message net m (s\<lparr>in_seq := inc32 (in_seq s)\<rparr>) g) (handle_message net m (t\<lparr>in_seq := inc32 (in_seq s)\<rparr>) g)"
      by (rule buf.handle_message_sim [OF buf.counts [OF less.prems]])
    have len: "length (drop n rx) < length rx"
      using split_frame_ok(1,2) [OF FrameOk] by simp
    show ?thesis
      by (subst (1 2) drain_frames.simps, cases "handle_message net m (s\<lparr>in_seq := inc32 (in_seq s)\<rparr>) g")
        (use h less.hyps [OF len] in \<open>auto simp: FrameOk pf seq stop split: option.splits\<close>)
  qed (subst (1 2) drain_frames.simps, use stop upd [OF less.prems] in simp)+
qed

section \<open>The running flag\<close>

text \<open>A session that has been stopped stays so: a handler never sets the flag.\<close>

definition stopped :: "session \<Rightarrow> session \<Rightarrow> bool" where
  "stopped s t \<longleftrightarrow> t = s \<and> \<not> s_running s"

interpretation off: handler_blind stopped
  by unfold_locales (simp_all add: stopped_def)

lemma handler_stopped:
  assumes "handle_message net m s g = Some (s1, g1)" "s_running s1"
  shows "s_running s"
  using off.handle_message_sim [of s s net m g] assms by (auto simp: stopped_def)

lemma perform_gateway_running: "perform net x s g = Some (s1, g1) \<Longrightarrow> g_running g1 = g_running g"
  by (cases x) (auto simp: send_exec_report_def Let_def split: bind_splits option.splits)

lemma perform_all_gateway_running: "perform_all net xs s g = Some (s1, g1) \<Longrightarrow> g_running g1 = g_running g"
proof (induction xs arbitrary: s g)
  case (Cons x xs)
  then show ?case
    using perform_gateway_running by (fastforce split: bind_splits)
qed simp

lemma handler_gateway_running:
  assumes "handle_message net m s g = Some (s1, g1)"
  shows "g_running g1 = g_running g"
proof -
  have plans: "new_order_plan m g = Some (xs, h) \<Longrightarrow> g_running h = g_running g"
    "cancel_plan m g = Some (xs, h) \<Longrightarrow> g_running h = g_running g" "md_plan m g = Some (xs, h) \<Longrightarrow> g_running h = g_running g" for xs h
    by (auto simp: new_order_plan_def cancel_plan_def md_plan_def Let_def split: bind_splits if_splits)
  have "g_running g1 = g_running g" if "do { (xs, h) \<leftarrow> r; perform_all net xs s h } = Some (s1, g1)"
    and "\<And>xs h. r = Some (xs, h) \<Longrightarrow> g_running h = g_running g" for r
    using that perform_all_gateway_running by (cases r) fastforce+
  note via = this [OF _ plans(1)] this [OF _ plans(2)] this [OF _ plans(3)]
  show ?thesis
    using assms via unfolding handle_message_def Let_def on_new_order_def on_cancel_def on_md_request_def
      on_logon_def on_logout_def on_heartbeat_def
    by (auto split: if_splits bind_splits)
qed

lemma drain_stopped:
  "drain_frames net rx s g = Some (s1, g1) \<Longrightarrow> s_running s1 \<Longrightarrow> s_running s \<and> g_running g1 = g_running g"
proof (induction "length rx" arbitrary: rx s g rule: less_induct)
  case less
  show ?case
  proof (cases "split_frame rx")
    case (FrameOk f n)
    obtain ok m where pf: "parse_frame f = (ok, m)"
      by fastforce
    obtain s2 g2 where h: "handle_message net m (s\<lparr>in_seq := inc32 (in_seq s)\<rparr>) g = Some (s2, g2)"
      "drain_frames net (drop n rx) s2 g2 = Some (s1, g1)"
      using less.prems by (subst (asm) drain_frames.simps) (auto simp: FrameOk pf split: if_splits bind_splits option.splits)
    have "length (drop n rx) < length rx"
      using split_frame_ok(1,2) [OF FrameOk] by simp
    from less.hyps [OF this h(2) less.prems(2)] show ?thesis
      using handler_stopped [OF h(1)] handler_gateway_running [OF h(1)] by simp
  qed (use less.prems in \<open>subst (asm) drain_frames.simps, auto split: bind_splits\<close>)+
qed

text \<open>A stream drained at once, while the session runs, can be drained in two parts.\<close>

lemma drain_split:
  "drain_frames net (rx @ b) s g = Some (s2, g2) \<Longrightarrow> s_running s2 \<Longrightarrow>
    \<exists>s1 g1. drain_frames net rx s g = Some (s1, g1) \<and> s_running s1 \<and> drain_frames net (rx_buf s1 @ b) s1 g1 = Some (s2, g2)"
proof (induction "length rx" arbitrary: rx s g rule: less_induct)
  case less
  show ?case
  proof (cases "split_frame rx")
    case Incomplete
    have "but_buffer s (s\<lparr>rx_buf := rx\<rparr>)"
      by (simp add: but_buffer_def same_core_def)
    from drain_buffer [OF this] show ?thesis
      using less.prems drain_stopped [OF less.prems] by (subst drain_frames.simps) (simp add: Incomplete)
  next
    case Malformed
    then show ?thesis
      using less.prems split_frame_append [OF Malformed, of b]
      by (subst (asm) drain_frames.simps) (auto split: bind_splits)
  next
    case (FrameOk f n)
    have fr: "split_frame (rx @ b) = FrameOk f n" "n \<le> length rx" "length (drop n rx) < length rx"
      using split_frame_append [OF FrameOk, of b] split_frame_ok(1,2) [OF FrameOk] by simp_all
    obtain ok m where pf: "parse_frame f = (ok, m)"
      by fastforce
    obtain s3 g3 where h: "ok" "handle_message net m (s\<lparr>in_seq := inc32 (in_seq s)\<rparr>) g = Some (s3, g3)"
      "drain_frames net (drop n rx @ b) s3 g3 = Some (s2, g2)"
      using less.prems fr(1,2) by (subst (asm) drain_frames.simps) (auto simp: pf split: if_splits bind_splits option.splits)
    from less.hyps [OF fr(3) h(3) less.prems(2)] show ?thesis
      by (subst drain_frames.simps) (simp add: FrameOk pf h(1,2))
  qed
qed

section \<open>Properties\<close>

text \<open>
  C15.  Chunk boundaries do not matter.  When draining a whole stream at once leaves the session
  running, the receive loop computes exactly that result for every way of cutting the stream into
  non-empty chunks: frames that arrive in pieces, several frames in one chunk and anything in between
  are handled alike.
\<close>

theorem chunks_irrelevant:
  assumes "drain_frames net (rx_buf s @ concat cs) s g = Some (s1, g1)" "s_running s1" "g_running g"
    and "[] \<notin> set cs" "cs \<noteq> []"
  shows "session_loop net cs s g = Some (close_session s1, g1)"
  using assms
proof (induction cs arbitrary: s g)
  case (Cons c cs)
  from drain_split [of net "rx_buf s @ c" "concat cs" s g, OF _ Cons.prems(2)] Cons.prems(1) obtain s2 g2 where
    d: "drain_frames net (rx_buf s @ c) s g = Some (s2, g2)" "s_running s2"
    "drain_frames net (rx_buf s2 @ concat cs) s2 g2 = Some (s1, g1)"
    by auto
  have run: "s_running s" "g_running g2"
    using drain_stopped [OF d(1,2)] Cons.prems(3) by simp_all
  show ?case
  proof (cases "cs = []")
    case True
    then have "drain_frames net (rx_buf s @ c) s g = Some (s1, g1)"
      using Cons.prems(1) by simp
    then show ?thesis
      using run Cons.prems True by auto
  next
    case False
    then show ?thesis
      using Cons.IH [OF d(3) Cons.prems(2) run(2)] run d(1) Cons.prems(3,4) by auto
  qed
qed simp

text \<open>A cancel of the only bid.\<close>

definition demo_cancel :: string where
  "demo_cancel = ''8=FIX.4.4'' @ [SOH] @ ''9=15'' @ [SOH] @ ''35=F'' @ [SOH] @ ''11=B'' @ [SOH] @ ''37=4'' @ [SOH] @ ''10=168'' @ [SOH]"

theorem chunks_irrelevant_witness:
  "\<exists>s1 g1. session_loop demo_net [take 30 demo_logon, drop 30 demo_logon @ take 9 demo_cancel, drop 9 demo_cancel]
       (session_init 5) demo_gw = Some (close_session s1, g1) \<and>
     drain_frames demo_net (demo_logon @ demo_cancel) (session_init 5) demo_gw = Some (s1, g1)"
proof -
  let ?cs = "[take 30 demo_logon, drop 30 demo_logon @ take 9 demo_cancel, drop 9 demo_cancel]"
  have "map_option (\<lambda>r. s_running (fst r)) (drain_frames demo_net (demo_logon @ demo_cancel) (session_init 5) demo_gw) = Some True"
    by code_simp
  then obtain s1 g1 where d: "drain_frames demo_net (demo_logon @ demo_cancel) (session_init 5) demo_gw = Some (s1, g1)" "s_running s1"
    by auto
  have "concat ?cs = demo_logon @ demo_cancel" "rx_buf (session_init 5) = []" "g_running demo_gw" "?cs \<noteq> []" "[] \<notin> set ?cs"
    by (simp_all add: session_init_def demo_gw_def demo_logon_def demo_cancel_def)
  then show ?thesis
    using chunks_irrelevant [of demo_net "session_init 5" ?cs demo_gw s1 g1] d by (metis append_Nil)
qed

text \<open>
  C18.  A stopped session still acts.  The loop over the received frames does not look at the flag: after a
  Logout, a failed send or a refused message the frames that are already in the buffer are handled
  exactly as if the session were running, with the same effect on the book and the same output.
\<close>

theorem stopped_session_still_acts:
  assumes "drain_frames net rx s g = Some (s1, g1)"
  shows "\<exists>s2. drain_frames net rx (s\<lparr>s_running := False\<rparr>) g = Some (s2, g1) \<and> wire s2 = wire s1"
proof -
  have "but_running s t \<Longrightarrow> run.both2 (drain_frames net rx s g) (drain_frames net rx t g)" for t
  proof (induction "length rx" arbitrary: rx s t g rule: less_induct)
    case less
    have rx: "but_running (a\<lparr>rx_buf := rx\<rparr>) (b\<lparr>rx_buf := rx\<rparr>)" if "but_running a b" for a b
      using that by (simp add: but_running_def same_core_def)
    have stop: "run.both2 (Option.bind (send_logout net v s g) (\<lambda>s1. Some (s1\<lparr>s_running := False, rx_buf := rx\<rparr>, g)))
        (Option.bind (send_logout net v t g) (\<lambda>s1. Some (s1\<lparr>s_running := False, rx_buf := rx\<rparr>, g)))" for v
      by (intro run.both_bind run.send_logout_sim less.prems) (simp add: rx run.stops)
    show ?case
    proof (cases "split_frame rx")
      case (FrameOk f n)
      obtain ok m where pf: "parse_frame f = (ok, m)"
        by fastforce
      have seq: "in_seq t = in_seq s"
        using less.prems by (simp add: but_running_def same_core_def)
      have h: "run.both2 (handle_message net m (s\<lparr>in_seq := inc32 (in_seq s)\<rparr>) g) (handle_message net m (t\<lparr>in_seq := inc32 (in_seq s)\<rparr>) g)"
        by (rule run.handle_message_sim [OF run.counts [OF less.prems]])
      have len: "length (drop n rx) < length rx"
        using split_frame_ok(1,2) [OF FrameOk] by simp
      show ?thesis
        by (subst (1 2) drain_frames.simps, cases "handle_message net m (s\<lparr>in_seq := inc32 (in_seq s)\<rparr>) g")
          (use h stop less.hyps [OF len] in \<open>auto simp: FrameOk pf seq split: option.splits\<close>)
    qed (subst (1 2) drain_frames.simps, use stop rx [OF less.prems] in simp)+
  qed
  from this [of "s\<lparr>s_running := False\<rparr>"] show ?thesis
    using assms by (auto simp: but_running_def same_core_def)
qed

theorem stopped_session_still_acts_witness:
  "\<exists>s2 g1. drain_frames demo_net demo_cancel (demo_session\<lparr>s_running := False\<rparr>) demo_gw = Some (s2, g1) \<and>
     qty_at Buy 99 (book (g_engine demo_gw)) = Some 10 \<and> qty_at Buy 99 (book (g_engine g1)) = Some 0"
proof -
  have "map_option (\<lambda>r. qty_at Buy 99 (book (g_engine (snd r))))
      (drain_frames demo_net demo_cancel demo_session demo_gw) = Some (Some 0)" "qty_at Buy 99 (book (g_engine demo_gw)) = Some 10"
    by code_simp+
  then obtain s1 g1 where "drain_frames demo_net demo_cancel demo_session demo_gw = Some (s1, g1)"
    "qty_at Buy 99 (book (g_engine g1)) = Some 0" "qty_at Buy 99 (book (g_engine demo_gw)) = Some 10"
    by auto
  then show ?thesis
    using stopped_session_still_acts [of demo_net demo_cancel demo_session demo_gw s1 g1] by metis
qed

end
