(* ===== verification/Ptp.thy ===== *)
theory Ptp
  imports C_Text
begin

text \<open>
  The clock synchronisation of \<open>src/mvp/src/ptp/\<close>: the client with its three backends
  (\<open>ptp_client.h\<close>, \<open>ptp_client.cpp\<close>) and the mock master (\<open>ptp_oracle.cpp\<close>).  Clock readings and the
  results of system calls are arguments.  The outer \<^term>\<open>None\<close> is undefined behaviour: a signed
  overflow, a conversion that does not fit; the inner one is \<open>std::nullopt\<close>.
\<close>

unbundle bit_operations_syntax

section \<open>State\<close>

datatype backend = AutoBackend | LinuxPhc | Ptp4lUds | MockOracle

record ptp_config =
  cfg_backend :: backend
  phc_device :: string
  ptp4l_uds :: string
  mock_host :: string
  mock_port :: nat
  sync_interval_ms :: nat
  ewma_alpha :: double

definition ptp_config_default :: ptp_config where
  "ptp_config_default = \<lparr>cfg_backend = AutoBackend, phc_device = ''/dev/ptp0'', ptp4l_uds = ''/var/run/ptp4l'',
     mock_host = ''127.0.0.1'', mock_port = 9881, sync_interval_ms = 250, ewma_alpha = Fin False (1 / 8)\<rparr>"

record ptp_sample =
  offset_ns :: int
  one_way_ns :: int
  local_ns :: nat
  valid :: bool

definition ptp_sample_default :: ptp_sample where
  "ptp_sample_default = \<lparr>offset_ns = 0, one_way_ns = 0, local_ns = 0, valid = False\<rparr>"

record ptp_client =
  p_cfg :: ptp_config
  active :: backend
  offset_ewma_ns :: int
  sample_count :: nat
  p_running :: bool
  sync_joinable :: bool

definition ptp_client_init :: "ptp_config \<Rightarrow> ptp_client" where
  "ptp_client_init c = \<lparr>p_cfg = c, active = MockOracle, offset_ewma_ns = 0, sample_count = 0,
     p_running = False, sync_joinable = False\<rparr>"

section \<open>The mock exchange\<close>

definition kDatagramMax :: nat where "kDatagramMax = 128"

text \<open>The directives of the formats: literal text and white space.\<close>

fun scan_lit :: "string \<Rightarrow> unit scanner" where
  "scan_lit [] s = Some (Some ((), s))"
| "scan_lit (p # ps) [] = Some None"
| "scan_lit (p # ps) (c # cs) = (if p = c then scan_lit ps cs else Some None)"

definition scan_ws :: "unit scanner" where
  "scan_ws s = Some (Some ((), dropWhile is_space s))"

definition c_string :: "string \<Rightarrow> string" where
  "c_string s = takeWhile (\<lambda>c. c \<noteq> CHR 0x00) s"

text \<open>The format \<open>PTP1 T1=%lld\<close> and its extension by \<open>T2\<close> and \<open>T3\<close>.\<close>

definition scan_request :: "int scanner" where
  "scan_request =
     then_scan (scan_lit ''PTP1'') (\<lambda>_. then_scan scan_ws (\<lambda>_. then_scan (scan_lit ''T1='') (\<lambda>_. scan_signed)))"

definition scan_reply :: "(int \<times> int \<times> int) scanner" where
  "scan_reply =
     then_scan scan_request (\<lambda>t1.
     then_scan scan_ws (\<lambda>_. then_scan (scan_lit ''T2='') (\<lambda>_. then_scan scan_signed (\<lambda>t2.
     then_scan scan_ws (\<lambda>_. then_scan (scan_lit ''T3='') (\<lambda>_. then_scan scan_signed (\<lambda>t3.
       (\<lambda>s. Some (Some ((t1, t2, t3), s))))))))))"

definition request_text :: "int \<Rightarrow> string" where
  "request_text t1 = ''PTP1 T1='' @ to_chars t1 @ [nl]"

definition reply_text :: "int \<Rightarrow> int \<Rightarrow> int \<Rightarrow> string" where
  "reply_text t1 t2 t3 = ''PTP1 T1='' @ to_chars t1 @ '' T2='' @ to_chars t2 @ '' T3='' @ to_chars t3 @ [nl]"

text \<open>
  The surroundings of one exchange: the socket, whether the address parses, the two readings of the
  local clock, the result of \<open>sendto\<close> for a length, and the datagram received (\<^term>\<open>None\<close>: timeout).
\<close>

record mock_env =
  me_socket :: int
  me_pton :: bool
  me_t1 :: int
  me_sendto :: "nat \<Rightarrow> int"
  me_recv :: "string option"
  me_t4 :: int

definition mock_sample :: "int \<Rightarrow> int \<Rightarrow> int \<Rightarrow> int \<Rightarrow> ptp_sample option" where
  "mock_sample t1 t2 t3 t4 = do {
     a \<leftarrow> chk64 (t2 - t1);
     b \<leftarrow> chk64 (a + t3);
     c \<leftarrow> chk64 (b - t4);
     d \<leftarrow> chk64 (t4 - t1);
     e \<leftarrow> chk64 (t3 - t2);
     f \<leftarrow> chk64 (d - e);
     Some \<lparr>offset_ns = c sdiv 2, one_way_ns = f sdiv 2, local_ns = u64 t4, valid = True\<rparr> }"

definition sample_mock :: "mock_env \<Rightarrow> ptp_sample option option" where
  "sample_mock env =
     (let t1 = me_t1 env; buf = request_text t1; n = length buf
      in if me_socket env < 0 then Some None
         else if \<not> me_pton env then Some None
         else if me_sendto env n \<noteq> int n then Some None
         else (case me_recv env of
                 None \<Rightarrow> Some None
               | Some d \<Rightarrow>
                   let rbuf = take (kDatagramMax - 1) d
                   in if rbuf = [] then Some None
                      else (case scan_reply (c_string rbuf) of
                              None \<Rightarrow> None
                            | Some None \<Rightarrow> Some None
                            | Some (Some ((rt1, t2, t3), r)) \<Rightarrow>
                                if rt1 \<noteq> t1 then Some None
                                else map_option Some (mock_sample t1 t2 t3 (me_t4 env)))))"

text \<open>The master: \<open>t2\<close> and \<open>t3\<close> are the two readings of its clock; \<^term>\<open>Some None\<close> when it does not reply.\<close>

definition kMasterOffsetNs :: int where "kMasterOffsetNs = 1234567"

definition oracle_reply :: "string \<Rightarrow> int \<Rightarrow> int \<Rightarrow> string option option" where
  "oracle_reply datagram t2 t3 =
     (let buf = take 255 datagram
      in if buf = [] then Some None
         else (case scan_request (c_string buf) of
                 None \<Rightarrow> None
               | Some None \<Rightarrow> Some None
               | Some (Some (t1, r)) \<Rightarrow> do {
                   t3' \<leftarrow> chk64 (t3 + kMasterOffsetNs);
                   t2' \<leftarrow> chk64 (t2 + kMasterOffsetNs);
                   Some (Some (reply_text t1 t2' t3')) }))"

section \<open>The other backends\<close>

text \<open>
  The hardware clock: \<open>native\<close> says whether the build has it.  \<open>ph_gettime\<close> gives the seconds and
  nanoseconds of a clock, if the call succeeds.
\<close>

record phc_env =
  ph_open :: int
  ph_gettime :: "int \<Rightarrow> (int \<times> int) option"
  ph_mono :: int

definition fd_to_clockid :: "int \<Rightarrow> int" where
  "fd_to_clockid fd = signed_take_bit 31 (push_bit 3 (NOT fd)) OR 3"

definition timespec_ns :: "int \<times> int \<Rightarrow> int option" where
  "timespec_ns ts = do { s \<leftarrow> chk64 (fst ts * 1000000000); chk64 (s + snd ts) }"

definition sample_phc :: "bool \<Rightarrow> phc_env \<Rightarrow> ptp_sample option option" where
  "sample_phc native env =
     (if \<not> native then Some None
      else if ph_open env < 0 then Some None
      else (case (ph_gettime env (fd_to_clockid (ph_open env)), ph_gettime env 0) of
              (Some phc, Some sys) \<Rightarrow> do {
                phc_ns \<leftarrow> timespec_ns phc;
                sys_ns \<leftarrow> timespec_ns sys;
                d \<leftarrow> chk64 (phc_ns - sys_ns);
                Some (Some \<lparr>offset_ns = d, one_way_ns = 0, local_ns = u64 (ph_mono env), valid = True\<rparr>) }
            | _ \<Rightarrow> Some None))"

definition sample_ptp4l :: "int \<Rightarrow> ptp_sample option option" where
  "sample_ptp4l sock = (if sock < 0 then Some None else Some None)"

section \<open>The client\<close>

record ptp_env =
  e_phc :: phc_env
  e_uds :: int
  e_mock :: mock_env

definition sample :: "bool \<Rightarrow> ptp_env \<Rightarrow> ptp_client \<Rightarrow> ptp_sample option" where
  "sample native env c = do {
     s \<leftarrow> (case active c of
             LinuxPhc \<Rightarrow> sample_phc native (e_phc env)
           | Ptp4lUds \<Rightarrow> sample_ptp4l (e_uds env)
           | MockOracle \<Rightarrow> sample_mock (e_mock env)
           | AutoBackend \<Rightarrow> Some None);
     Some (case s of None \<Rightarrow> ptp_sample_default | Some x \<Rightarrow> x) }"

text \<open>\<open>access\<close> answers for the two device files.\<close>

definition resolve_backend :: "bool \<Rightarrow> bool \<Rightarrow> bool \<Rightarrow> ptp_client \<Rightarrow> bool \<times> ptp_client" where
  "resolve_backend native acc_phc acc_uds c =
     (if cfg_backend (p_cfg c) \<noteq> AutoBackend then (True, c\<lparr>active := cfg_backend (p_cfg c)\<rparr>)
      else if native \<and> acc_phc then (True, c\<lparr>active := LinuxPhc\<rparr>)
      else if ptp4l_uds (p_cfg c) \<noteq> [] \<and> acc_uds then (True, c\<lparr>active := Ptp4lUds\<rparr>)
      else (True, c\<lparr>active := MockOracle\<rparr>))"

definition ptp_start :: "bool \<Rightarrow> bool \<Rightarrow> bool \<Rightarrow> ptp_client \<Rightarrow> bool \<times> ptp_client" where
  "ptp_start native acc_phc acc_uds c =
     (if p_running c then (True, c)
      else let (ok, c1) = resolve_backend native acc_phc acc_uds (c\<lparr>p_running := True\<rparr>)
           in if \<not> ok then (False, c1\<lparr>p_running := False\<rparr>) else (True, c1\<lparr>sync_joinable := True\<rparr>))"

definition ptp_stop :: "ptp_client \<Rightarrow> ptp_client" where
  "ptp_stop c = (if \<not> p_running c then c else c\<lparr>p_running := False, sync_joinable := False\<rparr>)"

text \<open>The new estimate, and one turn of the synchronisation thread.\<close>

definition ewma :: "double \<Rightarrow> int \<Rightarrow> int \<Rightarrow> int option" where
  "ewma alpha prev offset = do {
     d \<leftarrow> chk64 (offset - prev);
     to_int64 (fadd (double_of prev) (fmul alpha (double_of d))) }"

definition sync_step :: "bool \<Rightarrow> ptp_env \<Rightarrow> ptp_client \<Rightarrow> ptp_client option" where
  "sync_step native env c = do {
     s \<leftarrow> sample native env c;
     if valid s then do {
       fresh \<leftarrow> (if sample_count c = 0 then Some (offset_ns s)
                 else ewma (ewma_alpha (p_cfg c)) (offset_ewma_ns c) (offset_ns s));
       Some (c\<lparr>offset_ewma_ns := fresh, sample_count := inc64 (sample_count c)\<rparr>) }
     else Some c }"

text \<open>The turns of the thread while the client is running.\<close>

fun sync_loop :: "bool \<Rightarrow> ptp_env list \<Rightarrow> ptp_client \<Rightarrow> ptp_client option" where
  "sync_loop native [] c = Some c"
| "sync_loop native (env # envs) c =
     (if \<not> p_running c then Some c else do { c' \<leftarrow> sync_step native env c; sync_loop native envs c' })"

definition to_master_ns :: "ptp_client \<Rightarrow> int \<Rightarrow> int option" where
  "to_master_ns c t = chk64 (t + offset_ewma_ns c)"

section \<open>The text of an exchange\<close>

lemma scan_lit_append: "scan_lit p (p @ s) = Some (Some ((), s))"
  by (induction p) simp_all

lemma then_scan_ok: "f s = Some (Some (a, r)) \<Longrightarrow> then_scan f g s = g a r"
  by (simp add: then_scan_def)

lemma ws_T: "scan_ws (CHR '' '' # CHR ''T'' # s) = Some (Some ((), CHR ''T'' # s))"
  by (simp add: scan_ws_def is_space_def byte_def)

lemma stops: "number_stops (nl # s)" "number_stops (CHR '' '' # s)"
  by (simp_all add: number_stops_def is_digit_def byte_def nl_def)

lemma scan_request_text:
  assumes "is_s64 t1" "number_stops r"
  shows "scan_request (''PTP1 T1='' @ to_chars t1 @ r) = Some (Some (t1, r))"
  using scan_fields(2) [OF assms(2,1)] ws_T by (simp add: scan_request_def then_scan_def)

lemma scan_reply_text:
  assumes "is_s64 t1" "is_s64 t2" "is_s64 t3"
  shows "scan_reply (reply_text t1 t2 t3) = Some (Some ((t1, t2, t3), [nl]))"
proof -
  have "scan_request (''PTP1 T1='' @ to_chars t1 @ '' T2='' @ s) = Some (Some (t1, '' T2='' @ s))"
    "scan_signed (to_chars t2 @ '' T3='' @ s) = Some (Some (t2, '' T3='' @ s))"
    "scan_signed (to_chars t3 @ [nl]) = Some (Some (t3, [nl]))" for s
    using assms stops by (intro scan_request_text scan_fields(2); simp)+
  then show ?thesis
    using ws_T by (simp add: scan_reply_def reply_text_def then_scan_def)
qed

lemma to_chars_length: "is_s64 v \<Longrightarrow> length (to_chars v) \<le> 20"
proof -
  assume "is_s64 v"
  then have "nat \<bar>v\<bar> < 10 ^ 19"
    by (auto simp: is_s64_def int64_min_def int64_max_def nat_less_iff)
  then have "length (dec (nat \<bar>v\<bar>)) \<le> 19"
    by (rule dec_length) simp
  then show ?thesis
    by (auto simp: to_chars_def abs_if split: if_splits)
qed

lemma no_nul_text: "c_string s = s" if "\<forall>c \<in> set s. c \<noteq> CHR 0x00"
  using that by (auto simp: c_string_def takeWhile_eq_all_conv)

lemma to_chars_no_nul: "c \<in> set (to_chars v) \<Longrightarrow> c \<noteq> CHR 0x00"
  using dec_props [of "nat \<bar>v\<bar>"] digit_plain by (auto simp: to_chars_def abs_if split: if_splits)

lemma texts_plain: "c_string (request_text t) = request_text t" "c_string (reply_text t t2 t3) = reply_text t t2 t3"
  by (auto simp: request_text_def reply_text_def nl_def dest: to_chars_no_nul intro!: no_nul_text)

text \<open>The master's answer to a request, and what the client makes of an answer.\<close>

lemma oracle_reply_text:
  assumes "is_s64 t1" "is_s64 (t2 + kMasterOffsetNs)" "is_s64 (t3 + kMasterOffsetNs)"
  shows "oracle_reply (request_text t1) t2 t3 = Some (Some (reply_text t1 (t2 + kMasterOffsetNs) (t3 + kMasterOffsetNs)))"
proof -
  have "take 255 (request_text t1) = request_text t1" "request_text t1 \<noteq> []"
    using to_chars_length [OF assms(1)] by (simp_all add: request_text_def)
  moreover have "scan_request (request_text t1) = Some (Some (t1, [nl]))"
    unfolding request_text_def using assms(1) stops by (intro scan_request_text) simp_all
  ultimately show ?thesis
    using assms(2,3) by (simp add: oracle_reply_def texts_plain chk64_id)
qed

definition reachable_env :: "mock_env \<Rightarrow> bool" where
  "reachable_env env \<longleftrightarrow> 0 \<le> me_socket env \<and> me_pton env \<and> (\<forall>n. me_sendto env n = int n)"

lemma sample_mock_reply:
  assumes "reachable_env env" "me_recv env = Some (reply_text t t2 t3)" "is_s64 t" "is_s64 t2" "is_s64 t3"
  shows "sample_mock env = (if t \<noteq> me_t1 env then Some None else map_option Some (mock_sample t t2 t3 (me_t4 env)))"
proof -
  have "length (reply_text t t2 t3) \<le> 127" "reply_text t t2 t3 \<noteq> []"
    using assms(3-5) to_chars_length [of t] to_chars_length [of t2] to_chars_length [of t3]
    by (simp_all add: reply_text_def)
  then have "take 127 (reply_text t t2 t3) = reply_text t t2 t3" "reply_text t t2 t3 \<noteq> []"
    by simp_all
  then show ?thesis
    using assms by (simp add: sample_mock_def Let_def reachable_env_def kDatagramMax_def texts_plain scan_reply_text)
qed

end
