(* ===== verification/Ptp_Properties.thy ===== *)
theory Ptp_Properties
  imports Ptp
begin

text \<open>
  What the clock synchronisation achieves: the error of one exchange, the estimate over many
  exchanges, and a backend that is selected but never delivers.
\<close>

section \<open>One exchange\<close>

text \<open>
  The master's clock is ahead of the local one by \<open>D\<close>.  In local time the request leaves at \<open>t1\<close>,
  reaches the master at \<open>a\<close>, is answered at \<open>b\<close>, and the answer arrives at \<open>t4\<close>.
\<close>

definition exchange :: "int \<Rightarrow> int \<Rightarrow> int \<Rightarrow> mock_env \<Rightarrow> bool" where
  "exchange D a b env \<longleftrightarrow>
     reachable_env env \<and> me_t1 env \<le> a \<and> a \<le> b \<and> b \<le> me_t4 env \<and>
     (\<exists>r. oracle_reply (request_text (me_t1 env)) (a + D) (b + D) = Some (Some r) \<and> me_recv env = Some r)"

definition moderate :: "int \<Rightarrow> bool" where
  "moderate t \<longleftrightarrow> \<bar>t\<bar> \<le> 2 ^ 60"

lemma half_close: "2 * \<bar>n sdiv 2 - m\<bar> \<le> \<bar>n - 2 * m\<bar> + (1 :: int)"
proof -
  have "n sdiv 2 = (if n < 0 then - (- n div 2) else n div 2)"
    by (simp add: signed_divide_int_def sgn_if)
  then have "2 * (n sdiv 2) = n \<or> 2 * (n sdiv 2) = n + 1 \<or> 2 * (n sdiv 2) = n - 1"
    by (cases "n < 0") (simp_all, linarith+)
  then show ?thesis
    by (elim disjE) (arith+)
qed

lemma exchange_sample:
  assumes "exchange D a b env" "moderate (me_t1 env)" "moderate (me_t4 env)" "moderate D"
  obtains s where "sample_mock env = Some (Some s)" "valid s"
    "2 * \<bar>offset_ns s - (D + kMasterOffsetNs)\<bar> \<le> me_t4 env - me_t1 env - (b - a) + 1"
    "one_way_ns s = (me_t4 env - me_t1 env - (b - a)) div 2"
proof -
  define t1 t4 where t: "t1 = me_t1 env" "t4 = me_t4 env"
  have le: "t1 \<le> a" "a \<le> b" "b \<le> t4" and re: "reachable_env env"
    using assms(1) by (auto simp: exchange_def t)
  have bounds: "\<bar>t1\<bar> \<le> 2 ^ 60" "\<bar>t4\<bar> \<le> 2 ^ 60" "\<bar>D\<bar> \<le> 2 ^ 60"
    using assms(2-4) by (simp_all add: moderate_def t)
  then have s64: "is_s64 x" if "\<bar>x\<bar> \<le> 7 * 2 ^ 60" for x
    using that by (auto simp: is_s64_def int64_min_def int64_max_def)
  let ?t2 = "a + D + kMasterOffsetNs" and ?t3 = "b + D + kMasterOffsetNs"
  note k = kMasterOffsetNs_def
  have in64: "is_s64 t1" "is_s64 ?t2" "is_s64 ?t3" "is_s64 (?t2 - t1)" "is_s64 (?t2 - t1 + ?t3)"
    "is_s64 (?t2 - t1 + ?t3 - t4)" "is_s64 (t4 - t1)" "is_s64 (?t3 - ?t2)" "is_s64 (t4 - t1 - (?t3 - ?t2))"
    using le bounds by (intro s64; simp add: k; linarith)+
  have "me_recv env = Some (reply_text t1 ?t2 ?t3)"
    using assms(1) oracle_reply_text [OF in64(1-3)] by (auto simp: exchange_def t)
  from sample_mock_reply [OF re this in64(1-3)]
  have run: "sample_mock env = map_option Some (mock_sample t1 ?t2 ?t3 t4)"
    by (simp add: t)
  define s where "s = \<lparr>offset_ns = (?t2 - t1 + ?t3 - t4) sdiv 2, one_way_ns = (t4 - t1 - (?t3 - ?t2)) sdiv 2, local_ns = u64 t4, valid = True\<rparr>"
  have ms: "mock_sample t1 ?t2 ?t3 t4 = Some s"
    unfolding mock_sample_def chk64_id [OF in64(4)] bind.bind_lunit chk64_id [OF in64(5)] chk64_id [OF in64(6)]
      chk64_id [OF in64(7)] chk64_id [OF in64(8)] chk64_id [OF in64(9)] s_def by (rule refl)
  have "2 * \<bar>offset_ns s - (D + kMasterOffsetNs)\<bar> \<le> \<bar>?t2 - t1 + ?t3 - t4 - 2 * (D + kMasterOffsetNs)\<bar> + 1"
    unfolding s_def ptp_sample.simps by (rule half_close)
  also have "?t2 - t1 + ?t3 - t4 - 2 * (D + kMasterOffsetNs) = (a - t1) - (t4 - b)"
    by simp
  also have "\<bar>(a - t1) - (t4 - b)\<bar> \<le> t4 - t1 - (b - a)"
    using le by linarith
  finally have "2 * \<bar>offset_ns s - (D + kMasterOffsetNs)\<bar> \<le> t4 - t1 - (b - a) + 1"
    by simp
  moreover have "one_way_ns s = (t4 - t1 - (b - a)) div 2"
    using le by (simp add: s_def signed_divide_int_def sgn_if)
  moreover have "valid s"
    by (simp add: s_def)
  ultimately show ?thesis
    using that run ms by (simp add: t)
qed

section \<open>The estimate\<close>

text \<open>With the default weight the new estimate lies between the old one and the sample.\<close>

lemma eighth: "\<bar>d\<bar> \<le> 2 ^ 53 \<Longrightarrow> fmul (Fin False (1 / 8)) (double_of d) = Fin (d < 0) (of_int \<bar>d\<bar> / 8)"
proof -
  assume d: "\<bar>d\<bar> \<le> 2 ^ 53"
  have "2 powi (- 3) = (1 / 8 :: rat)"
    by (simp add: power_int_minus)
  then have dy: "dyadic (of_int \<bar>d\<bar> / 8)"
    using dyadic_scaled [of "\<bar>d\<bar>" "- 3"] d by simp
  have "(of_int \<bar>d\<bar> :: rat) \<le> of_int (2 ^ 53)"
    using d by (simp only: of_int_le_iff)
  then have "of_int \<bar>d\<bar> / 8 < (2 :: rat) powi 54"
    by simp
  from round64_Fin [OF _ this] round_mag_exact [OF dy] show ?thesis
    by (simp add: double_of_exact [OF d])
qed

lemma truncate_between:
  assumes "of_int lo \<le> v" "v \<le> of_int hi" "0 \<le> v" "- (2 ^ 53) \<le> lo" "hi \<le> 2 ^ 53" "v \<noteq> 0"
  obtains k where "to_int64 (round64 False v) = Some k" "lo \<le> k" "k \<le> hi"
    and "to_int64 (round64 True v) = Some (- k)"
proof -
  have hi0: "0 \<le> hi"
    using assms(2,3) by (meson of_int_0_le_iff order_trans)
  have "(of_int hi :: rat) \<le> of_int (2 ^ 53)"
    using assms(5) by (simp only: of_int_le_iff)
  then have "v < 2 powi 54"
    using assms(2) by simp
  from round64_Fin [OF assms(3) this] have fin: "round64 s v = Fin s (round_mag v)" for s
    by simp
  have up: "round_mag v \<le> of_int hi"
    using hi0 assms(2,3,5) by (intro round_mag_le dyadic_int)
  have low: "of_int (max 0 lo) \<le> round_mag v"
    using assms(1-5) of_int_le_iff [of lo hi, where ?'a = rat] by (intro round_mag_ge dyadic_int) (auto simp: max_def)
  define k where "k = \<lfloor>round_mag v\<rfloor>"
  have k: "max 0 lo \<le> k" "k \<le> hi"
    using up low unfolding k_def by (simp_all add: le_floor_iff floor_le_iff)
  then have "is_s64 k" "is_s64 (- k)"
    using assms(5) by (simp_all add: is_s64_def int64_min_def int64_max_def)
  then show ?thesis
    using that [of k] k by (simp add: fin to_int64_def is_s64_def k_def [symmetric])
qed

lemma ewma_between:
  assumes "lo \<le> p" "p \<le> hi" "lo \<le> x" "x \<le> hi" "\<bar>lo\<bar> \<le> 2 ^ 52" "\<bar>hi\<bar> \<le> 2 ^ 52"
  obtains k where "ewma (Fin False (1 / 8)) p x = Some k" "lo \<le> k" "k \<le> hi"
proof -
  define d where "d = x - p"
  have d: "\<bar>d\<bar> \<le> 2 ^ 53" "is_s64 d" and p: "\<bar>p\<bar> \<le> 2 ^ 53"
    using assms by (auto simp: d_def is_s64_def int64_min_def int64_max_def)
  define v :: rat where "v = of_int p + of_int d / 8"
  have sm: "signed_mag (k < 0) \<bar>of_int k\<bar> = of_int k" "signed_mag (k < 0) (\<bar>of_int k\<bar> / 8) = of_int k / 8" for k
    by (simp_all add: signed_mag_def)
  have run: "ewma (Fin False (1 / 8)) p x =
      to_int64 (if v = 0 then Fin (p < 0 \<and> d < 0) 0 else round64 (v < 0) \<bar>v\<bar>)"
    using d(2) unfolding ewma_def d_def [symmetric]
    by (simp add: chk64_id eighth [OF d(1)] double_of_exact [OF p] sm v_def Let_def)
  have "of_int lo \<le> (of_int p :: rat)" "of_int p \<le> (of_int hi :: rat)" "of_int lo \<le> (of_int x :: rat)"
    "of_int x \<le> (of_int hi :: rat)" "(of_int d :: rat) = of_int x - of_int p"
    using assms by (simp_all add: d_def)
  then have v: "of_int lo \<le> v" "v \<le> of_int hi"
    by (simp_all add: v_def field_simps)
  consider "v = 0" | "0 < v" | "v < 0" by linarith
  then show ?thesis
  proof cases
    case 1
    then have "lo \<le> 0" "0 \<le> hi"
      using v by simp_all
    then show ?thesis
      using that [of 0] run 1 by (simp add: to_int64_def int64_min_def int64_max_def)
  next
    case 2
    obtain k where "to_int64 (round64 False v) = Some k" "lo \<le> k" "k \<le> hi"
      by (rule truncate_between [OF v]) (use 2 assms(5,6) in auto)
    then show ?thesis
      using that [of k] run 2 by simp
  next
    case 3
    obtain k where "to_int64 (round64 True (- v)) = Some (- k)" "- hi \<le> k" "k \<le> - lo"
      by (rule truncate_between [of "- hi" "- v" "- lo"]) (use 3 v assms(5,6) in auto)
    then show ?thesis
      using that [of "- k"] run 3 by simp
  qed
qed

section \<open>Many exchanges\<close>

text \<open>
  Every turn is an exchange whose network delay is at most \<open>R\<close>, or one that fails; \<open>good\<close> counts the
  former.
\<close>

definition good_turn :: "int \<Rightarrow> int \<Rightarrow> ptp_env \<Rightarrow> bool" where
  "good_turn D R env \<longleftrightarrow> moderate (me_t1 (e_mock env)) \<and> moderate (me_t4 (e_mock env)) \<and>
     (\<exists>a b. exchange D a b (e_mock env) \<and> me_t4 (e_mock env) - me_t1 (e_mock env) - (b - a) \<le> R)"

definition failed_turn :: "ptp_env \<Rightarrow> bool" where
  "failed_turn env \<longleftrightarrow> sample_mock (e_mock env) = Some None"

definition tracks :: "int \<Rightarrow> int \<Rightarrow> int \<Rightarrow> bool" where
  "tracks M R x \<longleftrightarrow> 2 * \<bar>x - M\<bar> \<le> R + 1"

lemma good_turn_sample:
  assumes "good_turn D R env" "moderate D" "active c = MockOracle"
  obtains s where "sample native env c = Some s" "valid s" "tracks (D + kMasterOffsetNs) R (offset_ns s)"
proof -
  obtain a b where e: "exchange D a b (e_mock env)" "me_t4 (e_mock env) - me_t1 (e_mock env) - (b - a) \<le> R"
    and m: "moderate (me_t1 (e_mock env))" "moderate (me_t4 (e_mock env))"
    using assms(1) by (auto simp: good_turn_def)
  obtain s where "sample_mock (e_mock env) = Some (Some s)" "valid s"
    "2 * \<bar>offset_ns s - (D + kMasterOffsetNs)\<bar> \<le> me_t4 (e_mock env) - me_t1 (e_mock env) - (b - a) + 1"
    by (rule exchange_sample [OF e(1) m assms(2)])
  then show ?thesis
    using that [of s] assms(3) e(2) by (simp add: sample_def tracks_def)
qed

lemma good_not_failed:
  assumes "good_turn D R env" "moderate D"
  shows "\<not> failed_turn env"
proof -
  obtain s where "sample_mock (e_mock env) = Some (Some s)"
    using assms exchange_sample unfolding good_turn_def by metis
  then show ?thesis
    by (simp add: failed_turn_def)
qed

lemma tracks_ewma:
  assumes "tracks M R p" "tracks M R x" "\<bar>M\<bar> + R \<le> 2 ^ 51" "0 \<le> R"
  obtains k where "ewma (Fin False (1 / 8)) p x = Some k" "tracks M R k"
proof -
  let ?h = "(R + 1) div 2"
  have iff: "tracks M R y \<longleftrightarrow> M - ?h \<le> y \<and> y \<le> M + ?h" for y
    unfolding tracks_def by (cases "y \<le> M") (simp_all, linarith+)
  obtain k where "ewma (Fin False (1 / 8)) p x = Some k" "M - ?h \<le> k" "k \<le> M + ?h"
    by (rule ewma_between [of "M - ?h" p "M + ?h" x]) (use assms iff in auto)
  then show ?thesis
    using that iff by blast
qed

lemma sync_loop_tracks:
  assumes "moderate D" "\<bar>D + kMasterOffsetNs\<bar> + R \<le> 2 ^ 51" "0 \<le> R"
  shows "\<forall>env \<in> set envs. good_turn D R env \<or> failed_turn env \<Longrightarrow>
    active c = MockOracle \<Longrightarrow> p_running c \<Longrightarrow> ewma_alpha (p_cfg c) = Fin False (1 / 8) \<Longrightarrow>
    sample_count c + length envs < 2 ^ 64 \<Longrightarrow>
    sample_count c \<noteq> 0 \<longrightarrow> tracks (D + kMasterOffsetNs) R (offset_ewma_ns c) \<Longrightarrow>
    \<exists>c'. sync_loop native envs c = Some c' \<and>
      sample_count c' = sample_count c + length (filter (\<lambda>e. \<not> failed_turn e) envs) \<and>
      (sample_count c' \<noteq> 0 \<longrightarrow> tracks (D + kMasterOffsetNs) R (offset_ewma_ns c')) \<and>
      (sample_count c' = 0 \<longrightarrow> c' = c)"
proof (induction envs arbitrary: c)
  case (Cons env envs)
  show ?case
  proof (cases "failed_turn env")
    case True
    then have "sync_step native env c = Some c"
      using Cons.prems(2) by (simp add: failed_turn_def sync_step_def sample_def ptp_sample_default_def)
    then show ?thesis
      using Cons.IH [of c] Cons.prems True by simp
  next
    case False
    then have "good_turn D R env"
      using Cons.prems(1) by auto
    then obtain s where s: "sample native env c = Some s" "valid s" "tracks (D + kMasterOffsetNs) R (offset_ns s)"
      by (rule good_turn_sample [OF _ assms(1) Cons.prems(2)])
    obtain k where k: "(if sample_count c = 0 then Some (offset_ns s)
        else ewma (ewma_alpha (p_cfg c)) (offset_ewma_ns c) (offset_ns s)) = Some k" "tracks (D + kMasterOffsetNs) R k"
      using s(3) tracks_ewma [OF _ s(3) assms(2,3)] Cons.prems(4,6) by (cases "sample_count c = 0") auto
    define c1 where "c1 = c\<lparr>offset_ewma_ns := k, sample_count := Suc (sample_count c)\<rparr>"
    have "inc64 (sample_count c) = Suc (sample_count c)"
      using Cons.prems(5) by (simp add: inc64_def u64_Suc)
    then have step: "sync_step native env c = Some c1"
      using s(1,2) k(1) by (simp add: sync_step_def c1_def)
    have "\<exists>c'. sync_loop native envs c1 = Some c' \<and>
      sample_count c' = sample_count c1 + length (filter (\<lambda>e. \<not> failed_turn e) envs) \<and>
      (sample_count c' \<noteq> 0 \<longrightarrow> tracks (D + kMasterOffsetNs) R (offset_ewma_ns c')) \<and> (sample_count c' = 0 \<longrightarrow> c' = c1)"
      using Cons.prems k(2) by (intro Cons.IH) (simp_all add: c1_def)
    then show ?thesis
      using step Cons.prems(3) False by (auto simp: c1_def)
  qed
qed simp

section \<open>Properties\<close>

text \<open>
  C34.  The estimate tracks the master.  A client on the mock backend with the default weight, through
  any sequence of exchanges with a network delay of at most \<open>R\<close> and of failed ones, never overflows; it counts
  the successful exchanges, and after the first of them its offset differs from the true one by at most half the delay,
  rounded up.  The exchange includes the text of both datagrams.
\<close>

theorem offset_tracks_master:
  assumes "moderate D" "\<bar>D + kMasterOffsetNs\<bar> + R \<le> 2 ^ 51" "0 \<le> R" "length envs < 2 ^ 64"
    and "\<forall>env \<in> set envs. good_turn D R env \<or> failed_turn env" "\<exists>env \<in> set envs. good_turn D R env"
    and "cfg_backend cfg = MockOracle" "ewma_alpha cfg = Fin False (1 / 8)"
  shows "\<exists>c'. sync_loop native envs (snd (ptp_start native acc_phc acc_uds (ptp_client_init cfg))) = Some c' \<and>
    sample_count c' = length (filter (\<lambda>e. \<not> failed_turn e) envs) \<and>
    2 * \<bar>offset_ewma_ns c' - (D + kMasterOffsetNs)\<bar> \<le> R + 1"
proof -
  let ?c = "snd (ptp_start native acc_phc acc_uds (ptp_client_init cfg))"
  have c: "active ?c = MockOracle" "p_running ?c" "ewma_alpha (p_cfg ?c) = Fin False (1 / 8)" "sample_count ?c = 0"
    using assms(7,8) by (simp_all add: ptp_start_def resolve_backend_def ptp_client_init_def)
  obtain c' where c': "sync_loop native envs ?c = Some c'"
    "sample_count c' = length (filter (\<lambda>e. \<not> failed_turn e) envs)"
    "sample_count c' \<noteq> 0 \<longrightarrow> tracks (D + kMasterOffsetNs) R (offset_ewma_ns c')"
    using sync_loop_tracks [OF assms(1-3,5) c(1-3), of native] c(4) assms(4) by auto
  moreover have "sample_count c' \<noteq> 0"
    using assms(6) c'(2) good_not_failed [OF _ assms(1)] by (auto simp: filter_empty_conv)
  ultimately show ?thesis
    by (simp add: tracks_def)
qed

text \<open>Local clock 1000 to 1500, master 5000 ahead, and a lost datagram.\<close>

definition demo_turn :: "string option \<Rightarrow> ptp_env" where
  "demo_turn r = \<lparr>e_phc = \<lparr>ph_open = - 1, ph_gettime = (\<lambda>_. None), ph_mono = 0\<rparr>, e_uds = - 1,
     e_mock = \<lparr>me_socket = 3, me_pton = True, me_t1 = 1000, me_sendto = int, me_recv = r, me_t4 = 1500\<rparr>\<rparr>"

definition demo_reply :: string where
  "demo_reply = reply_text 1000 (1100 + 5000 + kMasterOffsetNs) (1200 + 5000 + kMasterOffsetNs)"

lemma demo_good: "good_turn 5000 400 (demo_turn (Some demo_reply))"
proof -
  have "oracle_reply (request_text 1000) (1100 + 5000) (1200 + 5000) = Some (Some demo_reply)"
    unfolding demo_reply_def
    by (rule oracle_reply_text) (simp_all add: is_s64_def int64_min_def int64_max_def kMasterOffsetNs_def)
  then show ?thesis
    unfolding good_turn_def exchange_def
    by (simp add: demo_turn_def moderate_def reachable_env_def) (rule exI [of _ 1100], simp, rule exI [of _ 1200], simp)
qed

theorem offset_tracks_master_witness:
  "\<exists>c'. sync_loop False [demo_turn None, demo_turn (Some demo_reply), demo_turn (Some demo_reply)]
       (snd (ptp_start False False True (ptp_client_init (ptp_config_default\<lparr>cfg_backend := MockOracle\<rparr>)))) = Some c' \<and>
     2 * \<bar>offset_ewma_ns c' - 1239567\<bar> \<le> 401"
proof -
  let ?envs = "[demo_turn None, demo_turn (Some demo_reply), demo_turn (Some demo_reply)]"
  have "failed_turn (demo_turn None)"
    by (simp add: failed_turn_def demo_turn_def sample_mock_def Let_def)
  then have "\<forall>env \<in> set ?envs. good_turn 5000 400 env \<or> failed_turn env" "\<exists>env \<in> set ?envs. good_turn 5000 400 env"
    using demo_good by simp_all
  from offset_tracks_master [OF _ _ _ _ this, of "ptp_config_default\<lparr>cfg_backend := MockOracle\<rparr>" False False True]
  show ?thesis
    by (auto simp: moderate_def kMasterOffsetNs_def ptp_config_default_def)
qed

text \<open>
  A reply to another request is never used: a datagram that the master wrote for a request with a
  different time stamp gives no sample, whatever times it carries.
\<close>

theorem stale_reply_rejected:
  assumes "reachable_env env" "oracle_reply (request_text t) t2 t3 = Some (Some r)" "me_recv env = Some r"
    and "t \<noteq> me_t1 env" "is_s64 t"
  shows "sample_mock env = Some None"
proof -
  have "is_s64 (t2 + kMasterOffsetNs)" "is_s64 (t3 + kMasterOffsetNs)"
  proof -
    have "take 255 (request_text t) = request_text t" "request_text t \<noteq> []"
      using to_chars_length [OF assms(5)] by (simp_all add: request_text_def)
    moreover have "scan_request (request_text t) = Some (Some (t, [nl]))"
      unfolding request_text_def using assms(5) stops by (intro scan_request_text) simp_all
    ultimately show "is_s64 (t2 + kMasterOffsetNs)" "is_s64 (t3 + kMasterOffsetNs)"
      using assms(2) by (auto simp: oracle_reply_def texts_plain split: bind_splits)
  qed
  note in64 = assms(5) this
  have "me_recv env = Some (reply_text t (t2 + kMasterOffsetNs) (t3 + kMasterOffsetNs))"
    using assms(2,3) oracle_reply_text [OF in64] by simp
  from sample_mock_reply [OF assms(1) this in64] show ?thesis
    using assms(4) by simp
qed

theorem stale_reply_rejected_witness:
  "sample_mock ((e_mock (demo_turn (Some demo_reply)))\<lparr>me_t1 := 900\<rparr>) = Some None"
proof -
  have "oracle_reply (request_text 1000) (1100 + 5000) (1200 + 5000) = Some (Some demo_reply)"
    unfolding demo_reply_def
    by (rule oracle_reply_text) (simp_all add: is_s64_def int64_min_def int64_max_def kMasterOffsetNs_def)
  then show ?thesis
    by (intro stale_reply_rejected [of _ 1000 "1100 + 5000" "1200 + 5000" demo_reply])
      (simp_all add: demo_turn_def reachable_env_def is_s64_def int64_min_def int64_max_def)
qed

text \<open>
  C35.  A selected backend that never delivers.  On a host without a hardware clock whose \<open>ptp4l\<close> socket
  is accessible the automatic choice is \<open>ptp4l\<close>, \<open>start\<close> reports success, and no number of turns of
  the synchronisation thread ever gives a sample: the offset stays 0 although the fallback would work.
\<close>

theorem ptp4l_never_syncs:
  assumes "cfg_backend cfg = AutoBackend" "ptp4l_uds cfg \<noteq> []" "\<not> (native \<and> acc_phc)"
  shows "\<exists>c. ptp_start native acc_phc True (ptp_client_init cfg) = (True, c) \<and> active c = Ptp4lUds \<and>
    sync_loop native envs c = Some c \<and> offset_ewma_ns c = 0 \<and> sample_count c = 0"
proof -
  let ?c = "(ptp_client_init cfg)\<lparr>p_running := True, active := Ptp4lUds, sync_joinable := True\<rparr>"
  have "ptp_start native acc_phc True (ptp_client_init cfg) = (True, ?c)"
    using assms by (auto simp: ptp_start_def resolve_backend_def ptp_client_init_def)
  moreover have "sync_step native env ?c = Some ?c" for env
    by (simp add: sync_step_def sample_def sample_ptp4l_def ptp_sample_default_def)
  then have "sync_loop native envs ?c = Some ?c"
    by (induction envs) simp_all
  ultimately show ?thesis
    by (simp add: ptp_client_init_def)
qed

theorem ptp4l_never_syncs_witness:
  "\<exists>c. ptp_start False False True (ptp_client_init ptp_config_default) = (True, c) \<and>
     sync_loop False [demo_turn (Some demo_reply)] c = Some c \<and> offset_ewma_ns c = 0"
  using ptp4l_never_syncs [of ptp_config_default False False "[demo_turn (Some demo_reply)]"]
  by (auto simp: ptp_config_default_def)

end
