(* ===== verification/Cycle_Clock.thy ===== *)
theory Cycle_Clock
  imports Doubles
begin

text \<open>
  The cycle counter clock of \<open>src/mvp/src/time/rdtsc.h\<close>: the calibration against the steady clock and the
  conversion of ticks to nanoseconds.  The readings of the counter and of the steady clock are
  arguments.
\<close>

section \<open>Definitions\<close>

record calibration =
  ns_per_tick :: double
  tick_at_anchor :: nat
  ns_at_anchor :: nat

text \<open>The steady clock and the counter before and after the calibration window.\<close>

definition calibrate :: "int \<Rightarrow> nat \<Rightarrow> int \<Rightarrow> nat \<Rightarrow> calibration option" where
  "calibrate t0_ns t0_tk t1_ns t1_tk = do {
     d \<leftarrow> chk64 (t1_ns - t0_ns);
     let dt_ns = u64 d;
     let dt_tk = u64 (int t1_tk - int t0_tk);
     Some \<lparr>ns_per_tick = (if dt_tk > 0 then fdiv (double_of (int dt_ns)) (double_of (int dt_tk)) else Fin False 1),
           tick_at_anchor = t0_tk, ns_at_anchor = u64 t0_ns\<rparr> }"

definition ticks_to_ns :: "calibration \<Rightarrow> nat \<Rightarrow> nat option" where
  "ticks_to_ns c ticks = to_uint64 (fadd (fmul (double_of (int ticks)) (ns_per_tick c)) (Fin False (1 / 2)))"

definition now_ns :: "calibration \<Rightarrow> nat \<Rightarrow> nat option" where
  "now_ns c tk = do {
     let delta = u64 (int tk - int (tick_at_anchor c));
     x \<leftarrow> to_uint64 (fadd (fmul (double_of (int delta)) (ns_per_tick c)) (Fin False (1 / 2)));
     Some (u64 (int (ns_at_anchor c) + int x)) }"

section \<open>Relative error\<close>

lemma round_mag_relative:
  assumes "2 powi (- 1000) \<le> x"
  shows "\<bar>round_mag x - x\<bar> \<le> x * 2 powi (- 53)"
proof -
  have pos: "0 < x"
    by (rule less_le_trans [OF powi_pos assms])
  note b = flog2_bounds [OF pos]
  have "- 1000 < flog2 x + 1"
    using b(2) assms powi_less_iff [of "- 1000" "flog2 x + 1"] by linarith
  then have "\<bar>round_mag x - x\<bar> \<le> 2 powi (flog2 x + 1 - 54)"
    using b(2) pos by (intro round_mag_error) simp_all
  also have "\<dots> = 2 powi flog2 x * 2 powi (- 53)"
    using powi_split [of "flog2 x" "- 53"] by simp
  also have "\<dots> \<le> x * 2 powi (- 53)"
    using b(1) by (intro mult_right_mono) simp_all
  finally show ?thesis .
qed

text \<open>A quotient of integers, multiplied by the divisor again, gives the dividend up to a quarter.\<close>

lemma scaled_quotient:
  assumes "0 < N" "N < 2 ^ 50" "0 < T" "T < 2 ^ 50"
  obtains y r where "fadd (fmul (double_of T) (fdiv (double_of N) (double_of T))) (Fin False (1 / 2)) = Fin False y"
    "of_int N \<le> y" "y < of_int N + 1" "fdiv (double_of N) (double_of T) = Fin False r"
proof -
  define n t :: rat where nt: "n = of_int N" "t = of_int T"
  have dN: "double_of N = Fin False n" "double_of T = Fin False t"
    using assms double_of_exact [of N] double_of_exact [of T] by (simp_all add: nt)
  have "of_int N < (of_int (2 ^ 50) :: rat)" "of_int T < (of_int (2 ^ 50) :: rat)"
    using assms by (simp_all only: of_int_less_iff)
  then have nt_le: "1 \<le> n" "n < 2 ^ 50" "1 \<le> t" "t < 2 ^ 50"
    using assms by (simp_all add: nt)
  define x r p p' where "x = n / t" and "r = round_mag x" and "p = t * r" and "p' = round_mag p"
  have x: "0 < x" "x < 2 powi 50" "2 powi (- 50) \<le> x"
  proof -
    have "x \<le> n / 1" "1 / t \<le> x"
      unfolding x_def using nt_le by (intro frac_le; simp)+
    moreover have "1 / 2 ^ 50 \<le> 1 / t"
      using nt_le by (intro frac_le) simp_all
    moreover have "(2 :: rat) powi 50 = 2 ^ 50" "(2 :: rat) powi (- 50) = 1 / 2 ^ 50"
      by (simp_all add: power_int_minus)
    moreover have "0 < 1 / t"
      using nt_le by simp
    ultimately show "0 < x" "x < 2 powi 50" "2 powi (- 50) \<le> x"
      using nt_le by linarith+
  qed
  have "(2 :: rat) powi (- 1000) \<le> 2 powi (- 50)"
    by (simp only: powi_le_iff)
  then have "\<bar>r - x\<bar> \<le> x * 2 powi (- 53)"
    unfolding r_def using x(3) by (intro round_mag_relative) linarith
  then have "t * \<bar>r - x\<bar> \<le> t * (x * 2 powi (- 53))"
    using nt_le by (intro mult_left_mono) simp_all
  moreover have "t * \<bar>r - x\<bar> = \<bar>p - n\<bar>" "t * (x * 2 powi (- 53)) = n * 2 powi (- 53)"
    using nt_le by (simp_all add: p_def x_def abs_mult_pos' right_diff_distrib)
  moreover have "n * 2 powi (- 53) \<le> 2 ^ 50 * 2 powi (- 53)"
    using nt_le by (intro mult_right_mono) simp_all
  ultimately have p: "\<bar>p - n\<bar> \<le> 1 / 8"
    by (simp add: power_int_minus)
  have two51: "(2 :: rat) powi 51 = 2 ^ 51" "(2 :: rat) ^ 51 = 2 * 2 ^ 50"
    by simp_all
  have p_le: "0 \<le> p" "p < 2 powi 51"
    unfolding two51 using p nt_le by linarith+
  have p': "\<bar>p' - p\<bar> \<le> 1 / 8"
    using round_mag_error [OF p_le] by (simp add: p'_def power_int_minus)
  define y where "y = round_mag (p' + 1 / 2)"
  have y_le: "0 \<le> p' + 1 / 2" "p' + 1 / 2 < 2 powi 51" "p' + 1 / 2 \<noteq> 0"
    unfolding two51 using p p' nt_le by linarith+
  have y: "\<bar>y - (p' + 1 / 2)\<bar> \<le> 1 / 8"
    using round_mag_error [OF y_le(1,2)] by (simp add: y_def power_int_minus)
  have q: "fdiv (double_of N) (double_of T) = Fin False r"
    using nt_le round64_Fin [OF less_imp_le [OF x(1)] x(2)] by (simp add: dN x_def [symmetric] r_def)
  have "fmul (double_of T) (Fin False r) = Fin False p'"
    using round64_Fin [OF p_le] by (simp add: dN p_def [symmetric] p'_def)
  moreover have "fadd (Fin False p') (Fin False (1 / 2)) = Fin False y"
    using round64_Fin [OF y_le(1,2)] y_le by (simp add: signed_mag_def Let_def y_def)
  moreover have "of_int N \<le> y" "y < of_int N + 1"
    using p p' y unfolding nt(1) [symmetric] by linarith+
  ultimately show ?thesis
    using that [of y r] q by simp
qed

lemma round_small: "round64 s 0 = Fin s 0" "round64 s (1 / 2) = Fin s (1 / 2)"
proof -
  have "dyadic (1 / 2)" "dyadic 0"
    using dyadic_scaled [of 1 "- 1"] dyadic_scaled [of 0 0] by (simp_all add: power_int_minus)
  then show "round64 s 0 = Fin s 0" "round64 s (1 / 2) = Fin s (1 / 2)"
    using round64_Fin [of 0 0 s] round64_Fin [of "1 / 2" 0 s] by (simp_all add: round_mag_exact)
qed

lemma zero_quotient:
  assumes "0 < T" "T < 2 ^ 50"
  shows "fdiv (double_of 0) (double_of T) = Fin False 0"
    "fadd (fmul (double_of T) (Fin False 0)) (Fin False (1 / 2)) = Fin False (1 / 2)"
proof -
  have "double_of T = Fin False (of_int T)" "double_of 0 = Fin False 0"
    using assms double_of_exact [of T] double_of_exact [of 0] by simp_all
  then show "fdiv (double_of 0) (double_of T) = Fin False 0"
    "fadd (fmul (double_of T) (Fin False 0)) (Fin False (1 / 2)) = Fin False (1 / 2)"
    using assms by (simp_all add: round_small signed_mag_def Let_def)
qed

lemma zero_ticks: "fadd (fmul (double_of 0) (Fin False r)) (Fin False (1 / 2)) = Fin False (1 / 2)"
proof -
  have "double_of 0 = Fin False 0"
    using double_of_exact [of 0] by simp
  then show ?thesis
    by (simp add: round_small signed_mag_def Let_def)
qed

lemma to_uint64_between:
  assumes "of_nat k \<le> y" "y < of_nat k + 1" "k < 2 ^ 64"
  shows "to_uint64 (Fin False y) = Some k"
proof -
  have "\<lfloor>y\<rfloor> = int k"
    using assms(1,2) by (simp add: floor_eq_iff)
  moreover have "int k < 2 ^ 64"
    using assms(3) by (simp add: of_nat_less_iff flip: of_nat_power)
  ultimately show ?thesis
    by (simp add: to_uint64_def)
qed

section \<open>Monotonicity\<close>

lemma round_mag_mono:
  assumes "0 \<le> x" "x \<le> y"
  shows "round_mag x \<le> round_mag y"
proof (cases "x = y", simp, rule ccontr)
  assume "x \<noteq> y" "\<not> round_mag x \<le> round_mag y"
  moreover have "\<bar>round_mag x - x\<bar> \<le> \<bar>round_mag y - x\<bar>" "\<bar>round_mag y - y\<bar> \<le> \<bar>round_mag x - y\<bar>"
    using assms by (intro round_mag_nearest round_mag_dyadic; simp)+
  ultimately show False
    using assms(2) by (auto simp: abs_if not_le split: if_splits)
qed

section \<open>Properties\<close>

lemma u64_diff_pos:
  assumes "a < 2 ^ 64" "b < 2 ^ 64" "a \<noteq> b"
  shows "0 < u64 (int b - int a)"
proof -
  define m :: int where "m = 2 ^ 64"
  have m: "int a < m" "int b < m"
    using assms(1,2) unfolding m_def by (simp_all add: of_nat_less_iff flip: of_nat_power)
  have "(int b - int a) mod m \<noteq> 0"
  proof
    assume "(int b - int a) mod m = 0"
    then have "int b mod m = int a mod m"
      by (simp only: mod_eq_dvd_iff mod_eq_0_iff_dvd)
    then show False
      using m assms(3) by simp
  qed
  moreover have "0 \<le> (int b - int a) mod m"
    unfolding m_def by simp
  ultimately show ?thesis
    unfolding u64_def m_def [symmetric] by linarith
qed

lemma u64_add_diff: "a \<le> b \<Longrightarrow> u64 (int (u64 a) + int (nat (b - a))) = u64 b"
  by (simp add: u64_def mod_add_left_eq)

text \<open>
  C36.  The calibrated clock agrees with the steady clock.  Both ends of the calibration window are
  converted exactly: reading the clock at the counter value of either end gives the nanoseconds of the
  steady clock there, through the division, the multiplication and the rounding in doubles, and also when the
  counter wraps around inside the window.
\<close>

theorem calibrated_clock_exact:
  assumes "calibrate t0_ns t0_tk t1_ns t1_tk = Some c" "t0_tk < 2 ^ 64" "t1_tk < 2 ^ 64" "t0_tk \<noteq> t1_tk"
    and "0 \<le> t0_ns" "t0_ns \<le> t1_ns" "t1_ns - t0_ns < 2 ^ 50" "u64 (int t1_tk - int t0_tk) < 2 ^ 50"
  shows "now_ns c t0_tk = Some (u64 t0_ns) \<and> now_ns c t1_tk = Some (u64 t1_ns) \<and>
    ticks_to_ns c (u64 (int t1_tk - int t0_tk)) = Some (nat (t1_ns - t0_ns))"
proof -
  define N where "N = t1_ns - t0_ns"
  define T where "T = u64 (int t1_tk - int t0_tk)"
  have N: "0 \<le> N" "N < 2 ^ 50" "u64 N = nat N"
    using assms(6,7) by (simp_all add: N_def u64_def)
  have T: "0 < T" "int T < 2 ^ 50"
    using u64_diff_pos [OF assms(2-4)] assms(8) unfolding T_def [symmetric]
    by (simp_all add: of_nat_less_iff flip: of_nat_power)
  have c: "ns_per_tick c = fdiv (double_of N) (double_of (int T))" "tick_at_anchor c = t0_tk" "ns_at_anchor c = u64 t0_ns"
    using assms(1) T(1) N(1,3) by (auto simp: calibrate_def N_def [symmetric] T_def [symmetric] split: bind_splits)
  have half: "to_uint64 (Fin False (1 / 2)) = Some 0"
    using to_uint64_between [of 0 "1 / 2"] by simp
  have conv: "to_uint64 (fadd (fmul (double_of (int T)) (ns_per_tick c)) (Fin False (1 / 2))) = Some (nat N)"
    and zero: "to_uint64 (fadd (fmul (double_of 0) (ns_per_tick c)) (Fin False (1 / 2))) = Some 0"
  proof -
    obtain y r where y: "fadd (fmul (double_of (int T)) (ns_per_tick c)) (Fin False (1 / 2)) = Fin False y"
      "of_int N \<le> y" "y < of_int N + 1" "ns_per_tick c = Fin False r"
    proof (cases "N = 0")
      case True
      then show ?thesis
        using zero_quotient [of "int T"] T that [of "1 / 2" 0] by (simp add: c(1))
    next
      case False
      then show ?thesis
        using scaled_quotient [of N "int T"] N(1,2) T that unfolding c(1) by (metis order_le_less of_nat_0_less_iff)
    qed
    have "of_nat (nat N) = (of_int N :: rat)" "nat N < 2 ^ 64"
      using N(1,2) by (simp_all add: nat_less_iff)
    then show "to_uint64 (fadd (fmul (double_of (int T)) (ns_per_tick c)) (Fin False (1 / 2))) = Some (nat N)"
      using to_uint64_between [of "nat N" y] y by simp
    show "to_uint64 (fadd (fmul (double_of 0) (ns_per_tick c)) (Fin False (1 / 2))) = Some 0"
      unfolding y(4) zero_ticks by (rule half)
  qed
  have at1: "u64 (int (u64 t0_ns) + int (nat N)) = u64 t1_ns"
    unfolding N_def by (rule u64_add_diff [OF assms(6)])
  have at0: "u64 (int (u64 t0_ns) + int 0) = u64 t0_ns" "u64 (int t0_tk - int t0_tk) = 0" "int 0 = 0"
    by (simp_all add: u64_id u64_def)
  have "now_ns c t1_tk = Some (u64 t1_ns)"
    unfolding now_ns_def Let_def c(2,3) T_def [symmetric] conv bind.bind_lunit at1 by (rule refl)
  moreover have "now_ns c t0_tk = Some (u64 t0_ns)"
    unfolding now_ns_def Let_def c(2,3) at0(2,3) zero bind.bind_lunit using at0(1) by simp
  ultimately show ?thesis
    unfolding ticks_to_ns_def T_def [symmetric] N_def [symmetric] conv by blast
qed

theorem calibrated_clock_exact_witness:
  "\<exists>c. calibrate 1000 18446744073709551606 1007 20 = Some c \<and> now_ns c 20 = Some 1007 \<and> ticks_to_ns c 30 = Some 7"
proof -
  have u: "u64 (int 20 - int 18446744073709551606) = 30" "u64 1000 = 1000" "u64 1007 = 1007"
    by (simp_all add: u64_def)
  obtain c where c: "calibrate 1000 18446744073709551606 1007 20 = Some c"
    by (simp add: calibrate_def chk64_def is_s64_def int64_min_def int64_max_def Let_def)
  from calibrated_clock_exact [OF c] show ?thesis
    using c unfolding u by simp
qed

lemma round64_mono:
  assumes "0 \<le> x" "x \<le> y" "round64 False y = Fin False n"
  obtains m where "round64 False x = Fin False m" "0 \<le> m" "m \<le> n"
proof -
  have n: "n = round_mag y" "round_mag y < 2 ^ 1024"
    using assms(3) by (auto simp: round64_def Let_def not_le split: if_splits)
  have "round_mag x \<le> round_mag y" "0 \<le> round_mag x"
    by (rule round_mag_mono [OF assms(1,2)], rule round_mag_nonneg [OF assms(1)])
  moreover from this n(2) have "round64 False x = Fin False (round_mag x)"
    by (simp only: round64_def Let_def not_le [symmetric] if_False order_le_less_trans) auto
  ultimately show ?thesis
    using that n(1) by simp
qed

lemma nonneg_double: "double_of (int k) = round64 False (of_nat k)"
  by (simp add: double_of_def)

text \<open>
  Conversion keeps the order of intervals: fewer ticks never give more nanoseconds, and never an
  undefined conversion when the longer interval has a defined one.
\<close>

theorem ticks_to_ns_monotone:
  assumes "ns_per_tick c = Fin False r" "0 \<le> r" "a \<le> b" "ticks_to_ns c b = Some y"
  shows "\<exists>x. ticks_to_ns c a = Some x \<and> x \<le> y"
proof -
  obtain B where B: "double_of (int b) = Fin False B"
    using assms(1,4) by (cases "double_of (int b)")
      (auto simp: ticks_to_ns_def to_uint64_def nonneg_double round64_def Let_def split: if_splits)
  then obtain A where A: "double_of (int a) = Fin False A" "0 \<le> A" "A \<le> B"
    using round64_mono [of "of_nat a" "of_nat b" B] assms(3) by (auto simp: nonneg_double)
  obtain P where P: "round64 False (B * r) = Fin False P"
    using assms(1,4) B by (cases "round64 False (B * r)")
      (auto simp: ticks_to_ns_def to_uint64_def round64_def Let_def split: if_splits)
  have "A * r \<le> B * r" "0 \<le> A * r"
    using A assms(2) by (simp_all add: mult_right_mono)
  then obtain Q where Q: "round64 False (A * r) = Fin False Q" "0 \<le> Q" "Q \<le> P"
    using round64_mono P by metis
  have add: "fadd (Fin False z) (Fin False (1 / 2)) = round64 False (z + 1 / 2)" if "0 \<le> z" for z
  proof -
    have "0 < z + 1 / 2"
      using that by linarith
    then show ?thesis
      by (simp add: signed_mag_def Let_def)
  qed
  have run: "ticks_to_ns c b = to_uint64 (round64 False (P + 1 / 2))" "ticks_to_ns c a = to_uint64 (round64 False (Q + 1 / 2))"
    using A B P Q assms(1) add [of P] add [of Q] by (simp_all add: ticks_to_ns_def)
  obtain Y where Y: "round64 False (P + 1 / 2) = Fin False Y"
    using run(1) assms(4) by (cases "round64 False (P + 1 / 2)") (auto simp: to_uint64_def round64_def Let_def split: if_splits)
  obtain X where X: "round64 False (Q + 1 / 2) = Fin False X" "0 \<le> X" "X \<le> Y"
    by (rule round64_mono [OF _ _ Y, of "Q + 1 / 2"]) (use Q in auto)
  have "\<lfloor>X\<rfloor> \<le> \<lfloor>Y\<rfloor>" "0 \<le> \<lfloor>X\<rfloor>"
    using X by (simp_all add: floor_mono)
  then show ?thesis
    using run X(1,3) Y assms(4) by (auto simp: to_uint64_def Let_def split: if_splits)
qed

theorem ticks_to_ns_monotone_witness:
  "\<exists>x. ticks_to_ns \<lparr>ns_per_tick = Fin False (5 / 2), tick_at_anchor = 0, ns_at_anchor = 0\<rparr> 3 = Some x \<and> x \<le> 13"
proof -
  let ?c = "\<lparr>ns_per_tick = Fin False (5 / 2), tick_at_anchor = 0, ns_at_anchor = 0\<rparr>"
  have "ticks_to_ns ?c 5 = Some 13"
    by code_simp
  from ticks_to_ns_monotone [OF _ _ _ this, of "5 / 2" 3] show ?thesis
    by simp
qed

end
