(* ===== verification/Uring.thy ===== *)
theory Uring
  imports Gateway "HOL-Library.Word"
begin

text \<open>
  The io_uring gateway of \<open>src/mvp/src/iouring/\<close>.  In both builds it owns a POSIX gateway and delegates to
  it; the Linux build adds the tags that identify the operations of the ring.
\<close>

unbundle bit_operations_syntax

section \<open>Tags\<close>

text \<open>\<open>int\<close> descriptors are 32-bit words, read as signed numbers by their users.\<close>

definition OP_ACCEPT :: "8 word" where "OP_ACCEPT = 1"
definition OP_READ :: "8 word" where "OP_READ = 2"
definition OP_SEND :: "8 word" where "OP_SEND = 3"
definition OP_CLOSE :: "8 word" where "OP_CLOSE = 4"

definition make_tag :: "8 word \<Rightarrow> 32 word \<Rightarrow> 32 word \<Rightarrow> 64 word" where
  "make_tag k fd ctx = push_bit 56 (ucast k) OR push_bit 24 (ucast fd) OR ucast ctx"

definition tag_kind :: "64 word \<Rightarrow> 8 word" where
  "tag_kind t = ucast (drop_bit 56 t)"

definition tag_fd :: "64 word \<Rightarrow> 32 word" where
  "tag_fd t = ucast (drop_bit 24 t AND 0xFFFFFFFF)"

section \<open>Delegation\<close>

record uring_config =
  u_bind_host :: string
  u_bind_port :: nat
  u_comp_id :: string
  sq_entries :: nat
  use_sq_poll :: bool
  sq_poll_idle_ms :: nat
  register_buffers :: bool
  rx_buffer_count :: nat
  rx_buffer_size :: nat

definition uring_config_default :: uring_config where
  "uring_config_default = \<lparr>u_bind_host = ''127.0.0.1'', u_bind_port = 9878, u_comp_id = ''ENGINE'', sq_entries = 256,
     use_sq_poll = False, sq_poll_idle_ms = 2, register_buffers = True, rx_buffer_count = 64, rx_buffer_size = 4096\<rparr>"

record uring_gateway =
  u_cfg :: uring_config
  posix :: server

definition uring_init :: "uring_config \<Rightarrow> engine \<Rightarrow> feed option \<Rightarrow> uring_gateway" where
  "uring_init c e f =
     \<lparr>u_cfg = c,
      posix = \<lparr>gw = gateway_init \<lparr>bind_host = u_bind_host c, bind_port = u_bind_port c, comp_id = u_comp_id c\<rparr> e f,
               sessions = [], acceptor_joinable = False\<rparr>\<rparr>"

definition uring_start :: "listen_env \<Rightarrow> uring_gateway \<Rightarrow> bool \<times> uring_gateway" where
  "uring_start env u = (let (ok, v) = gateway_start env (posix u) in (ok, u\<lparr>posix := v\<rparr>))"

definition uring_stop :: "uring_gateway \<Rightarrow> uring_gateway" where
  "uring_stop u = u\<lparr>posix := snd (gateway_stop (posix u))\<rparr>"

definition uring_bound_port :: "uring_gateway \<Rightarrow> nat" where
  "uring_bound_port u = bound_port (gw (posix u))"

definition uring_accepted_sessions :: "uring_gateway \<Rightarrow> nat" where
  "uring_accepted_sessions u = accepted (gw (posix u))"

definition uring_orders_received :: "uring_gateway \<Rightarrow> nat" where
  "uring_orders_received u = orders (gw (posix u))"

definition uring_exec_reports_sent :: "uring_gateway \<Rightarrow> nat" where
  "uring_exec_reports_sent u = execs (gw (posix u))"

section \<open>Properties\<close>

text \<open>
  C40.  The tag of an operation gives back its kind and, for a context below \<open>2\<^sup>2\<^sup>4\<close>, its descriptor, also when
  that is negative.  In general the upper eight bits of the context are mixed into the descriptor.
\<close>

theorem tag_round_trip:
  "tag_kind (make_tag k fd ctx) = k \<and> tag_fd (make_tag k fd ctx) = fd OR drop_bit 24 ctx \<and>
   (ctx < 2 ^ 24 \<longrightarrow> tag_fd (make_tag k fd ctx) = fd)"
proof -
  have kind: "tag_kind (make_tag k fd ctx) = k"
    unfolding tag_kind_def make_tag_def
    by (rule bit_word_eqI) (auto simp: bit_simps dest: bit_imp_le_length)
  have mask: "0xFFFFFFFF = (mask 32 :: 64 word)"
    by (simp add: mask_eq_exp_minus_1)
  have fd: "tag_fd (make_tag k fd ctx) = fd OR drop_bit 24 ctx"
    unfolding tag_fd_def make_tag_def mask
    by (rule bit_word_eqI) (auto simp: bit_simps dest: bit_imp_le_length)
  have "drop_bit 24 ctx = 0" if "ctx < 2 ^ 24"
  proof -
    have "uint ctx < 2 ^ 24"
      using that by (simp add: word_less_def)
    then have "uint (drop_bit 24 ctx) = uint 0"
      by (simp add: drop_bit_eq_div uint_div)
    then show ?thesis
      by (rule unsigned_word_eqI)
  qed
  then show ?thesis
    using kind fd by simp
qed

theorem tag_round_trip_witness:
  "tag_fd (make_tag OP_READ (- 1) 5) = - 1 \<and> tag_fd (make_tag OP_READ 4 0x3000000) = 7"
  using tag_round_trip [of OP_READ "- 1" 5] tag_round_trip [of OP_READ 4 "0x3000000"] by simp

end
