(* ===== verification/Drivers.thy ===== *)
theory Drivers
  imports Uring
begin

text \<open>
  The transport drivers of \<open>src/mvp/src/core/\<close>, \<open>dpdk/\<close> and \<open>fpga/\<close> behind the interface \<open>IKernelDriver\<close>, and
  the factory functions.  What the build enables (\<open>HFT_DPDK\<close>, \<open>HFT_FPGA\<close>, \<open>HFT_IOURING\<close>) and the results of the calls into
  the operating system and the DPDK library are arguments.
\<close>

section \<open>Statistics and configuration\<close>

record driver_stats =
  rx_messages :: nat
  tx_messages :: nat
  rx_bytes :: nat
  tx_bytes :: nat
  decode_errors :: nat
  engine_rejects :: nat
  backend_label :: string

definition driver_stats_default :: driver_stats where
  "driver_stats_default = \<lparr>rx_messages = 0, tx_messages = 0, rx_bytes = 0, tx_bytes = 0, decode_errors = 0,
     engine_rejects = 0, backend_label = ''unknown''\<rparr>"

record factory_config =
  f_bind_host :: string
  f_bind_port :: nat
  f_comp_id :: string
  dpdk_eal_args :: string
  dpdk_port_id :: nat
  dpdk_queue_id :: nat
  fpga_device :: string

definition factory_config_default :: factory_config where
  "factory_config_default = \<lparr>f_bind_host = ''127.0.0.1'', f_bind_port = 9878, f_comp_id = ''ENGINE'', dpdk_eal_args = [],
     dpdk_port_id = 0, dpdk_queue_id = 0, fpga_device = ''/dev/hft_fpga0''\<rparr>"

section \<open>Software\<close>

text \<open>While the gateway exists the engine's state is inside it; the feed belongs to the gateway's state, too.\<close>

record software_driver =
  sw_engine :: engine
  sw_cfg :: factory_config
  sw_gateway :: "uring_gateway option"
  sw_stats :: driver_stats
  sw_running :: bool

definition software_init :: "bool \<Rightarrow> factory_config \<Rightarrow> engine \<Rightarrow> software_driver" where
  "software_init native c e =
     \<lparr>sw_engine = e, sw_cfg = c, sw_gateway = None,
      sw_stats = driver_stats_default\<lparr>backend_label := (if native then ''software/io_uring'' else ''software/posix'')\<rparr>,
      sw_running = False\<rparr>"

record software_env =
  se_feed_socket :: int
  se_feed_pton :: bool
  se_listen :: listen_env

definition software_start :: "software_env \<Rightarrow> software_driver \<Rightarrow> bool \<times> software_driver" where
  "software_start env d =
     (if sw_running d then (True, d)
      else let d1 = d\<lparr>sw_running := True\<rparr>;
               fc = feed_config_default\<lparr>dest_host := ''127.0.0.1''\<rparr>;
               (opened, f) = feed_open (se_feed_socket env) (se_feed_pton env) (feed_init fc);
               feed = (if opened then Some f else None);
               gcfg = uring_config_default\<lparr>u_bind_host := f_bind_host (sw_cfg d), u_bind_port := f_bind_port (sw_cfg d),
                        u_comp_id := f_comp_id (sw_cfg d)\<rparr>;
               (ok, u) = uring_start (se_listen env) (uring_init gcfg (sw_engine d1) feed);
               d2 = d1\<lparr>sw_gateway := Some u\<rparr>
           in if \<not> ok then (False, d2\<lparr>sw_running := False\<rparr>) else (True, d2))"

definition software_stop :: "software_driver \<Rightarrow> software_driver" where
  "software_stop d =
     (if \<not> sw_running d then d
      else let d1 = d\<lparr>sw_running := False\<rparr>
           in (case sw_gateway d1 of
                 None \<Rightarrow> d1
               | Some u \<Rightarrow> d1\<lparr>sw_engine := g_engine (gw (posix (uring_stop u))), sw_gateway := None\<rparr>))"

definition software_poll :: "nat \<Rightarrow> software_driver \<Rightarrow> nat \<times> software_driver" where
  "software_poll budget d =
     (case sw_gateway d of
        None \<Rightarrow> (0, d)
      | Some u \<Rightarrow>
          let rx = uring_orders_received u;
              tx = uring_exec_reports_sent u;
              delta = (if rx > rx_messages (sw_stats d) then rx - rx_messages (sw_stats d) else 0)
          in (delta, d\<lparr>sw_stats := (sw_stats d)\<lparr>rx_messages := rx, tx_messages := tx\<rparr>\<rparr>))"

definition software_describe :: "software_driver \<Rightarrow> string" where
  "software_describe d = ''SoftwareDriver['' @ backend_label (sw_stats d) @ ''] on '' @
     f_bind_host (sw_cfg d) @ '':'' @ dec (f_bind_port (sw_cfg d))"

definition make_software_driver :: "bool \<Rightarrow> factory_config \<Rightarrow> engine \<Rightarrow> software_driver" where
  "make_software_driver native c e = software_init native c e"

section \<open>DPDK\<close>

record dpdk_config =
  eal_args :: string
  port_id :: nat
  queue_id :: nat
  nb_rx_desc :: nat
  nb_tx_desc :: nat
  mbuf_pool_sz :: nat
  mtu :: nat

definition dpdk_config_default :: dpdk_config where
  "dpdk_config_default = \<lparr>eal_args = ''-l 0-3 --proc-type=primary'', port_id = 0, queue_id = 0, nb_rx_desc = 1024,
     nb_tx_desc = 1024, mbuf_pool_sz = 8191, mtu = 1500\<rparr>"

text \<open>What the driver holds of the library.\<close>

record dpdk_native =
  mbuf_pool :: bool
  eal_inited :: bool
  port_started :: bool

record dpdk_driver =
  dp_cfg :: dpdk_config
  dp_engine :: engine
  dp_stats :: driver_stats
  dp_running :: bool
  dp_native :: "dpdk_native option"

definition dpdk_init :: "bool \<Rightarrow> dpdk_config \<Rightarrow> engine \<Rightarrow> dpdk_driver" where
  "dpdk_init native c e =
     \<lparr>dp_cfg = c, dp_engine = e,
      dp_stats = driver_stats_default\<lparr>backend_label := (if native then ''dpdk/poll-mode'' else ''dpdk/stub'')\<rparr>,
      dp_running = False, dp_native = None\<rparr>"

text \<open>Extraction of white space separated tokens from a stream.\<close>

function split_args :: "string \<Rightarrow> string list" where
  "split_args s =
     (let r = dropWhile is_space s; tok = takeWhile (\<lambda>c. \<not> is_space c) r
      in if r = [] then [] else tok # split_args (drop (length tok) r))"
  by pat_completeness auto
termination
proof (relation "measure length")
  fix s r tok assume r: "r = dropWhile is_space s" "tok = takeWhile (\<lambda>c. \<not> is_space c) r" "r \<noteq> []"
  then have "\<not> is_space (hd r)"
    using hd_dropWhile [of is_space s] by simp
  then have "0 < length tok"
    using r(2,3) by (cases r) simp_all
  moreover have "length r \<le> length s"
    using r(1) by (simp add: length_dropWhile_le)
  moreover have "0 < length r"
    using r(3) by simp
  ultimately have "length r - length tok < length s"
    by linarith
  then show "(drop (length tok) r, s) \<in> measure length"
    by simp
qed simp

declare split_args.simps [simp del]

record dpdk_env =
  de_eal_init :: "string list \<Rightarrow> int"
  de_pool_create :: bool
  de_configure :: int
  de_start :: int

definition dpdk_start :: "bool \<Rightarrow> dpdk_env \<Rightarrow> dpdk_driver \<Rightarrow> bool \<times> dpdk_driver" where
  "dpdk_start native env d =
     (if dp_running d then (True, d)
      else if \<not> native then (False, d\<lparr>dp_running := False\<rparr>)
      else let n0 = \<lparr>mbuf_pool = False, eal_inited = False, port_started = False\<rparr>;
               argv = ''hft'' # split_args (eal_args (dp_cfg d));
               fail = (\<lambda>n. (False, d\<lparr>dp_running := False, dp_native := Some n\<rparr>))
           in if de_eal_init env argv < 0 then fail n0
              else let n1 = n0\<lparr>eal_inited := True\<rparr>
              in if \<not> de_pool_create env then fail n1
                 else let n2 = n1\<lparr>mbuf_pool := True\<rparr>
                 in if de_configure env < 0 then fail n2
                    else if de_start env < 0 then fail n2
                    else (True, d\<lparr>dp_running := True, dp_native := Some (n2\<lparr>port_started := True\<rparr>)\<rparr>))"

definition dpdk_stop :: "dpdk_driver \<Rightarrow> dpdk_driver" where
  "dpdk_stop d = (if \<not> dp_running d then d else d\<lparr>dp_running := False, dp_native := None\<rparr>)"

definition kBurst :: nat where "kBurst = 32"

fun count_packets :: "nat list \<Rightarrow> driver_stats \<Rightarrow> driver_stats" where
  "count_packets [] st = st"
| "count_packets (len # ls) st =
     count_packets ls (st\<lparr>rx_messages := inc64 (rx_messages st), rx_bytes := u64 (int (rx_bytes st) + int len)\<rparr>)"

text \<open>
  \<open>burst i k\<close> is the result of the \<open>i\<close>-th call of \<open>rte_eth_rx_burst\<close> with room for \<open>k\<close> packets: the lengths
  of the packets.  More packets than there is room for would overrun the array (\<^term>\<open>None\<close>).
\<close>

function dpdk_poll_loop :: "(nat \<Rightarrow> nat \<Rightarrow> nat list) \<Rightarrow> nat \<Rightarrow> nat \<Rightarrow> nat \<Rightarrow> driver_stats \<Rightarrow> (nat \<times> driver_stats) option" where
  "dpdk_poll_loop burst i budget finished st =
     (if \<not> finished < budget then Some (finished, st)
      else let k = min kBurst (budget - finished); ps = burst i k
           in if length ps > k then None
              else if ps = [] then Some (finished, st)
              else dpdk_poll_loop burst (Suc i) budget (finished + length ps) (count_packets ps st))"
  by pat_completeness auto
termination
  by (relation "measure (\<lambda>(burst, i, budget, finished, st). budget - finished)") (simp_all add: diff_less_mono2)

declare dpdk_poll_loop.simps [simp del]

definition dpdk_poll :: "bool \<Rightarrow> (nat \<Rightarrow> nat \<Rightarrow> nat list) \<Rightarrow> nat \<Rightarrow> dpdk_driver \<Rightarrow> (nat \<times> dpdk_driver) option" where
  "dpdk_poll native burst budget d =
     (if \<not> native \<or> \<not> dp_running d then Some (0, d)
      else do { (n, st) \<leftarrow> dpdk_poll_loop burst 0 budget 0 (dp_stats d); Some (n, d\<lparr>dp_stats := st\<rparr>) })"

definition dpdk_describe :: "bool \<Rightarrow> dpdk_driver \<Rightarrow> string" where
  "dpdk_describe native d =
     (if native then ''DpdkDriver[native] port='' @ dec (port_id (dp_cfg d)) @ '' queue='' @ dec (queue_id (dp_cfg d))
      else ''DpdkDriver[stub - HFT_DPDK=OFF or non-Linux build]'')"

definition make_dpdk_driver :: "bool \<Rightarrow> dpdk_env \<Rightarrow> factory_config \<Rightarrow> engine \<Rightarrow> dpdk_driver option" where
  "make_dpdk_driver native env c e =
     (if \<not> native then None
      else let dc = (if dpdk_eal_args c \<noteq> [] then dpdk_config_default\<lparr>eal_args := dpdk_eal_args c\<rparr> else dpdk_config_default);
               (ok, d) = dpdk_start native env (dpdk_init native (dc\<lparr>port_id := dpdk_port_id c, queue_id := dpdk_queue_id c\<rparr>) e)
           in if \<not> ok then None else Some d)"

section \<open>FPGA\<close>

record fpga_config =
  device :: string
  ring_depth :: nat
  use_hw_timestamp :: bool

definition fpga_config_default :: fpga_config where
  "fpga_config_default = \<lparr>device = ''/dev/hft_fpga0'', ring_depth = 4096, use_hw_timestamp = True\<rparr>"

record fpga_driver =
  fp_cfg :: fpga_config
  fp_engine :: engine
  fp_stats :: driver_stats
  fp_running :: bool
  fp_fd :: int
  bar_mmio :: bool
  bar_len :: nat

definition fpga_init :: "bool \<Rightarrow> fpga_config \<Rightarrow> engine \<Rightarrow> fpga_driver" where
  "fpga_init native c e =
     \<lparr>fp_cfg = c, fp_engine = e,
      fp_stats = driver_stats_default\<lparr>backend_label := (if native then ''fpga/mmio'' else ''fpga/stub'')\<rparr>,
      fp_running = False, fp_fd = - 1, bar_mmio = False, bar_len = 0\<rparr>"

text \<open>The descriptor of the device, its size if \<open>fstat\<close> succeeds, and whether the mapping succeeds.\<close>

record fpga_env =
  fe_open :: "string \<Rightarrow> int"
  fe_stat :: "nat option"
  fe_mmap :: bool

definition fpga_start :: "bool \<Rightarrow> fpga_env \<Rightarrow> fpga_driver \<Rightarrow> bool \<times> fpga_driver" where
  "fpga_start native env d =
     (if fp_running d then (True, d)
      else if \<not> native then (False, d\<lparr>fp_running := False\<rparr>)
      else let d1 = d\<lparr>fp_running := True, fp_fd := fe_open env (device (fp_cfg d))\<rparr>
           in if fp_fd d1 < 0 then (False, d1\<lparr>fp_running := False\<rparr>)
              else (case fe_stat env of
                      None \<Rightarrow> (False, d1\<lparr>fp_fd := - 1, fp_running := False\<rparr>)
                    | Some sz \<Rightarrow>
                        if sz = 0 then (False, d1\<lparr>fp_fd := - 1, fp_running := False\<rparr>)
                        else let d2 = d1\<lparr>bar_len := sz, bar_mmio := fe_mmap env\<rparr>
                             in if \<not> fe_mmap env then (False, d2\<lparr>fp_fd := - 1, fp_running := False\<rparr>)
                                else (True, d2)))"

definition fpga_stop :: "fpga_driver \<Rightarrow> fpga_driver" where
  "fpga_stop d =
     (if \<not> fp_running d then d
      else let d1 = d\<lparr>fp_running := False, bar_mmio := False\<rparr>
           in if fp_fd d1 \<ge> 0 then d1\<lparr>fp_fd := - 1\<rparr> else d1)"

definition fpga_poll :: "nat \<Rightarrow> fpga_driver \<Rightarrow> nat \<times> fpga_driver" where
  "fpga_poll budget d = (0, d)"

definition fpga_describe :: "bool \<Rightarrow> fpga_driver \<Rightarrow> string" where
  "fpga_describe native d =
     (if native then ''FpgaDriver[native] dev='' @ device (fp_cfg d) else ''FpgaDriver[stub - HFT_FPGA=OFF]'')"

definition make_fpga_driver :: "bool \<Rightarrow> fpga_env \<Rightarrow> factory_config \<Rightarrow> engine \<Rightarrow> fpga_driver option" where
  "make_fpga_driver native env c e =
     (if \<not> native then None
      else let fc = (if fpga_device c \<noteq> [] then fpga_config_default\<lparr>device := fpga_device c\<rparr> else fpga_config_default);
               (ok, d) = fpga_start native env (fpga_init native fc e)
           in if \<not> ok then None else Some d)"

section \<open>The interface\<close>

datatype kernel_driver = SoftwareDriver software_driver | DpdkDriver dpdk_driver | FpgaDriver fpga_driver

record build =
  hft_iouring :: bool
  hft_dpdk :: bool
  hft_fpga :: bool

record driver_env =
  en_software :: software_env
  en_dpdk :: dpdk_env
  en_fpga :: fpga_env
  en_burst :: "nat \<Rightarrow> nat \<Rightarrow> nat list"

fun driver_start :: "build \<Rightarrow> driver_env \<Rightarrow> kernel_driver \<Rightarrow> bool \<times> kernel_driver" where
  "driver_start b env (SoftwareDriver d) = map_prod id SoftwareDriver (software_start (en_software env) d)"
| "driver_start b env (DpdkDriver d) = map_prod id DpdkDriver (dpdk_start (hft_dpdk b) (en_dpdk env) d)"
| "driver_start b env (FpgaDriver d) = map_prod id FpgaDriver (fpga_start (hft_fpga b) (en_fpga env) d)"

fun driver_stop :: "kernel_driver \<Rightarrow> kernel_driver" where
  "driver_stop (SoftwareDriver d) = SoftwareDriver (software_stop d)"
| "driver_stop (DpdkDriver d) = DpdkDriver (dpdk_stop d)"
| "driver_stop (FpgaDriver d) = FpgaDriver (fpga_stop d)"

fun driver_poll :: "build \<Rightarrow> driver_env \<Rightarrow> nat \<Rightarrow> kernel_driver \<Rightarrow> (nat \<times> kernel_driver) option" where
  "driver_poll b env budget (SoftwareDriver d) = Some (map_prod id SoftwareDriver (software_poll budget d))"
| "driver_poll b env budget (DpdkDriver d) =
     map_option (map_prod id DpdkDriver) (dpdk_poll (hft_dpdk b) (en_burst env) budget d)"
| "driver_poll b env budget (FpgaDriver d) = Some (map_prod id FpgaDriver (fpga_poll budget d))"

text \<open>None of the three drivers overrides the hook with an effect.\<close>

fun driver_flush_tx :: "kernel_driver \<Rightarrow> kernel_driver" where
  "driver_flush_tx d = d"

fun driver_stats_of :: "kernel_driver \<Rightarrow> driver_stats" where
  "driver_stats_of (SoftwareDriver d) = sw_stats d"
| "driver_stats_of (DpdkDriver d) = dp_stats d"
| "driver_stats_of (FpgaDriver d) = fp_stats d"

fun driver_running :: "kernel_driver \<Rightarrow> bool" where
  "driver_running (SoftwareDriver d) = sw_running d"
| "driver_running (DpdkDriver d) = dp_running d"
| "driver_running (FpgaDriver d) = fp_running d"

definition make_best_available_driver :: "build \<Rightarrow> driver_env \<Rightarrow> factory_config \<Rightarrow> engine \<Rightarrow> kernel_driver" where
  "make_best_available_driver b env c e =
     (case make_fpga_driver (hft_fpga b) (en_fpga env) c e of
        Some d \<Rightarrow> FpgaDriver d
      | None \<Rightarrow>
          (case make_dpdk_driver (hft_dpdk b) (en_dpdk env) c e of
             Some d \<Rightarrow> DpdkDriver d
           | None \<Rightarrow> SoftwareDriver (make_software_driver (hft_iouring b) c e)))"

end
