(* ===== verification/Driver_Properties.thy ===== *)
theory Driver_Properties
  imports Drivers
begin

text \<open>
  The contract of \<open>IKernelDriver\<close> as a locale, its three implementations and the dispatch, what \<open>poll\<close>
  counts, and what the factory hands out.
\<close>

section \<open>The contract\<close>

datatype ('e, 'p) driver_op = OpStart 'e | OpStop | OpPoll 'p

datatype driver_event = Started bool | Stopped | Polled nat

text \<open>
  The abstract driver is a flag.  A successful start sets it, a failed one and a stop reset it, and polling
  keeps it; starting a running driver has no effect.
\<close>

fun flag_after :: "bool \<Rightarrow> driver_event list \<Rightarrow> bool" where
  "flag_after r [] = r"
| "flag_after r (Started ok # es) = flag_after ok es"
| "flag_after r (Stopped # es) = flag_after False es"
| "flag_after r (Polled n # es) = flag_after r es"

text \<open>A sequence of calls through the interface, with what they returned.\<close>

fun drive ::
  "('e \<Rightarrow> 'd \<Rightarrow> bool \<times> 'd) \<Rightarrow> ('d \<Rightarrow> 'd) \<Rightarrow> ('p \<Rightarrow> 'd \<Rightarrow> (nat \<times> 'd) option) \<Rightarrow> ('e, 'p) driver_op list \<Rightarrow> 'd \<Rightarrow> (driver_event list \<times> 'd) option" where
  "drive start stop poll [] d = Some ([], d)"
| "drive start stop poll (OpStart e # ops) d =
     (let (ok, d1) = start e d in map_option (map_prod ((#) (Started ok)) id) (drive start stop poll ops d1))"
| "drive start stop poll (OpStop # ops) d = map_option (map_prod ((#) Stopped) id) (drive start stop poll ops (stop d))"
| "drive start stop poll (OpPoll p # ops) d =
     (case poll p d of None \<Rightarrow> None | Some (n, d1) \<Rightarrow> map_option (map_prod ((#) (Polled n)) id) (drive start stop poll ops d1))"

locale driver_contract =
  fixes start :: "'e \<Rightarrow> 'd \<Rightarrow> bool \<times> 'd"
    and stop :: "'d \<Rightarrow> 'd"
    and poll :: "'p \<Rightarrow> 'd \<Rightarrow> (nat \<times> 'd) option"
    and running :: "'d \<Rightarrow> bool"
  assumes start_again: "running d \<Longrightarrow> start e d = (True, d)"
    and start_flag: "running (snd (start e d)) = fst (start e d)"
    and stop_flag: "\<not> running (stop d)"
    and stop_again: "\<not> running d \<Longrightarrow> stop d = d"
    and poll_flag: "poll p d = Some (n, d') \<Longrightarrow> running d' = running d"
begin

lemma drive_flag: "drive start stop poll ops d = Some (es, d') \<Longrightarrow> running d' = flag_after (running d) es"
proof (induction ops arbitrary: d es)
  case (Cons op ops)
  show ?case
  proof (cases op)
    case (OpStart e)
    obtain ok d1 where st: "start e d = (ok, d1)"
      by fastforce
    have ok: "ok = running d1"
      using start_flag [of e d] by (simp add: st)
    show ?thesis
      using Cons by (auto simp: OpStart st ok)
  next
    case OpStop
    then show ?thesis
      using Cons.prems Cons.IH [of "stop d"] stop_flag [of d] by auto
  next
    case (OpPoll p)
    then obtain n d1 es' where "poll p d = Some (n, d1)" "drive start stop poll ops d1 = Some (es', d')" "es = Polled n # es'"
      using Cons.prems by (auto split: option.splits)
    then show ?thesis
      using Cons.IH [of d1 es'] poll_flag [of p d n d1] by simp
  qed
qed simp

lemma stop_stop: "stop (stop d) = stop d"
  by (rule stop_again [OF stop_flag])

end

lemma software_laws:
  "sw_running d \<Longrightarrow> software_start e d = (True, d)"
  "sw_running (snd (software_start e d)) = fst (software_start e d)"
  "\<not> sw_running (software_stop d)" "\<not> sw_running d \<Longrightarrow> software_stop d = d"
  "software_poll n d = (k, d') \<Longrightarrow> sw_running d' = sw_running d"
  by (auto simp: software_start_def software_stop_def software_poll_def Let_def split: option.splits prod.splits)

interpretation software: driver_contract software_start software_stop "\<lambda>n d. Some (software_poll n d)" sw_running
  using software_laws by unfold_locales auto

lemma dpdk_laws:
  "dp_running d \<Longrightarrow> dpdk_start native e d = (True, d)"
  "dp_running (snd (dpdk_start native e d)) = fst (dpdk_start native e d)"
  "\<not> dp_running (dpdk_stop d)" "\<not> dp_running d \<Longrightarrow> dpdk_stop d = d"
  "dpdk_poll native burst n d = Some (k, d') \<Longrightarrow> dp_running d' = dp_running d"
  by (auto simp: dpdk_start_def dpdk_stop_def dpdk_poll_def Let_def split: bind_splits if_splits)

interpretation dpdk: driver_contract "dpdk_start native" dpdk_stop "\<lambda>(burst, n). dpdk_poll native burst n" dp_running
  for native
  using dpdk_laws by unfold_locales auto

lemma fpga_laws:
  "fp_running d \<Longrightarrow> fpga_start native e d = (True, d)"
  "fp_running (snd (fpga_start native e d)) = fst (fpga_start native e d)"
  "\<not> fp_running (fpga_stop d)" "\<not> fp_running d \<Longrightarrow> fpga_stop d = d"
  by (auto simp: fpga_start_def fpga_stop_def Let_def split: option.splits)

interpretation fpga: driver_contract "fpga_start native" fpga_stop "\<lambda>n d. Some (fpga_poll n d)" fp_running
  for native
  using fpga_laws by unfold_locales (auto simp: fpga_poll_def)

text \<open>The dispatch over the three classes satisfies the contract because each class does.\<close>

interpretation kernel: driver_contract "driver_start b" driver_stop "\<lambda>(env, n). driver_poll b env n" driver_running
  for b
proof unfold_locales
  fix d e
  show "driver_running d \<Longrightarrow> driver_start b e d = (True, d)"
    by (cases d) (simp_all add: software_laws(1) dpdk_laws(1) fpga_laws(1))
  show "driver_running (snd (driver_start b e d)) = fst (driver_start b e d)"
    by (cases d) (simp_all add: software_laws(2) dpdk_laws(2) fpga_laws(2))
  show "\<not> driver_running (driver_stop d)"
    by (cases d) (simp_all add: software_laws(3) dpdk_laws(3) fpga_laws(3))
  show "\<not> driver_running d \<Longrightarrow> driver_stop d = d"
    by (cases d) (simp_all add: software_laws(4) dpdk_laws(4) fpga_laws(4))
next
  fix p d n d'
  show "(case p of (env, n) \<Rightarrow> driver_poll b env n) d = Some (n, d') \<Longrightarrow> driver_running d' = driver_running d"
    using software_laws(5) dpdk_laws(5)
    by (cases d; cases p) (auto simp: fpga_poll_def map_prod_def split: prod.splits)
qed

section \<open>Counting\<close>

lemma u64_add: "u64 (int (u64 (a + b)) + c) = u64 (a + (b + c))"
proof -
  define m :: int where "m = 2 ^ 64"
  have "0 < m"
    by (simp add: m_def)
  then show ?thesis
    by (simp add: u64_def mod_simps add.assoc flip: m_def)
qed

lemma count_packets_spec:
  "count_packets ps st =
     (if ps = [] then st
      else st\<lparr>rx_messages := u64 (int (rx_messages st) + int (length ps)),
              rx_bytes := u64 (int (rx_bytes st) + int (sum_list ps))\<rparr>)"
  by (induction ps st rule: count_packets.induct) (simp_all add: inc64_def u64_add)

lemma count_packets_append: "count_packets (ps @ qs) st = count_packets qs (count_packets ps st)"
  by (induction ps st rule: count_packets.induct) simp_all

text \<open>The packets of a run of the loop: one burst for every room offered.\<close>

definition burst_packets :: "(nat \<Rightarrow> nat \<Rightarrow> nat list) \<Rightarrow> nat \<Rightarrow> nat list \<Rightarrow> nat list" where
  "burst_packets burst i ks = concat (map2 burst [i..<i + length ks] ks)"

lemma burst_packets_simps:
  "burst_packets burst i [] = []"
  "burst_packets burst i (k # ks) = burst i k @ burst_packets burst (Suc i) ks"
  by (simp_all add: burst_packets_def upt_rec)

lemma dpdk_poll_loop_spec:
  assumes "\<And>i k. length (burst i k) \<le> k" "f \<le> budget"
  shows "\<exists>ks. dpdk_poll_loop burst i budget f st =
           Some (f + length (burst_packets burst i ks), count_packets (burst_packets burst i ks) st) \<and>
         f + length (burst_packets burst i ks) \<le> budget \<and> list_all (\<lambda>k. 0 < k \<and> k \<le> kBurst) ks \<and>
         (f + length (burst_packets burst i ks) = budget \<or> ks \<noteq> [] \<and> burst (i + length ks - 1) (last ks) = [])"
  using assms
proof (induction burst i budget f st rule: dpdk_poll_loop.induct)
  case (1 burst i budget f st)
  define k where "k = min kBurst (budget - f)"
  define ps where "ps = burst i k"
  have len: "length ps \<le> k" "k \<le> kBurst" "k \<le> budget - f"
    using 1(2) [of i k] by (simp_all add: ps_def k_def)
  have step: "dpdk_poll_loop burst i budget f st =
      (if \<not> f < budget then Some (f, st) else if ps = [] then Some (f, st)
       else dpdk_poll_loop burst (Suc i) budget (f + length ps) (count_packets ps st))"
    using len(1) by (subst dpdk_poll_loop.simps) (simp add: Let_def flip: k_def ps_def)
  consider "\<not> f < budget" | "f < budget" "ps = []" | "f < budget" "ps \<noteq> []"
    by blast
  then show ?case
  proof cases
    case 1
    then show ?thesis
      using \<open>f \<le> budget\<close> step by (intro exI [of _ "[]"]) (simp add: burst_packets_simps)
  next
    case 2
    then have "0 < k"
      by (simp add: k_def kBurst_def)
    then show ?thesis
      using 2 \<open>f \<le> budget\<close> len(2)
      by (intro exI [of _ "[k]"]) (simp add: step burst_packets_simps flip: ps_def)
  next
    case 3
    then have "f + length ps \<le> budget" "0 < k"
      using len by (auto simp: k_def kBurst_def)
    from "1.IH" [OF _ k_def ps_def _ _ 1(2) this(1)] 3 len(1) obtain ks where
      "dpdk_poll_loop burst (Suc i) budget (f + length ps) (count_packets ps st) =
         Some (f + length ps + length (burst_packets burst (Suc i) ks), count_packets (burst_packets burst (Suc i) ks) (count_packets ps st))"
      "f + length ps + length (burst_packets burst (Suc i) ks) \<le> budget" "list_all (\<lambda>k. 0 < k \<and> k \<le> kBurst) ks"
      "f + length ps + length (burst_packets burst (Suc i) ks) = budget \<or>
         ks \<noteq> [] \<and> burst (Suc i + length ks - 1) (last ks) = []"
      by auto
    then show ?thesis
      using 3 \<open>0 < k\<close> len(2)
      by (intro exI [of _ "k # ks"]) (auto simp: step burst_packets_simps count_packets_append simp flip: ps_def)
  qed
qed

section \<open>Properties\<close>

definition demo_env :: driver_env where
  "demo_env =
     \<lparr>en_software = \<lparr>se_feed_socket = 3, se_feed_pton = True,
        se_listen = \<lparr>le_socket = 4, le_pton = True, le_bind = 0, le_listen = 0, le_port = 9878\<rparr>\<rparr>,
      en_dpdk = \<lparr>de_eal_init = (\<lambda>argv. int (length argv)), de_pool_create = True, de_configure = 0, de_start = 0\<rparr>,
      en_fpga = \<lparr>fe_open = (\<lambda>path. 5), fe_stat = Some 65536, fe_mmap = True\<rparr>,
      en_burst = (\<lambda>i k. replicate (min k (70 - 32 * i)) 64)\<rparr>"

definition demo_dpdk :: dpdk_driver where
  "demo_dpdk = (dpdk_init True dpdk_config_default Engine.engine_init)
     \<lparr>dp_running := True, dp_native := Some \<lparr>mbuf_pool = True, eal_inited = True, port_started = True\<rparr>\<rparr>"

text \<open>
  C37.  Whatever sequence of \<open>start\<close>, \<open>stop\<close> and \<open>poll\<close> calls a client makes on a driver of any of the three classes,
  the driver's running flag is the one the contract prescribes for the returned values.  Moreover a second \<open>stop\<close> has
  no effect, and neither has a \<open>start\<close> of a running driver.
\<close>

theorem driver_lifecycle:
  assumes "drive (driver_start b) driver_stop (\<lambda>(env, n). driver_poll b env n) ops d = Some (es, d')"
  shows "driver_running d' = flag_after (driver_running d) es \<and> driver_stop (driver_stop d') = driver_stop d' \<and>
    (driver_running d' \<longrightarrow> driver_start b env d' = (True, d'))"
  using kernel.drive_flag [OF assms] kernel.stop_stop kernel.start_again by blast

theorem driver_lifecycle_witness:
  "\<exists>es d'. drive (driver_start \<lparr>hft_iouring = False, hft_dpdk = False, hft_fpga = True\<rparr>) driver_stop
       (\<lambda>(env, n). driver_poll \<lparr>hft_iouring = False, hft_dpdk = False, hft_fpga = True\<rparr> env n)
       [OpStart demo_env, OpPoll (demo_env, 64), OpStart demo_env]
       (FpgaDriver (fpga_init True fpga_config_default Engine.engine_init)) = Some (es, d') \<and>
     es = [Started True, Polled 0, Started True] \<and> driver_running d'"
proof -
  let ?b = "\<lparr>hft_iouring = False, hft_dpdk = False, hft_fpga = True\<rparr>"
  let ?d = "FpgaDriver (fpga_init True fpga_config_default Engine.engine_init)"
  let ?es = "[Started True, Polled 0, Started True]"
  obtain d' where run: "drive (driver_start ?b) driver_stop (\<lambda>(env, n). driver_poll ?b env n)
      [OpStart demo_env, OpPoll (demo_env, 64), OpStart demo_env] ?d = Some (?es, d')"
    by (simp add: fpga_init_def fpga_start_def fpga_poll_def demo_env_def fpga_config_default_def)
  have "driver_running d'"
    using driver_lifecycle [OF run, of demo_env] by simp
  then show ?thesis
    using run by blast
qed

text \<open>
  C38.  If the receive function respects the room it is given, \<open>poll\<close> of a running DPDK driver returns: it asks for at most
  32 packets at a time, counts every packet it was given exactly once with its length, returns their number,
  which is at most the budget, and stops short of the budget only after an empty burst.
\<close>

theorem dpdk_poll_counts:
  assumes "\<And>i k. length (burst i k) \<le> k" "dp_running d"
  shows "\<exists>ks st. let ps = burst_packets burst 0 ks in
    dpdk_poll True burst budget d = Some (length ps, d\<lparr>dp_stats := st\<rparr>) \<and> length ps \<le> budget \<and>
    list_all (\<lambda>k. 0 < k \<and> k \<le> kBurst) ks \<and>
    (length ps = budget \<or> ks \<noteq> [] \<and> burst (length ks - 1) (last ks) = []) \<and>
    (ps = [] \<and> st = dp_stats d \<or>
     st = (dp_stats d)\<lparr>rx_messages := (rx_messages (dp_stats d) + length ps) mod 2 ^ 64,
                       rx_bytes := (rx_bytes (dp_stats d) + sum_list ps) mod 2 ^ 64\<rparr>)"
proof -
  obtain ks where ks: "dpdk_poll_loop burst 0 budget 0 (dp_stats d) =
      Some (0 + length (burst_packets burst 0 ks), count_packets (burst_packets burst 0 ks) (dp_stats d))"
    "0 + length (burst_packets burst 0 ks) \<le> budget" "list_all (\<lambda>k. 0 < k \<and> k \<le> kBurst) ks"
    "0 + length (burst_packets burst 0 ks) = budget \<or> ks \<noteq> [] \<and> burst (0 + length ks - 1) (last ks) = []"
    using dpdk_poll_loop_spec [of burst 0 budget 0 "dp_stats d", OF assms(1)] by auto
  have u64_nat: "u64 (int a + int c) = (a + c) mod 2 ^ 64" for a c
    unfolding u64_def by (metis nat_int of_nat_add of_nat_mod of_nat_numeral of_nat_power)
  show ?thesis
    using ks assms(2)
    by (intro exI [of _ ks] exI [of _ "count_packets (burst_packets burst 0 ks) (dp_stats d)"])
       (auto simp: Let_def dpdk_poll_def count_packets_spec u64_nat)
qed

theorem dpdk_poll_counts_witness:
  "\<exists>n d'. dpdk_poll True (en_burst demo_env) 100 demo_dpdk = Some (n, d') \<and> n \<le> 100"
  using dpdk_poll_counts [of "en_burst demo_env" demo_dpdk 100]
  by (auto simp: demo_env_def demo_dpdk_def Let_def)

text \<open>
  C39.  The factory prefers FPGA over DPDK over software.  A hardware driver comes back already running with its device
  mapped or its port started, and only the software driver still has to be started.
\<close>

theorem best_available:
  "case make_best_available_driver b env c e of
     FpgaDriver f \<Rightarrow> hft_fpga b \<and> fp_running f \<and> bar_mmio f \<and> 0 < bar_len f \<and> 0 \<le> fp_fd f \<and> fp_engine f = e
   | DpdkDriver p \<Rightarrow> hft_dpdk b \<and> dp_running p \<and> map_option port_started (dp_native p) = Some True \<and> dp_engine p = e \<and>
       make_fpga_driver (hft_fpga b) (en_fpga env) c e = None
   | SoftwareDriver s \<Rightarrow> \<not> sw_running s \<and> sw_cfg s = c \<and> sw_engine s = e \<and>
       make_fpga_driver (hft_fpga b) (en_fpga env) c e = None \<and> make_dpdk_driver (hft_dpdk b) (en_dpdk env) c e = None"
  by (auto simp: make_best_available_driver_def make_fpga_driver_def make_dpdk_driver_def make_software_driver_def
      fpga_start_def dpdk_start_def fpga_init_def dpdk_init_def software_init_def Let_def
      split: option.splits if_splits prod.splits)

text \<open>The polls of a software driver whose gateway has moved on between them.\<close>

fun poll_gateways :: "uring_gateway list \<Rightarrow> software_driver \<Rightarrow> nat \<times> software_driver" where
  "poll_gateways [] d = (0, d)"
| "poll_gateways (u # us) d =
     (let (n, d1) = software_poll 0 (d\<lparr>sw_gateway := Some u\<rparr>); (k, d2) = poll_gateways us d1 in (n + k, d2))"

text \<open>
  As long as the gateway's counter does not go back, the numbers the polls of a software driver return add up to the
  increase of the counter, and the statistics show its last value.
\<close>

theorem software_polls_add_up:
  assumes "sorted (rx_messages (sw_stats d) # map uring_orders_received us)"
  shows "(let (n, d') = poll_gateways us d
          in rx_messages (sw_stats d') = rx_messages (sw_stats d) + n \<and>
             rx_messages (sw_stats d') = last (rx_messages (sw_stats d) # map uring_orders_received us))"
  using assms
proof (induction us arbitrary: d)
  case (Cons u us)
  define d1 where "d1 = snd (software_poll 0 (d\<lparr>sw_gateway := Some u\<rparr>))"
  have rx: "rx_messages (sw_stats d1) = uring_orders_received u"
    "fst (software_poll 0 (d\<lparr>sw_gateway := Some u\<rparr>)) = uring_orders_received u - rx_messages (sw_stats d)"
    using Cons.prems by (simp_all add: d1_def software_poll_def Let_def)
  obtain k d2 where k: "poll_gateways us d1 = (k, d2)"
    by fastforce
  have "poll_gateways (u # us) d = (uring_orders_received u - rx_messages (sw_stats d) + k, d2)"
    using rx(2) k by (auto simp: d1_def split: prod.splits)
  then show ?case
    using Cons.IH [of d1] Cons.prems rx(1) k by auto
qed simp

definition demo_uring :: "nat \<Rightarrow> uring_gateway" where
  "demo_uring n = (let u = uring_init uring_config_default Engine.engine_init None
     in u\<lparr>posix := (posix u)\<lparr>gw := (gw (posix u))\<lparr>orders := n\<rparr>\<rparr>\<rparr>)"

theorem software_polls_add_up_witness:
  "rx_messages (sw_stats (snd (poll_gateways [demo_uring 3, demo_uring 8]
     (software_init False factory_config_default Engine.engine_init)))) = 8"
  using software_polls_add_up [of "software_init False factory_config_default Engine.engine_init" "[demo_uring 3, demo_uring 8]"]
  by (simp add: software_init_def driver_stats_default_def demo_uring_def uring_orders_received_def Let_def split: prod.splits)

end
