(* ===== verification/Spec2Isabelle.thy ===== *)
theory Spec2Isabelle
  imports Book_Properties Engine Spsc_Ring Fix_Properties Strategies Tick_Files Gateway_Chunks Ptp_Properties
    Cycle_Clock Driver_Properties
begin

text \<open>
  A verification development of the matching engine.
\<close>

end
